(* ===== verification/Prelude.thy ===== *)
theory Prelude
  imports Main "HOL-Library.Word"
begin

text \<open>
  What the components share: the collections of facts the proofs use
  (\<open>rb_laws\<close>, \<open>inv_intros\<close>, \<open>c_ints\<close>), the C integer limits and the truncating
  division of C, C strings as lists of characters closed by NUL, and a few list
  lemmas about updating and rotating arrays.
\<close>

named_theorems rb_laws \<open>how the ring buffer's operations act on its contents and invariant\<close>
named_theorems inv_intros \<open>an operation keeps a component's invariant\<close>
named_theorems c_ints \<open>limits and conversions of the C integer types\<close>

section \<open>C integers\<close>

type_synonym uint32 = "32 word"
type_synonym int32 = "32 word"
type_synonym fd = int

definition INT_MAX :: int where
  [c_ints]: "INT_MAX = 2147483647"

definition INT_MIN :: int where
  [c_ints]: "INT_MIN = - 2147483648"

definition in_int32 :: "int \<Rightarrow> bool" where
  [c_ints]: "in_int32 i \<longleftrightarrow> INT_MIN \<le> i \<and> i \<le> INT_MAX"

text \<open>Division and remainder of C round towards zero.\<close>

definition c_div :: "int \<Rightarrow> int \<Rightarrow> int" where
  "c_div a b = sgn a * sgn b * (\<bar>a\<bar> div \<bar>b\<bar>)"

definition c_mod :: "int \<Rightarrow> int \<Rightarrow> int" where
  "c_mod a b = a - c_div a b * b"

lemma c_div_nonneg: "0 \<le> a \<Longrightarrow> 0 < b \<Longrightarrow> c_div a b = a div b"
  by (cases "a = 0") (auto simp: c_div_def)

lemma c_mod_nonneg: "0 \<le> a \<Longrightarrow> 0 < b \<Longrightarrow> c_mod a b = a mod b"
  by (simp add: c_mod_def c_div_nonneg minus_div_mult_eq_mod)

lemma sint_of_int32 [c_ints]: "in_int32 i \<Longrightarrow> sint (of_int i :: int32) = i"
  by (simp add: in_int32_def INT_MIN_def INT_MAX_def signed_of_int signed_take_bit_int_eq_self)

section \<open>C strings\<close>

text \<open>
  A byte is a \<^typ>\<open>char\<close> and memory that holds text is a list of them. \<open>cstr\<close> is the
  string a C routine sees: the characters up to the first NUL.
\<close>

abbreviation NUL :: char where
  "NUL \<equiv> CHR 0x00"

definition cstr :: "string \<Rightarrow> string" where
  "cstr s = takeWhile (\<lambda>c. c \<noteq> NUL) s"

definition no_nul :: "string \<Rightarrow> bool" where
  "no_nul s \<longleftrightarrow> NUL \<notin> set s"

abbreviation byte :: "char \<Rightarrow> nat" where
  "byte c \<equiv> of_char c"

lemma cstr_no_nul [simp]: "no_nul s \<Longrightarrow> cstr (s @ NUL # r) = s"
  by (induction s) (auto simp: cstr_def no_nul_def)

lemma cstr_idem [simp]: "cstr (cstr s) = cstr s"
  by (simp add: cstr_def)

lemma no_nul_cstr [simp]: "no_nul (cstr s)"
  by (auto simp: no_nul_def cstr_def dest: set_takeWhileD)

lemma cstr_id [simp]: "no_nul s \<Longrightarrow> cstr s = s"
  by (auto simp: no_nul_def cstr_def takeWhile_eq_all_conv)

lemma no_nul_simps [simp]:
  "no_nul []"
  "no_nul (c # s) \<longleftrightarrow> c \<noteq> NUL \<and> no_nul s"
  "no_nul (s @ t) \<longleftrightarrow> no_nul s \<and> no_nul t"
  by (auto simp: no_nul_def)

lemma byte_less_256 [simp]: "byte c < 256"
  using of_char_mod_256 [of c, where 'a = nat] by (metis mod_less_divisor zero_less_numeral)

lemma char_of_byte [simp]: "char_of (byte c) = c"
  by simp

text \<open>\<open>strncmp (s, t, n) == 0\<close> against a literal \<open>t\<close> (its NUL is not part of the list).\<close>

fun strncmp_eq :: "string \<Rightarrow> string \<Rightarrow> nat \<Rightarrow> bool option" where
  "strncmp_eq s t 0 = Some True"
| "strncmp_eq [] t (Suc n) = None"
| "strncmp_eq (c # s) [] (Suc n) = Some (c = NUL)"
| "strncmp_eq (c # s) (d # t) (Suc n) =
     (if c \<noteq> d then Some False else if c = NUL then Some True else strncmp_eq s t n)"

lemma strncmp_eq_prefix:
  "no_nul t \<Longrightarrow> length t = n \<Longrightarrow>
    strncmp_eq s t n = (if take n s = t then Some True
                        else if take (length s) t = s then None else Some False)"
proof (induction s t n rule: strncmp_eq.induct)
  case (2 t n)
  then show ?case by auto
qed auto

section \<open>Lists used as arrays\<close>

lemma nth_list_update_other: "i \<noteq> j \<Longrightarrow> xs[i := x] ! j = xs ! j"
  by simp

lemma take_snoc_update: "i < length xs \<Longrightarrow> take (Suc i) (xs[i := x]) = take i xs @ [x]"
  by (simp add: take_Suc_conv_app_nth)

lemma mod_add_eq_imp_eq:
  fixes c :: nat
  assumes "(h + i) mod c = (h + j) mod c" "i < c" "j < c"
  shows "i = j"
proof -
  have *: "i = j" if le: "i \<le> j" and eq: "(h + i) mod c = (h + j) mod c" and "j < c" for i j
  proof -
    from le eq have "c dvd (h + j) - (h + i)"
      by (metis add_le_cancel_left mod_eq_dvd_iff_nat)
    then have "c dvd j - i" by simp
    with \<open>j < c\<close> le show ?thesis
      by (metis diff_is_0_eq dvd_imp_le le_antisym less_imp_diff_less not_le zero_less_diff)
  qed
  show ?thesis
    using assms * [of i j] * [of j i] by (cases "i \<le> j") auto
qed

section \<open>Counting\<close>

lemma card_fun_upd:
  assumes "finite {u. P (f u)}"
  shows "finite {u. P ((f(t := v)) u)}"
    and "card {u. P ((f(t := v)) u)} + (if P (f t) then 1 else 0) =
         card {u. P (f u)} + (if P v then 1 else 0)"
proof -
  define S where "S = {u. u \<noteq> t \<and> P (f u)}"
  have fin: "finite S" and t: "t \<notin> S"
    using assms by (auto simp: S_def intro: rev_finite_subset)
  have new: "{u. P ((f(t := v)) u)} = (if P v then insert t S else S)"
    by (auto simp: S_def)
  have old: "{u. P (f u)} = (if P (f t) then insert t S else S)"
    by (auto simp: S_def)
  show "finite {u. P ((f(t := v)) u)}" unfolding new using fin by simp
  show "card {u. P ((f(t := v)) u)} + (if P (f t) then 1 else 0) =
        card {u. P (f u)} + (if P v then 1 else 0)"
    unfolding new old using fin t by simp
qed

end
