(* ===== verification/RingBuffer.thy ===== *)
theory RingBuffer
  imports Prelude
begin

text \<open>
  The queue of \<^verbatim>\<open>sg-ringbuffer.c\<close>: the struct as a record, the critical section of
  each operation as a function on it, the waiting loops as recursion over what the
  condition variable hands back, and the deadline arithmetic of the timed calls. The
  contract \<open>bounded_queue\<close> is a locale over an abstraction to lists; the ring buffer
  interprets it. Locking and wake-ups are in \<open>RingMonitor\<close>.
\<close>

section \<open>The struct\<close>

record 'a RingBuffer =
  buf :: "'a list"
  cap :: nat
  head :: nat
  tail :: nat
  cnt :: nat

text \<open>
  \<open>rb_create\<close> makes two allocations; their success is an argument. \<open>z\<close> is the slot
  value \<open>calloc\<close> leaves (the null pointer).
\<close>

definition rb_create :: "'a \<Rightarrow> nat \<Rightarrow> bool \<Rightarrow> bool \<Rightarrow> 'a RingBuffer option" where
  "rb_create z c ok_rb ok_buf =
     (if \<not> ok_rb then None
      else if \<not> ok_buf then None
      else Some \<lparr>buf = replicate c z, cap = c, head = 0, tail = 0, cnt = 0\<rparr>)"

text \<open>Both blocks are freed; a pointer to a destroyed queue is as good as \<open>NULL\<close>.\<close>

definition rb_destroy :: "'a RingBuffer option \<Rightarrow> 'a RingBuffer option" where
  "rb_destroy rb = None"

section \<open>Critical sections\<close>

definition rb_full :: "'a RingBuffer \<Rightarrow> bool" where
  "rb_full rb \<longleftrightarrow> cnt rb = cap rb"

definition rb_empty :: "'a RingBuffer \<Rightarrow> bool" where
  "rb_empty rb \<longleftrightarrow> cnt rb = 0"

definition rb_put :: "'a RingBuffer \<Rightarrow> 'a \<Rightarrow> 'a RingBuffer" where
  "rb_put rb item = rb\<lparr>buf := (buf rb)[tail rb := item],
                       tail := (tail rb + 1) mod cap rb,
                       cnt := cnt rb + 1\<rparr>"

definition rb_take :: "'a RingBuffer \<Rightarrow> 'a \<times> 'a RingBuffer" where
  "rb_take rb = (buf rb ! head rb,
                 rb\<lparr>head := (head rb + 1) mod cap rb, cnt := cnt rb - 1\<rparr>)"

section \<open>The waiting loops\<close>

text \<open>
  A wait gives the mutex away and gets it back: what it returns and the queue as other
  threads have left it are the environment's. A loop is given the list of what its
  successive waits return; \<open>None\<close> is a call that is still blocked when the list ends.
\<close>

datatype wait_result = Woken | TimedOut

fun rb_push :: "'a RingBuffer \<Rightarrow> 'a RingBuffer list \<Rightarrow> 'a \<Rightarrow> 'a RingBuffer option" where
  "rb_push rb ws item =
     (if cnt rb = cap rb
      then (case ws of [] \<Rightarrow> None | rb' # ws' \<Rightarrow> rb_push rb' ws' item)
      else Some (rb_put rb item))"

fun rb_timed_push ::
  "'a RingBuffer \<Rightarrow> (wait_result \<times> 'a RingBuffer) list \<Rightarrow> 'a \<Rightarrow> (int \<times> 'a RingBuffer) option" where
  "rb_timed_push rb ws item =
     (if cnt rb = cap rb
      then (case ws of [] \<Rightarrow> None
            | (TimedOut, rb') # ws' \<Rightarrow> Some (0, rb')
            | (Woken, rb') # ws' \<Rightarrow> rb_timed_push rb' ws' item)
      else Some (1, rb_put rb item))"

fun rb_pop :: "'a RingBuffer \<Rightarrow> 'a RingBuffer list \<Rightarrow> ('a \<times> 'a RingBuffer) option" where
  "rb_pop rb ws =
     (if cnt rb = 0
      then (case ws of [] \<Rightarrow> None | rb' # ws' \<Rightarrow> rb_pop rb' ws')
      else Some (rb_take rb))"

fun rb_timed_pop ::
  "'a RingBuffer \<Rightarrow> (wait_result \<times> 'a RingBuffer) list \<Rightarrow> (int \<times> 'a option \<times> 'a RingBuffer) option" where
  "rb_timed_pop rb ws =
     (if cnt rb = 0
      then (case ws of [] \<Rightarrow> None
            | (TimedOut, rb') # ws' \<Rightarrow> Some (0, None, rb')
            | (Woken, rb') # ws' \<Rightarrow> rb_timed_pop rb' ws')
      else (case rb_take rb of (item, rb') \<Rightarrow> Some (1, Some item, rb')))"

declare rb_push.simps [simp del] rb_timed_push.simps [simp del]
  rb_pop.simps [simp del] rb_timed_pop.simps [simp del]

section \<open>Deadlines\<close>

record timespec =
  tv_sec :: int
  tv_nsec :: int

definition rb_deadline :: "timespec \<Rightarrow> int \<Rightarrow> timespec" where
  "rb_deadline now timeout_ms =
     (let ts = \<lparr>tv_sec = tv_sec now + c_div timeout_ms 1000,
                tv_nsec = tv_nsec now + c_mod timeout_ms 1000 * 1000000\<rparr>
      in if tv_nsec ts \<ge> 1000000000
         then ts\<lparr>tv_sec := tv_sec ts + 1, tv_nsec := tv_nsec ts - 1000000000\<rparr>
         else ts)"

definition ts_normal :: "timespec \<Rightarrow> bool" where
  "ts_normal ts \<longleftrightarrow> 0 \<le> tv_nsec ts \<and> tv_nsec ts < 1000000000"

definition ts_ns :: "timespec \<Rightarrow> int" where
  "ts_ns ts = tv_sec ts * 1000000000 + tv_nsec ts"

section \<open>Invariant and abstraction\<close>

definition rb_inv :: "'a RingBuffer \<Rightarrow> bool" where
  "rb_inv rb \<longleftrightarrow> 0 < cap rb \<and> length (buf rb) = cap rb \<and> head rb < cap rb \<and>
                 cnt rb \<le> cap rb \<and> tail rb = (head rb + cnt rb) mod cap rb"

definition rb_list :: "'a RingBuffer \<Rightarrow> 'a list" where
  "rb_list rb = map (\<lambda>i. buf rb ! ((head rb + i) mod cap rb)) [0..<cnt rb]"

lemma length_rb_list [simp]: "length (rb_list rb) = cnt rb"
  by (simp add: rb_list_def)

lemma rb_tail_less: "rb_inv rb \<Longrightarrow> tail rb < cap rb"
  by (simp add: rb_inv_def)

lemma rb_inv_put [inv_intros]:
  assumes "rb_inv rb" "\<not> rb_full rb"
  shows "rb_inv (rb_put rb x)"
  using assms by (simp add: rb_inv_def rb_full_def rb_put_def mod_simps)

lemma rb_inv_take [inv_intros]:
  assumes "rb_inv rb" "\<not> rb_empty rb"
  shows "rb_inv (snd (rb_take rb))"
proof -
  obtain n where "cnt rb = Suc n" using assms(2) by (cases "cnt rb") (auto simp: rb_empty_def)
  then show ?thesis
    using assms(1) by (simp add: rb_inv_def rb_take_def mod_simps)
qed

lemma rb_list_put [rb_laws]:
  assumes inv: "rb_inv rb" and room: "\<not> rb_full rb"
  shows "rb_list (rb_put rb x) = rb_list rb @ [x]"
proof -
  have less: "cnt rb < cap rb" using inv room by (simp add: rb_inv_def rb_full_def)
  have other: "(head rb + i) mod cap rb \<noteq> tail rb" if "i < cnt rb" for i
    using that less inv mod_add_eq_imp_eq [of "head rb" i "cap rb" "cnt rb"]
    by (auto simp: rb_inv_def)
  have "tail rb < length (buf rb)" using inv by (simp add: rb_inv_def)
  then have "map (\<lambda>i. (buf rb)[tail rb := x] ! ((head rb + i) mod cap rb)) [0..<cnt rb] = rb_list rb"
    using other by (simp add: rb_list_def nth_list_update_neq [OF not_sym])
  then show ?thesis
    using inv \<open>tail rb < length (buf rb)\<close> by (simp add: rb_list_def rb_put_def rb_inv_def)
qed

lemma rb_list_take [rb_laws]:
  assumes inv: "rb_inv rb" and some: "\<not> rb_empty rb"
  shows "rb_list rb = fst (rb_take rb) # rb_list (snd (rb_take rb))"
proof -
  obtain n where n: "cnt rb = Suc n" using some by (cases "cnt rb") (auto simp: rb_empty_def)
  have "[0..<cnt rb] = 0 # map Suc [0..<n]" by (simp add: n upt_conv_Cons map_Suc_upt)
  then show ?thesis
    using inv by (simp add: rb_list_def rb_take_def n rb_inv_def mod_simps comp_def)
qed

lemma rb_full_iff [rb_laws]: "rb_full rb \<longleftrightarrow> length (rb_list rb) = cap rb"
  by (simp add: rb_full_def)

lemma rb_empty_iff [rb_laws]: "rb_empty rb \<longleftrightarrow> rb_list rb = []"
  by (metis length_0_conv length_rb_list rb_empty_def)

lemma rb_cap_put [simp]: "cap (rb_put rb x) = cap rb"
  by (simp add: rb_put_def)

lemma rb_cap_take [simp]: "cap (snd (rb_take rb)) = cap rb"
  by (simp add: rb_take_def)

lemma rb_cnt_put [simp]: "cnt (rb_put rb x) = cnt rb + 1"
  by (simp add: rb_put_def)

lemma rb_cnt_take [simp]: "cnt (snd (rb_take rb)) = cnt rb - 1"
  by (simp add: rb_take_def)

lemma rb_create_inv [inv_intros]:
  "rb_create z c ok1 ok2 = Some rb \<Longrightarrow> 0 < c \<Longrightarrow> rb_inv rb"
  by (auto simp: rb_create_def rb_inv_def split: if_splits)

lemma rb_create_list [rb_laws]: "rb_create z c ok1 ok2 = Some rb \<Longrightarrow> rb_list rb = []"
  by (auto simp: rb_create_def rb_list_def split: if_splits)

section \<open>The contract of a bounded queue\<close>

text \<open>
  Running a script of operations: \<open>None\<close> is a script that blocks. The abstract run is on
  plain lists.
\<close>

datatype 'a qop = Put 'a | Take

fun q_run ::
  "('q \<Rightarrow> bool) \<Rightarrow> ('q \<Rightarrow> bool) \<Rightarrow> ('q \<Rightarrow> 'a \<Rightarrow> 'q) \<Rightarrow> ('q \<Rightarrow> 'a \<times> 'q) \<Rightarrow>
    'a qop list \<Rightarrow> 'q \<Rightarrow> ('a list \<times> 'q) option" where
  "q_run is_full is_empty put take_q [] q = Some ([], q)"
| "q_run is_full is_empty put take_q (Put x # ops) q =
     (if is_full q then None else q_run is_full is_empty put take_q ops (put q x))"
| "q_run is_full is_empty put take_q (Take # ops) q =
     (if is_empty q then None
      else case take_q q of (x, q') \<Rightarrow>
        map_option (\<lambda>(out, q''). (x # out, q'')) (q_run is_full is_empty put take_q ops q'))"

fun list_run :: "nat \<Rightarrow> 'a qop list \<Rightarrow> 'a list \<Rightarrow> ('a list \<times> 'a list) option" where
  "list_run c [] xs = Some ([], xs)"
| "list_run c (Put x # ops) xs = (if length xs = c then None else list_run c ops (xs @ [x]))"
| "list_run c (Take # ops) xs =
     (case xs of [] \<Rightarrow> None
      | y # ys \<Rightarrow> map_option (\<lambda>(out, zs). (y # out, zs)) (list_run c ops ys))"

definition puts :: "'a qop list \<Rightarrow> 'a list" where
  "puts ops = concat (map (\<lambda>opn. case opn of Put x \<Rightarrow> [x] | Take \<Rightarrow> []) ops)"

lemma puts_simps [simp]:
  "puts [] = []" "puts (Put x # ops) = x # puts ops" "puts (Take # ops) = puts ops"
  by (simp_all add: puts_def)

lemma list_run_fifo: "list_run c ops xs = Some (out, ys) \<Longrightarrow> xs @ puts ops = out @ ys"
  by (induction c ops xs arbitrary: out ys rule: list_run.induct)
     (auto split: if_splits list.splits)

locale bounded_queue =
  fixes is_full :: "'q \<Rightarrow> bool" and is_empty :: "'q \<Rightarrow> bool"
    and put :: "'q \<Rightarrow> 'a \<Rightarrow> 'q" and take_q :: "'q \<Rightarrow> 'a \<times> 'q"
    and contents :: "'q \<Rightarrow> 'a list" and inv :: "'q \<Rightarrow> bool" and capacity :: "'q \<Rightarrow> nat"
  assumes inv_put: "inv q \<Longrightarrow> \<not> is_full q \<Longrightarrow> inv (put q x)"
    and inv_take: "inv q \<Longrightarrow> \<not> is_empty q \<Longrightarrow> inv (snd (take_q q))"
    and contents_put: "inv q \<Longrightarrow> \<not> is_full q \<Longrightarrow> contents (put q x) = contents q @ [x]"
    and contents_take: "inv q \<Longrightarrow> \<not> is_empty q \<Longrightarrow>
          contents q = fst (take_q q) # contents (snd (take_q q))"
    and full_iff: "inv q \<Longrightarrow> is_full q \<longleftrightarrow> length (contents q) = capacity q"
    and empty_iff: "inv q \<Longrightarrow> is_empty q \<longleftrightarrow> contents q = []"
    and capacity_put: "capacity (put q x) = capacity q"
    and capacity_take: "capacity (snd (take_q q)) = capacity q"
    and within: "inv q \<Longrightarrow> length (contents q) \<le> capacity q"
begin

lemma take_step:
  assumes "inv q" "\<not> is_empty q" "take_q q = (x, q')"
  shows "contents q = x # contents q'" "inv q'" "capacity q' = capacity q"
  using contents_take [OF assms(1,2)] inv_take [OF assms(1,2)] capacity_take [of q] assms(3)
  by simp_all

lemma run_refines_list:
  "inv q \<Longrightarrow>
    map_option (\<lambda>(out, q'). (out, contents q')) (q_run is_full is_empty put take_q ops q) =
    list_run (capacity q) ops (contents q)"
proof (induction ops arbitrary: q)
  case Nil
  then show ?case by simp
next
  case (Cons opn ops)
  show ?case
  proof (cases opn)
    case (Put x)
    then show ?thesis
      using Cons.IH [of "put q x"] Cons.prems
      by (simp add: inv_put contents_put capacity_put full_iff)
  next
    case Take
    show ?thesis
    proof (cases "is_empty q")
      case True
      with Take Cons.prems show ?thesis by (simp add: empty_iff)
    next
      case False
      obtain x q' where t: "take_q q = (x, q')" by fastforce
      note step = take_step [OF Cons.prems False t]
      have "list_run (capacity q) ops (contents q') =
          map_option (\<lambda>(out, q'). (out, contents q')) (q_run is_full is_empty put take_q ops q')"
        using Cons.IH [OF step(2)] by (simp add: step(3))
      then show ?thesis
        by (simp add: Take False t step option.map_comp comp_def split_def)
    qed
  qed
qed

lemma run_inv:
  "q_run is_full is_empty put take_q ops q = Some (out, q') \<Longrightarrow> inv q \<Longrightarrow>
    inv q' \<and> capacity q' = capacity q"
proof (induction ops arbitrary: q out)
  case Nil
  then show ?case by simp
next
  case (Cons opn ops)
  then show ?case
    by (cases opn)
       (fastforce simp: inv_put capacity_put split: if_splits prod.splits dest: take_step)+
qed

lemma run_fifo:
  assumes "q_run is_full is_empty put take_q ops q = Some (out, q')" and "inv q"
  shows "contents q @ puts ops = out @ contents q'"
proof -
  have "list_run (capacity q) ops (contents q) = Some (out, contents q')"
    using run_refines_list [OF assms(2), of ops] assms(1) by simp
  then show ?thesis by (rule list_run_fifo)
qed

end

section \<open>The ring buffer is a bounded queue\<close>

interpretation rbq: bounded_queue rb_full rb_empty rb_put rb_take rb_list rb_inv cap
proof unfold_locales
  fix q :: "'a RingBuffer" and x
  show "rb_inv q \<Longrightarrow> \<not> rb_empty q \<Longrightarrow> rb_list q = fst (rb_take q) # rb_list (snd (rb_take q))"
    by (rule rb_list_take)
  show "rb_inv q \<Longrightarrow> length (rb_list q) \<le> cap q"
    by (simp add: rb_inv_def)
qed (simp_all add: inv_intros rb_list_put rb_full_iff rb_empty_iff)

definition rb_run :: "'a qop list \<Rightarrow> 'a RingBuffer \<Rightarrow> ('a list \<times> 'a RingBuffer) option" where
  "rb_run = q_run rb_full rb_empty rb_put rb_take"

text \<open>
  C2: a script of pushes and pops on the circular array does what it does on a list of at
  most \<open>cap\<close> elements: same outputs, same final contents, blocked exactly when the list
  version is (a push on a full queue, a pop on an empty one).
\<close>

theorem rb_run_refines_list:
  assumes "rb_inv rb"
  shows "map_option (\<lambda>(out, rb'). (out, rb_list rb')) (rb_run ops rb) =
         list_run (cap rb) ops (rb_list rb)"
  unfolding rb_run_def by (rule rbq.run_refines_list) (rule assms)

theorem rb_run_refines_list_witness:
  "let rb = \<lparr>buf = [5, 6, 7::nat], cap = 3, head = 2, tail = 1, cnt = 2\<rparr>;
       ops = [Put 8, Take, Take, Put 9, Take] in
     rb_inv rb \<and>
     map_option (\<lambda>(out, rb'). (out, rb_list rb')) (rb_run ops rb) =
       list_run (cap rb) ops (rb_list rb) \<and>
     list_run (cap rb) ops (rb_list rb) = Some ([7, 5, 8], [9])"
proof -
  have inv: "rb_inv \<lparr>buf = [5, 6, 7::nat], cap = 3, head = 2, tail = 1, cnt = 2\<rparr>"
    by (simp add: rb_inv_def)
  show ?thesis
    using inv rb_run_refines_list [OF inv, of "[Put 8, Take, Take, Put 9, Take]"]
    by (simp add: Let_def rb_list_def upt_rec)
qed

text \<open>
  from a freshly created queue, whatever has been popped followed by what is still
  queued is exactly what was pushed, in order: nothing is lost, duplicated or reordered,
  and the count never passes the capacity.
\<close>

theorem rb_run_fifo:
  assumes "rb_create z c ok1 ok2 = Some rb" and "0 < c" and "rb_run ops rb = Some (out, rb')"
  shows "puts ops = out @ rb_list rb' \<and> cnt rb' \<le> c"
proof -
  have inv: "rb_inv rb" and c: "cap rb = c" and nil: "rb_list rb = []"
    using assms(1,2) by (auto simp: rb_create_inv rb_create_list rb_create_def split: if_splits)
  note run = assms(3) [unfolded rb_run_def]
  show ?thesis
    using rbq.run_fifo [OF run inv] rbq.run_inv [OF run inv] nil c by (simp add: rb_inv_def)
qed

theorem rb_run_fifo_witness:
  "\<exists>rb out rb'. rb_create 0 2 True True = Some rb \<and>
     rb_run [Put (4::nat), Put 5, Take, Put 6] rb = Some (out, rb') \<and>
     puts [Put 4, Put 5, Take, Put 6] = out @ rb_list rb' \<and> cnt rb' \<le> 2"
proof -
  define rb where "rb = \<lparr>buf = [0::nat, 0], cap = 2, head = 0, tail = 0, cnt = 0\<rparr>"
  define rb' where "rb' = \<lparr>buf = [6::nat, 5], cap = 2, head = 1, tail = 1, cnt = 2\<rparr>"
  have c: "rb_create 0 2 True True = Some rb"
    by (simp add: rb_create_def rb_def numeral_2_eq_2)
  have r: "rb_run [Put 4, Put 5, Take, Put 6] rb = Some ([4], rb')"
    by (simp add: rb_run_def rb_def rb'_def rb_full_def rb_empty_def rb_put_def rb_take_def)
  show ?thesis using c r rb_run_fifo [OF c _ r] by (simp del: puts_simps)
qed

section \<open>The timed calls\<close>

lemma rb_timed_push_cases:
  "rb_timed_push rb ws x = Some (r, rb') \<Longrightarrow>
    (r = 0 \<and> (TimedOut, rb') \<in> set ws) \<or>
    (r = 1 \<and> (\<exists>q \<in> insert rb (snd ` set ws). \<not> rb_full q \<and> rb' = rb_put q x))"
proof (induction rb ws x rule: rb_timed_push.induct)
  case (1 rb ws item)
  then show ?case
    by (cases ws) (auto simp: rb_timed_push.simps [of rb] rb_full_def
        split: if_splits prod.splits wait_result.splits)
qed

lemma rb_timed_pop_cases:
  "rb_timed_pop rb ws = Some (r, it, rb') \<Longrightarrow>
    (r = 0 \<and> it = None \<and> (TimedOut, rb') \<in> set ws) \<or>
    (r = 1 \<and> (\<exists>q \<in> insert rb (snd ` set ws). \<not> rb_empty q \<and>
        it = Some (fst (rb_take q)) \<and> rb' = snd (rb_take q)))"
proof (induction rb ws rule: rb_timed_pop.induct)
  case (1 rb ws)
  then show ?case
    by (cases ws) (auto simp: rb_timed_pop.simps [of rb] rb_empty_def
        split: if_splits prod.splits wait_result.splits)
qed

text \<open>
  a timed push returns 1 only after appending the item at the tail of the queue as
  some wait found it (and only when that queue had room), returns 0 only from a wait that
  timed out and then leaves the queue as it found it, and cannot be still blocked once a
  wait has timed out.
\<close>

theorem rb_timed_push_spec:
  assumes inv: "\<forall>q \<in> insert rb (snd ` set ws). rb_inv q"
  shows "(\<forall>r rb'. rb_timed_push rb ws x = Some (r, rb') \<longrightarrow>
            (r = 0 \<and> (TimedOut, rb') \<in> set ws) \<or>
            (r = 1 \<and> rb_inv rb' \<and>
              (\<exists>q \<in> insert rb (snd ` set ws). cnt q < cap q \<and> rb_list rb' = rb_list q @ [x]))) \<and>
         ((\<exists>q. (TimedOut, q) \<in> set ws) \<longrightarrow> rb_timed_push rb ws x \<noteq> None)"
proof (intro conjI allI impI)
  fix r rb'
  assume "rb_timed_push rb ws x = Some (r, rb')"
  from rb_timed_push_cases [OF this] inv
  show "(r = 0 \<and> (TimedOut, rb') \<in> set ws) \<or>
        (r = 1 \<and> rb_inv rb' \<and>
          (\<exists>q \<in> insert rb (snd ` set ws). cnt q < cap q \<and> rb_list rb' = rb_list q @ [x]))"
  proof (elim disjE)
    assume "r = 1 \<and> (\<exists>q\<in>insert rb (snd ` set ws). \<not> rb_full q \<and> rb' = rb_put q x)"
    then obtain q where q: "q \<in> insert rb (snd ` set ws)" "\<not> rb_full q" "rb' = rb_put q x" "r = 1"
      by blast
    moreover have "rb_inv q" using q(1) inv by blast
    moreover have "cnt q < cap q" using \<open>rb_inv q\<close> q(2) by (simp add: rb_full_def rb_inv_def)
    ultimately show ?thesis by (blast intro: rb_inv_put rb_list_put)
  qed blast
next
  assume "\<exists>q. (TimedOut, q) \<in> set ws"
  then show "rb_timed_push rb ws x \<noteq> None"
  proof (induction rb ws x rule: rb_timed_push.induct)
    case (1 rb ws item)
    then show ?case
      by (cases ws) (fastforce simp: rb_timed_push.simps [of rb] split: prod.splits wait_result.splits)+
  qed
qed

theorem rb_timed_push_spec_witness:
  "let full = \<lparr>buf = [1::nat], cap = 1, head = 0, tail = 0, cnt = 1\<rparr>;
       room = \<lparr>buf = [1::nat], cap = 1, head = 0, tail = 0, cnt = 0\<rparr> in
     rb_timed_push full [(Woken, full), (TimedOut, full)] 9 = Some (0, full) \<and>
     rb_timed_push full [(Woken, room)] 9 = Some (1, rb_put room 9) \<and>
     rb_timed_push full [(Woken, full), (TimedOut, full)] 9 \<noteq> None"
proof -
  define full where "full = \<lparr>buf = [1::nat], cap = 1, head = 0, tail = 0, cnt = 1\<rparr>"
  define room where "room = \<lparr>buf = [1::nat], cap = 1, head = 0, tail = 0, cnt = 0\<rparr>"
  have inv: "\<forall>q \<in> insert full (snd ` set [(Woken, full), (TimedOut, full)]). rb_inv q"
    by (simp add: rb_inv_def full_def)
  show ?thesis
    using rb_timed_push_spec [OF inv, of 9]
    by (simp add: Let_def rb_timed_push.simps full_def room_def)
qed

text \<open>
  a timed pop returns 1 only with the oldest element of the queue as some wait found
  it, which it removes, and 0 only from a wait that timed out, storing nothing.
\<close>

theorem rb_timed_pop_spec:
  assumes inv: "\<forall>q \<in> insert rb (snd ` set ws). rb_inv q"
    and ret: "rb_timed_pop rb ws = Some (r, it, rb')"
  shows "(r = 0 \<and> it = None \<and> (TimedOut, rb') \<in> set ws) \<or>
         (r = 1 \<and> rb_inv rb' \<and>
           (\<exists>q \<in> insert rb (snd ` set ws). \<exists>x. it = Some x \<and> rb_list q = x # rb_list rb'))"
  using rb_timed_pop_cases [OF ret] inv
proof (elim disjE)
  assume "r = 1 \<and> (\<exists>q\<in>insert rb (snd ` set ws). \<not> rb_empty q \<and>
      it = Some (fst (rb_take q)) \<and> rb' = snd (rb_take q))"
  then obtain q where q: "q \<in> insert rb (snd ` set ws)" "\<not> rb_empty q" "r = 1"
      "it = Some (fst (rb_take q))" "rb' = snd (rb_take q)"
    by blast
  moreover have "rb_inv q" using q(1) inv by blast
  ultimately show ?thesis by (blast intro: rb_inv_take rb_list_take)
qed blast

theorem rb_timed_pop_spec_witness:
  "let e = \<lparr>buf = [0, 0], cap = 2, head = 1, tail = 1, cnt = 0\<rparr>;
       q = \<lparr>buf = [0, 7::nat], cap = 2, head = 1, tail = 0, cnt = 1\<rparr> in
     rb_timed_pop e [(Woken, e), (Woken, q)] = Some (1, Some 7, snd (rb_take q)) \<and>
     rb_inv (snd (rb_take q))"
proof -
  define e where "e = \<lparr>buf = [0, 0::nat], cap = 2, head = 1, tail = 1, cnt = 0\<rparr>"
  define q where "q = \<lparr>buf = [0, 7::nat], cap = 2, head = 1, tail = 0, cnt = 1\<rparr>"
  have inv: "\<forall>p \<in> insert e (snd ` set [(Woken, e), (Woken, q)]). rb_inv p"
    by (simp add: rb_inv_def e_def q_def)
  have run: "rb_timed_pop e [(Woken, e), (Woken, q)] = Some (1, Some 7, snd (rb_take q))"
    by (simp add: rb_timed_pop.simps e_def q_def rb_take_def)
  show ?thesis
    using run rb_timed_pop_spec [OF inv run] by (simp add: Let_def e_def q_def)
qed

text \<open>
  C18: the absolute deadline is now plus the timeout, to the nanosecond, and for the
  non-negative timeouts the program passes it is a normalised \<open>timespec\<close>, which
  \<open>pthread_cond_timedwait\<close> requires. A negative timeout can break normalisation.
\<close>

theorem rb_deadline_spec:
  "ts_ns (rb_deadline now t) = ts_ns now + t * 1000000 \<and>
   (ts_normal now \<longrightarrow> 0 \<le> t \<longrightarrow> ts_normal (rb_deadline now t)) \<and>
   \<not> ts_normal (rb_deadline \<lparr>tv_sec = 10, tv_nsec = 0\<rparr> (-1))"
proof (intro conjI impI)
  show "ts_ns (rb_deadline now t) = ts_ns now + t * 1000000"
    by (simp add: ts_ns_def rb_deadline_def Let_def c_mod_def algebra_simps)
  show "\<not> ts_normal (rb_deadline \<lparr>tv_sec = 10, tv_nsec = 0\<rparr> (-1))"
    by (simp add: ts_normal_def rb_deadline_def Let_def c_mod_def c_div_def)
next
  assume "ts_normal now" "0 \<le> t"
  moreover have "0 \<le> t mod 1000" "t mod 1000 < 1000" by simp_all
  ultimately show "ts_normal (rb_deadline now t)"
    by (auto simp: ts_normal_def rb_deadline_def Let_def c_mod_nonneg)
qed

theorem rb_deadline_spec_witness:
  "ts_normal (rb_deadline \<lparr>tv_sec = 10, tv_nsec = 950000000\<rparr> 100) \<and>
   rb_deadline \<lparr>tv_sec = 10, tv_nsec = 950000000\<rparr> 100 = \<lparr>tv_sec = 11, tv_nsec = 50000000\<rparr>"
  using rb_deadline_spec [of "\<lparr>tv_sec = 10, tv_nsec = 950000000\<rparr>" 100]
  by (simp add: ts_normal_def rb_deadline_def Let_def c_mod_def c_div_def)

end
