(* ===== verification/RingMonitor.thy ===== *)
theory RingMonitor
  imports RingBuffer
begin

text \<open>
  The queue of \<^verbatim>\<open>sg-ringbuffer.c\<close> as a monitor used by any number of threads: one rule
  per point where a thread takes or gives back the mutex, waits on \<open>not_full\<close> or
  \<open>not_empty\<close>, is woken, times out, or signals. Between two such points a thread holds the
  mutex, so the critical sections of \<open>RingBuffer\<close> are single steps. A timed wait may end
  with \<open>ETIMEDOUT\<close> although the waiter has been signalled meanwhile, as POSIX allows; the
  code then gives up without looking at the queue again.
\<close>

section \<open>Threads and steps\<close>

datatype 'a call = CPush 'a | CTimedPush 'a | CPop | CTimedPop

datatype 'a mpc =
    Idle
  | Lock "'a call"     \<comment> \<open>in front of \<open>pthread_mutex_lock\<close>\<close>
  | Test "'a call"     \<comment> \<open>holds the mutex, in front of the loop test\<close>
  | Wait "'a call"     \<comment> \<open>in the wait set of its condition variable\<close>
  | Wake "'a call"     \<comment> \<open>woken, has to take the mutex again\<close>
  | Expire "'a call"   \<comment> \<open>its timed wait ended with \<open>ETIMEDOUT\<close>, has to take the mutex again\<close>
  | Signal "'a call"   \<comment> \<open>queue updated, in front of \<open>pthread_cond_signal\<close>\<close>
  | Unlock             \<comment> \<open>in front of \<open>pthread_mutex_unlock\<close>\<close>

fun is_pop :: "'a call \<Rightarrow> bool" where
  "is_pop (CPush x) = False"
| "is_pop (CTimedPush x) = False"
| "is_pop CPop = True"
| "is_pop CTimedPop = True"

fun is_timed :: "'a call \<Rightarrow> bool" where
  "is_timed (CPush x) = False"
| "is_timed (CTimedPush x) = True"
| "is_timed CPop = False"
| "is_timed CTimedPop = True"

definition must_wait :: "'a call \<Rightarrow> 'a RingBuffer \<Rightarrow> bool" where
  "must_wait c rb = (if is_pop c then rb_empty rb else rb_full rb)"

fun apply_call :: "'a call \<Rightarrow> 'a RingBuffer \<Rightarrow> 'a RingBuffer" where
  "apply_call (CPush x) rb = rb_put rb x"
| "apply_call (CTimedPush x) rb = rb_put rb x"
| "apply_call CPop rb = snd (rb_take rb)"
| "apply_call CTimedPop rb = snd (rb_take rb)"

fun call_in :: "'a call \<Rightarrow> 'a list" where
  "call_in (CPush x) = [x]"
| "call_in (CTimedPush x) = [x]"
| "call_in CPop = []"
| "call_in CTimedPop = []"

definition call_out :: "'a call \<Rightarrow> 'a RingBuffer \<Rightarrow> 'a list" where
  "call_out c rb = (if is_pop c then [fst (rb_take rb)] else [])"

record 'a monitor =
  mrb :: "'a RingBuffer"
  owner :: "nat option"
  pcs :: "nat \<Rightarrow> 'a mpc"
  pushed :: "'a list"
  popped :: "'a list"
  lates :: "bool \<Rightarrow> nat"   \<comment> \<open>history: woken pops (true) and pushes that still timed out\<close>

inductive mon_step :: "'a monitor \<Rightarrow> 'a monitor \<Rightarrow> bool" where
  call: "pcs s t = Idle \<Longrightarrow> mon_step s (s\<lparr>pcs := (pcs s)(t := Lock c)\<rparr>)"
| lock: "pcs s t = Lock c \<Longrightarrow> owner s = None \<Longrightarrow>
    mon_step s (s\<lparr>pcs := (pcs s)(t := Test c), owner := Some t\<rparr>)"
| block: "pcs s t = Test c \<Longrightarrow> must_wait c (mrb s) \<Longrightarrow>
    mon_step s (s\<lparr>pcs := (pcs s)(t := Wait c), owner := None\<rparr>)"
| commit: "pcs s t = Test c \<Longrightarrow> \<not> must_wait c (mrb s) \<Longrightarrow>
    mon_step s (s\<lparr>pcs := (pcs s)(t := Signal c), mrb := apply_call c (mrb s),
                  pushed := pushed s @ call_in c, popped := popped s @ call_out c (mrb s)\<rparr>)"
| signal_none: "pcs s t = Signal c \<Longrightarrow> \<forall>u d. pcs s u = Wait d \<longrightarrow> is_pop d = is_pop c \<Longrightarrow>
    mon_step s (s\<lparr>pcs := (pcs s)(t := Unlock)\<rparr>)"
| signal_one: "pcs s t = Signal c \<Longrightarrow> pcs s u = Wait d \<Longrightarrow> is_pop d \<noteq> is_pop c \<Longrightarrow>
    mon_step s (s\<lparr>pcs := (pcs s)(t := Unlock, u := Wake d)\<rparr>)"
| spurious: "pcs s t = Wait c \<Longrightarrow> mon_step s (s\<lparr>pcs := (pcs s)(t := Wake c)\<rparr>)"
| expire: "pcs s t = Wait c \<Longrightarrow> is_timed c \<Longrightarrow>
    mon_step s (s\<lparr>pcs := (pcs s)(t := Expire c)\<rparr>)"
| late: "pcs s t = Wake c \<Longrightarrow> is_timed c \<Longrightarrow>
    mon_step s (s\<lparr>pcs := (pcs s)(t := Expire c),
                  lates := (lates s)(is_pop c := lates s (is_pop c) + 1)\<rparr>)"
| relock: "pcs s t = Wake c \<Longrightarrow> owner s = None \<Longrightarrow>
    mon_step s (s\<lparr>pcs := (pcs s)(t := Test c), owner := Some t\<rparr>)"
| give_up: "pcs s t = Expire c \<Longrightarrow> owner s = None \<Longrightarrow>
    mon_step s (s\<lparr>pcs := (pcs s)(t := Unlock), owner := Some t\<rparr>)"
| unlock: "pcs s t = Unlock \<Longrightarrow>
    mon_step s (s\<lparr>pcs := (pcs s)(t := Idle), owner := None\<rparr>)"

definition mon_init :: "'a RingBuffer \<Rightarrow> 'a monitor" where
  "mon_init rb = \<lparr>mrb = rb, owner = None, pcs = (\<lambda>_. Idle), pushed = [], popped = [],
     lates = (\<lambda>_. 0)\<rparr>"

inductive mon_reach :: "'a RingBuffer \<Rightarrow> 'a monitor \<Rightarrow> bool" for rb where
  start: "mon_reach rb (mon_init rb)"
| step: "mon_reach rb s \<Longrightarrow> mon_step s s' \<Longrightarrow> mon_reach rb s'"

section \<open>Invariant\<close>

fun holds :: "'a mpc \<Rightarrow> bool" where
  "holds (Test c) = True"
| "holds (Signal c) = True"
| "holds Unlock = True"
| "holds _ = False"

text \<open>
  \<open>credit b p\<close>: a thread at \<open>p\<close> is about to look at the queue for a call of kind \<open>b\<close>
  (pop when true), or is about to signal a waiter of that kind.
\<close>

fun credit :: "bool \<Rightarrow> 'a mpc \<Rightarrow> bool" where
  "credit b (Wake c) = (is_pop c = b)"
| "credit b (Test c) = (is_pop c = b)"
| "credit b (Signal c) = (is_pop c \<noteq> b)"
| "credit b _ = False"

definition credits :: "bool \<Rightarrow> 'a monitor \<Rightarrow> nat" where
  "credits b s = card {u. credit b (pcs s u)}"

definition waits :: "bool \<Rightarrow> 'a monitor \<Rightarrow> bool" where
  "waits b s \<longleftrightarrow> (\<exists>t c. pcs s t = Wait c \<and> is_pop c = b)"

definition avail :: "bool \<Rightarrow> 'a RingBuffer \<Rightarrow> nat" where
  "avail b rb = (if b then cnt rb else cap rb - cnt rb)"

definition mutex_inv :: "'a monitor \<Rightarrow> bool" where
  "mutex_inv s \<longleftrightarrow> (\<forall>t. holds (pcs s t) \<longleftrightarrow> owner s = Some t)"

definition data_inv :: "'a monitor \<Rightarrow> bool" where
  "data_inv s \<longleftrightarrow> rb_inv (mrb s) \<and> pushed s = popped s @ rb_list (mrb s)"

definition wake_inv :: "'a monitor \<Rightarrow> bool" where
  "wake_inv s \<longleftrightarrow> finite {u. pcs s u \<noteq> Idle} \<and>
     (\<forall>b. waits b s \<longrightarrow> avail b (mrb s) \<le> credits b s + lates s b)"

lemma mutex_inv_free: "mutex_inv s \<Longrightarrow> owner s = None \<Longrightarrow> \<not> holds (pcs s u)"
  by (simp add: mutex_inv_def)

lemma mutex_inv_unique: "mutex_inv s \<Longrightarrow> holds (pcs s t) \<Longrightarrow> holds (pcs s u) \<longleftrightarrow> u = t"
  by (auto simp: mutex_inv_def)

lemma mutex_inv_upd:
  assumes "mutex_inv s"
  shows "holds p = holds (pcs s t) \<Longrightarrow> mutex_inv (s\<lparr>pcs := (pcs s)(t := p)\<rparr>)"
    and "holds (pcs s t) \<Longrightarrow> \<not> holds p \<Longrightarrow> mutex_inv (s\<lparr>pcs := (pcs s)(t := p), owner := None\<rparr>)"
    and "owner s = None \<Longrightarrow> holds p \<Longrightarrow> mutex_inv (s\<lparr>pcs := (pcs s)(t := p), owner := Some t\<rparr>)"
  using assms mutex_inv_unique [OF assms] mutex_inv_free [OF assms]
  by (auto simp: mutex_inv_def)

lemma mutex_inv_frame:
  "mutex_inv (s\<lparr>mrb := r, pushed := x, popped := y\<rparr>) = mutex_inv s"
  by (simp add: mutex_inv_def)

lemma mutex_inv_step: "mon_step s s' \<Longrightarrow> mutex_inv s \<Longrightarrow> mutex_inv s'"
proof (induction rule: mon_step.induct)
  case (commit s t c)
  then show ?case
    using mutex_inv_upd(1) [of s "Signal c" t] by (simp add: mutex_inv_def)
next
  case (late s t c)
  then show ?case
    using mutex_inv_upd(1) [of s "Expire c" t] by (simp add: mutex_inv_def)
next
  case (signal_one s t c u d)
  then have "mutex_inv (s\<lparr>pcs := (pcs s)(t := Unlock)\<rparr>)"
    by (simp add: mutex_inv_upd(1))
  moreover have "u \<noteq> t" using signal_one by auto
  ultimately show ?case
    using mutex_inv_upd(1) [of "s\<lparr>pcs := (pcs s)(t := Unlock)\<rparr>" "Wake d" u] signal_one by simp
qed (simp_all add: mutex_inv_upd)

lemma data_inv_call:
  assumes "rb_inv rb" "\<not> must_wait c rb"
  shows "rb_inv (apply_call c rb)"
    and "call_out c rb @ rb_list (apply_call c rb) = rb_list rb @ call_in c"
  using assms
  by (cases c; simp add: must_wait_def call_out_def rb_inv_put rb_inv_take rb_list_put
      flip: rb_list_take)+

lemma data_inv_step: "mon_step s s' \<Longrightarrow> data_inv s \<Longrightarrow> data_inv s'"
  by (induction rule: mon_step.induct) (simp_all add: data_inv_def data_inv_call)

lemma credit_not_idle: "credit b p \<Longrightarrow> p \<noteq> Idle"
  by auto

lemma finite_credit: "finite {u. pcs s u \<noteq> Idle} \<Longrightarrow> finite {u. credit b (pcs s u)}"
  by (rule rev_finite_subset) auto

lemma credits_upd:
  assumes "finite {u. pcs s u \<noteq> Idle}"
  shows "finite {u. ((pcs s)(t := p)) u \<noteq> Idle}"
    and "card {u. credit b (((pcs s)(t := p)) u)} + (if credit b (pcs s t) then 1 else 0) =
         credits b s + (if credit b p then 1 else 0)"
  unfolding credits_def
  using card_fun_upd(1) [where P = "\<lambda>p. p \<noteq> Idle", OF assms]
    card_fun_upd(2) [where P = "credit b", OF finite_credit [OF assms]]
  by simp_all

lemma avail_call:
  assumes "rb_inv rb" "\<not> must_wait c rb"
  shows "avail b (apply_call c rb) + (if is_pop c = b then 1 else 0) =
         avail b rb + (if is_pop c \<noteq> b then 1 else 0)"
  using assms
  by (cases c) (auto simp: avail_def must_wait_def rb_inv_def rb_full_def rb_empty_def)

text \<open>One thread moves from \<open>p\<close> to \<open>q\<close>, the queue becomes \<open>r\<close>: what the invariant needs.\<close>

lemma wake_inv_move:
  assumes inv: "wake_inv s"
    and s': "pcs s' = (pcs s)(t := q)"
    and waiters: "\<And>b. waits b s' \<Longrightarrow> waits b s \<or> avail b (mrb s') = 0"
    and bal: "\<And>b. waits b s' \<Longrightarrow> waits b s \<Longrightarrow> avail b (mrb s') = 0 \<or>
        avail b (mrb s') + (if credit b (pcs s t) then 1 else 0) + lates s b \<le>
        avail b (mrb s) + (if credit b q then 1 else 0) + lates s' b"
  shows "wake_inv s'"
proof -
  have fin: "finite {u. pcs s u \<noteq> Idle}" using inv by (simp add: wake_inv_def)
  have "avail b (mrb s') \<le> credits b s' + lates s' b" if w: "waits b s'" for b
  proof (cases "waits b s")
    case True
    then have "avail b (mrb s) \<le> credits b s + lates s b" using inv by (simp add: wake_inv_def)
    moreover have "credits b s' + (if credit b (pcs s t) then 1 else 0) =
        credits b s + (if credit b q then 1 else 0)"
      unfolding credits_def [of b s'] s' by (rule credits_upd(2) [OF fin])
    ultimately show ?thesis using bal [OF w True] by linarith
  next
    case False
    then show ?thesis using waiters [OF w] by simp
  qed
  then show ?thesis
    using credits_upd(1) [OF fin, of t q] by (simp add: wake_inv_def s')
qed

lemma wake_inv_signal_one:
  assumes inv: "wake_inv s" and t: "pcs s t = Signal c" and u: "pcs s u = Wait d"
    and kind: "is_pop d \<noteq> is_pop c"
  shows "wake_inv (s\<lparr>pcs := (pcs s)(t := Unlock, u := Wake d)\<rparr>)"
proof -
  define s1 where "s1 = s\<lparr>pcs := (pcs s)(t := Unlock)\<rparr>"
  define s2 where "s2 = s1\<lparr>pcs := (pcs s1)(u := Wake d)\<rparr>"
  have ut: "u \<noteq> t" using t u by auto
  have fin: "finite {v. pcs s v \<noteq> Idle}" using inv by (simp add: wake_inv_def)
  have fin1: "finite {v. pcs s1 v \<noteq> Idle}"
    using credits_upd(1) [OF fin, of t Unlock] by (simp add: s1_def)
  have p1: "pcs s1 = (pcs s)(t := Unlock)" "pcs s1 u = Wait d" and p2: "pcs s2 = (pcs s1)(u := Wake d)"
    using u ut by (simp_all add: s1_def s2_def)
  have a: "credits b s1 + (if is_pop c \<noteq> b then 1 else 0) = credits b s" for b
    using credits_upd(2) [OF fin, of b t Unlock] by (simp add: t flip: p1(1) credits_def)
  have b: "credits b s2 = credits b s1 + (if is_pop d = b then 1 else 0)" for b
    using credits_upd(2) [OF fin1, of b u "Wake d"] by (simp add: p1(2) flip: p2 credits_def)
  have "credits b s2 = credits b s" for b
    using a [of b] b [of b] kind by (cases "is_pop d = b") auto
  moreover have "waits b s" if "waits b s2" for b
    using that by (auto simp: waits_def s2_def s1_def split: if_splits)
  moreover have "finite {v. pcs s2 v \<noteq> Idle}"
    using credits_upd(1) [OF fin1, of u "Wake d"] by (simp add: p2)
  moreover have "mrb s2 = mrb s" "lates s2 = lates s" by (simp_all add: s2_def s1_def)
  ultimately have "wake_inv s2"
    using inv unfolding wake_inv_def by presburger
  then show ?thesis by (simp add: s2_def s1_def)
qed

lemma avail_must_wait: "must_wait c rb \<Longrightarrow> avail (is_pop c) rb = 0"
  by (auto simp: must_wait_def avail_def rb_empty_def rb_full_def split: if_splits)

lemma wake_inv_step: "mon_step s s' \<Longrightarrow> data_inv s \<Longrightarrow> wake_inv s \<Longrightarrow> wake_inv s'"
proof (induction rule: mon_step.induct)
  case (block s t c)
  then have "is_pop c = b \<Longrightarrow> avail b (mrb s) = 0" for b
    using avail_must_wait [of c "mrb s"] by simp
  then show ?case
    by (intro wake_inv_move [OF block.prems(2), where t = t and q = "Wait c"])
       (use block.hyps in \<open>auto simp: waits_def split: if_splits\<close>)
next
  case (commit s t c)
  have rb: "rb_inv (mrb s)" using commit.prems(1) by (simp add: data_inv_def)
  show ?case
    by (rule wake_inv_move [OF commit.prems(2), where t = t and q = "Signal c"])
       (use commit.hyps avail_call [OF rb] in \<open>auto simp: waits_def split: if_splits\<close>)
next
  case (signal_none s t c)
  show ?case
    by (rule wake_inv_move [OF signal_none.prems(2), where t = t and q = Unlock])
       (use signal_none.hyps in \<open>auto simp: waits_def split: if_splits\<close>)
next
  case (signal_one s t c u d)
  then show ?case by (intro wake_inv_signal_one)
next
  case (call s t c)
  show ?case
    by (rule wake_inv_move [OF call.prems(2), where t = t and q = "Lock c"])
       (use call.hyps in \<open>auto simp: waits_def split: if_splits\<close>)
next
  case (lock s t c)
  show ?case
    by (rule wake_inv_move [OF lock.prems(2), where t = t and q = "Test c"])
       (use lock.hyps in \<open>auto simp: waits_def split: if_splits\<close>)
next
  case (spurious s t c)
  show ?case
    by (rule wake_inv_move [OF spurious.prems(2), where t = t and q = "Wake c"])
       (use spurious.hyps in \<open>auto simp: waits_def split: if_splits\<close>)
next
  case (expire s t c)
  show ?case
    by (rule wake_inv_move [OF expire.prems(2), where t = t and q = "Expire c"])
       (use expire.hyps in \<open>auto simp: waits_def split: if_splits\<close>)
next
  case (late s t c)
  show ?case
    by (rule wake_inv_move [OF late.prems(2), where t = t and q = "Expire c"])
       (use late.hyps in \<open>auto simp: waits_def split: if_splits\<close>)
next
  case (relock s t c)
  show ?case
    by (rule wake_inv_move [OF relock.prems(2), where t = t and q = "Test c"])
       (use relock.hyps in \<open>auto simp: waits_def split: if_splits\<close>)
next
  case (give_up s t c)
  show ?case
    by (rule wake_inv_move [OF give_up.prems(2), where t = t and q = Unlock])
       (use give_up.hyps in \<open>auto simp: waits_def split: if_splits\<close>)
next
  case (unlock s t)
  show ?case
    by (rule wake_inv_move [OF unlock.prems(2), where t = t and q = Idle])
       (use unlock.hyps in \<open>auto simp: waits_def split: if_splits\<close>)
qed

lemma mon_init_inv:
  assumes "rb_inv rb" "rb_list rb = []"
  shows "mutex_inv (mon_init rb)" "data_inv (mon_init rb)" "wake_inv (mon_init rb)"
  using assms by (simp_all add: mon_init_def mutex_inv_def data_inv_def wake_inv_def waits_def)

lemma mon_reach_inv:
  assumes "mon_reach rb s" "rb_inv rb" "rb_list rb = []"
  shows "mutex_inv s \<and> data_inv s \<and> wake_inv s"
  using assms(1)
  by induction (use assms mon_init_inv in \<open>auto intro: mutex_inv_step data_inv_step wake_inv_step\<close>)

text \<open>
  A run used below: thread 0 pops from the empty queue and goes to sleep, thread 1 pushes
  and has not signalled yet.
\<close>

definition example_rb :: "nat RingBuffer" where
  "example_rb = \<lparr>buf = [0, 0], cap = 2, head = 0, tail = 0, cnt = 0\<rparr>"

definition example_state :: "nat monitor" where
  "example_state =
     \<lparr>mrb = \<lparr>buf = [7, 0], cap = 2, head = 0, tail = 1, cnt = 1\<rparr>, owner = Some 1,
      pcs = (\<lambda>_. Idle)(0 := Wait CPop, 1 := Signal (CPush 7)), pushed = [7], popped = [],
      lates = (\<lambda>_. 0)\<rparr>"

lemma example_rb_facts: "rb_inv example_rb" "rb_list example_rb = []"
  by (simp_all add: example_rb_def rb_inv_def rb_list_def)

lemma reach_three:
  "mon_reach rb a \<Longrightarrow> mon_step a b \<Longrightarrow> mon_step b c \<Longrightarrow> mon_step c d \<Longrightarrow> mon_reach rb d"
  by (blast intro: mon_reach.step)

lemma reach_block:
  assumes "mon_reach rb s" "pcs s t = Idle" "owner s = None" "must_wait c (mrb s)"
  shows "mon_reach rb (s\<lparr>pcs := (pcs s)(t := Wait c)\<rparr>)"
proof -
  define s1 where "s1 = s\<lparr>pcs := (pcs s)(t := Lock c)\<rparr>"
  define s2 where "s2 = s1\<lparr>pcs := (pcs s1)(t := Test c), owner := Some t\<rparr>"
  have "mon_step s s1" unfolding s1_def by (rule mon_step.call) (rule assms)
  moreover have "mon_step s1 s2" unfolding s2_def by (rule mon_step.lock) (simp_all add: s1_def assms)
  moreover have "mon_step s2 (s2\<lparr>pcs := (pcs s2)(t := Wait c), owner := None\<rparr>)"
    by (rule mon_step.block) (simp_all add: s2_def s1_def assms)
  moreover have "s2\<lparr>pcs := (pcs s2)(t := Wait c), owner := None\<rparr> = s\<lparr>pcs := (pcs s)(t := Wait c)\<rparr>"
    using assms(3) by (cases s) (simp add: s2_def s1_def)
  ultimately show ?thesis using reach_three [OF assms(1)] by simp
qed

lemma reach_commit:
  assumes "mon_reach rb s" "pcs s t = Idle" "owner s = None" "\<not> must_wait c (mrb s)"
  shows "mon_reach rb (s\<lparr>owner := Some t, pcs := (pcs s)(t := Signal c), mrb := apply_call c (mrb s),
      pushed := pushed s @ call_in c, popped := popped s @ call_out c (mrb s)\<rparr>)"
proof -
  define s1 where "s1 = s\<lparr>pcs := (pcs s)(t := Lock c)\<rparr>"
  define s2 where "s2 = s1\<lparr>pcs := (pcs s1)(t := Test c), owner := Some t\<rparr>"
  have "mon_step s s1" unfolding s1_def by (rule mon_step.call) (rule assms)
  moreover have "mon_step s1 s2" unfolding s2_def by (rule mon_step.lock) (simp_all add: s1_def assms)
  moreover have "mon_step s2 (s\<lparr>owner := Some t, pcs := (pcs s)(t := Signal c), mrb := apply_call c (mrb s),
      pushed := pushed s @ call_in c, popped := popped s @ call_out c (mrb s)\<rparr>)"
    using mon_step.commit [of s2 t c] assms(4) by (simp add: s2_def s1_def)
  ultimately show ?thesis using reach_three [OF assms(1)] by simp
qed

lemma example_reach: "mon_reach example_rb example_state"
proof -
  have "mon_reach example_rb ((mon_init example_rb)\<lparr>pcs := (\<lambda>_. Idle)(0 := Wait CPop)\<rparr>)"
    using reach_block [OF mon_reach.start, of example_rb 0 CPop]
    by (simp add: mon_init_def must_wait_def rb_empty_def example_rb_def)
  from reach_commit [OF this, of 1 "CPush 7"] show ?thesis
    by (simp add: mon_init_def must_wait_def rb_full_def example_rb_def example_state_def rb_put_def call_out_def)
qed

section \<open>What the threads can rely on\<close>

text \<open>
  C11: whatever the interleaving of any number of pushing, popping, timed and untimed calls,
  spurious wake-ups included, at most one thread is between lock and unlock, the circular
  array stays well formed, and the elements popped so far followed by the queued ones are
  the elements pushed so far, in order.
\<close>

theorem monitor_safe:
  assumes "mon_reach rb s" and "rb_inv rb" and "rb_list rb = []"
  shows "(holds (pcs s t) \<longrightarrow> holds (pcs s u) \<longrightarrow> t = u) \<and> rb_inv (mrb s) \<and>
         pushed s = popped s @ rb_list (mrb s)"
  using mon_reach_inv [OF assms] by (auto simp: mutex_inv_def data_inv_def)

theorem monitor_safe_witness:
  "mon_reach example_rb example_state \<and> holds (pcs example_state 1) \<and>
   rb_inv (mrb example_state) \<and>
   pushed example_state = popped example_state @ rb_list (mrb example_state)"
  using monitor_safe [OF example_reach example_rb_facts, of 1 1] example_reach
  by (simp add: example_state_def)

text \<open>
  A run that loses a wake-up: thread 0 pops and thread 1 pops with a timeout, both go to
  sleep; thread 2 pushes and its signal goes to thread 1, whose wait then times out.
\<close>

lemma lost_wakeup_reachable:
  fixes rb :: "'a RingBuffer"
  assumes rb: "rb_inv rb" "rb_list rb = []"
  shows "\<exists>s. mon_reach rb s \<and> pcs s 0 = Wait CPop \<and> \<not> must_wait CPop (mrb s) \<and>
    (\<forall>u. u \<noteq> 0 \<longrightarrow> pcs s u = Idle) \<and> owner s = None \<and> lates s = (\<lambda>_. 0)(True := 1)"
proof -
  define I :: "nat \<Rightarrow> 'a mpc" where "I = (\<lambda>_. Idle)"
  define s0 where "s0 = (mon_init rb)\<lparr>pcs := I(0 := Wait CPop, 1 := Wait CTimedPop)\<rparr>"
  define c :: "'a call" where "c = CPush undefined"
  define m where "m = s0\<lparr>mrb := apply_call c rb, pushed := call_in c\<rparr>"
  define s1 where "s1 = m\<lparr>pcs := I(0 := Wait CPop, 1 := Wake CTimedPop, 2 := Unlock), owner := Some 2\<rparr>"
  define s2 where "s2 = m\<lparr>pcs := I(0 := Wait CPop, 1 := Wake CTimedPop)\<rparr>"
  define l where "l = m\<lparr>lates := (\<lambda>_. 0)(True := 1)\<rparr>"
  define s3 where "s3 = l\<lparr>pcs := I(0 := Wait CPop, 1 := Expire CTimedPop)\<rparr>"
  define s4 where "s4 = l\<lparr>pcs := I(0 := Wait CPop, 1 := Unlock), owner := Some 1\<rparr>"
  define s5 where "s5 = l\<lparr>pcs := I(0 := Wait CPop)\<rparr>"
  note defs = s0_def s1_def s2_def s3_def s4_def s5_def l_def m_def I_def mon_init_def fun_upd_twist
  have "cnt rb = 0" "0 < cap rb" using rb length_rb_list [of rb] by (auto simp: rb_inv_def)
  then have w: "must_wait CPop rb" "must_wait CTimedPop rb" "\<not> must_wait c rb" "\<not> must_wait CPop (apply_call c rb)"
    by (auto simp: must_wait_def rb_empty_def rb_full_def rb_put_def c_def)
  have "mon_reach rb ((mon_init rb)\<lparr>pcs := I(0 := Wait CPop)\<rparr>)"
    using reach_block [OF mon_reach.start, of rb 0 CPop] w by (simp add: defs)
  from reach_block [OF this, of 1 CTimedPop] have "mon_reach rb s0"
    using w by (simp add: s0_def I_def mon_init_def)
  from reach_commit [OF this, of 2 c]
  have r: "mon_reach rb (m\<lparr>pcs := (pcs s0)(2 := Signal c), owner := Some 2\<rparr>)"
    using w by (simp add: defs call_out_def c_def)
  have st1: "mon_step (m\<lparr>pcs := (pcs s0)(2 := Signal c), owner := Some 2\<rparr>) s1"
    using mon_step.signal_one [of "m\<lparr>pcs := (pcs s0)(2 := Signal c), owner := Some 2\<rparr>" 2 c 1 CTimedPop]
    by (simp add: defs c_def)
  have st2: "mon_step s1 s2" using mon_step.unlock [of s1 2]
    by (simp add: s1_def s2_def m_def s0_def I_def mon_init_def fun_upd_idem)
  have st3: "mon_step s2 s3" using mon_step.late [of s2 1 CTimedPop] by (simp add: s2_def s3_def l_def m_def s0_def mon_init_def)
  have st4: "mon_step s3 s4" using mon_step.give_up [of s3 1 CTimedPop] by (simp add: defs)
  have st5: "mon_step s4 s5" using mon_step.unlock [of s4 1]
    by (simp add: s4_def s5_def l_def m_def s0_def I_def mon_init_def fun_upd_idem)
  have "mon_reach rb s5"
    by (rule reach_three [OF mon_reach.step [OF mon_reach.step [OF r st1] st2] st3 st4 st5])
  then show ?thesis by (intro exI [of _ s5]) (simp add: defs w)
qed

text \<open>
  C17: wake-ups are lost through late timeouts and in no other way. In every reachable state,
  if some thread sleeps on \<open>not_empty\<close> while an element is queued (or on \<open>not_full\<close> while
  there is room), then the threads that have been woken for that condition, are about to
  test the queue, or are about to signal, together with the wake-ups that timed waiters of
  that condition have received and not acted on because their wait had timed out, are at
  least as many as the elements (or free slots); without such a late timeout some thread is
  on its way. With one, from every empty queue, a state is reached in which an element is
  queued, a thread sleeps on \<open>not_empty\<close>, and every other thread has returned.
\<close>

theorem wakeup_lost_only_by_late_timeout:
  assumes "rb_inv rb" and "rb_list rb = []"
  shows "(\<forall>s t c. mon_reach rb s \<and> pcs s t = Wait c \<and> \<not> must_wait c (mrb s) \<longrightarrow>
      avail (is_pop c) (mrb s) \<le> credits (is_pop c) s + lates s (is_pop c) \<and>
      (lates s (is_pop c) = 0 \<longrightarrow> (\<exists>u. credit (is_pop c) (pcs s u)))) \<and>
    (\<exists>s. mon_reach rb s \<and> pcs s 0 = Wait CPop \<and> \<not> must_wait CPop (mrb s) \<and>
      (\<forall>u. u \<noteq> 0 \<longrightarrow> pcs s u = Idle) \<and> owner s = None \<and> lates s = (\<lambda>_. 0)(True := 1))"
proof (intro conjI allI impI; (elim conjE)?)
  fix s t c assume s: "mon_reach rb s" "pcs s t = Wait c" "\<not> must_wait c (mrb s)"
  have inv: "wake_inv s" and rb: "rb_inv (mrb s)"
    using mon_reach_inv [OF s(1) assms] by (auto simp: data_inv_def)
  have "waits (is_pop c) s" using s(2) by (auto simp: waits_def)
  then show le: "avail (is_pop c) (mrb s) \<le> credits (is_pop c) s + lates s (is_pop c)"
    using inv by (simp add: wake_inv_def)
  assume "lates s (is_pop c) = 0"
  moreover have "0 < avail (is_pop c) (mrb s)"
    using s(3) rb
    by (auto simp: must_wait_def avail_def rb_empty_def rb_full_def rb_inv_def split: if_splits)
  ultimately have "{u. credit (is_pop c) (pcs s u)} \<noteq> {}"
    using le by (metis add.right_neutral card.empty credits_def leD)
  then show "\<exists>u. credit (is_pop c) (pcs s u)" by blast
qed (rule lost_wakeup_reachable [OF assms])

theorem wakeup_lost_only_by_late_timeout_witness:
  "pcs example_state 0 = Wait CPop \<and> cnt (mrb example_state) = 1 \<and>
   avail True (mrb example_state) \<le> credits True example_state \<and>
   (\<exists>u. credit True (pcs example_state u)) \<and>
   (\<exists>s. mon_reach example_rb s \<and> pcs s 0 = Wait CPop \<and> cnt (mrb s) \<noteq> 0 \<and> (\<forall>u. u \<noteq> 0 \<longrightarrow> pcs s u = Idle))"
proof -
  have w: "pcs example_state 0 = Wait CPop" and m: "\<not> must_wait CPop (mrb example_state)"
    by (simp_all add: example_state_def must_wait_def rb_empty_def)
  have l: "lates example_state True = 0" by (simp add: example_state_def)
  note both = wakeup_lost_only_by_late_timeout [OF example_rb_facts]
  have "avail True (mrb example_state) \<le> credits True example_state + lates example_state True \<and>
      (\<exists>u. credit True (pcs example_state u))"
    using both [THEN conjunct1, rule_format, of example_state 0 CPop] example_reach w m l by simp
  moreover obtain s where "mon_reach example_rb s" "pcs s 0 = Wait CPop" "\<not> must_wait CPop (mrb s)"
    "\<forall>u. u \<noteq> 0 \<longrightarrow> pcs s u = Idle"
    using both [THEN conjunct2] by blast
  ultimately show ?thesis using w l by (auto simp: example_state_def must_wait_def rb_empty_def)
qed

end
