(* ===== verification/TcpServer.thy ===== *)
theory TcpServer
  imports RingBuffer "HOL-Library.Multiset"
begin

text \<open>
  The server of \<^verbatim>\<open>sg-tcp.c\<close>: the client table with its doubling and swap removal, one
  event of the epoll loop, the send loop, the calls the rest of the program
  makes. What system calls return is an argument; the calls the code makes are logged in
  the state (\<open>closed\<close>, \<open>sent\<close>, \<open>disc_log\<close>). A push that finds its queue full blocks the
  calling thread and is a value of its own; \<open>RingMonitor\<close> says how it goes on, and
  \<open>TcpDeadlock\<close> when it never does.
\<close>

section \<open>State\<close>

record SgTcpMessage =
  m_client_fd :: fd
  m_data :: string
  m_len :: nat

record SgTcpServer =
  listen_fd :: fd
  epoll_fd :: fd
  event_fd :: fd
  recv_q :: "SgTcpMessage RingBuffer"
  send_q :: "SgTcpMessage RingBuffer"
  clients :: "fd list"
  clients_cap :: nat
  clients_cnt :: nat
  on_disc :: bool
  disc_log :: "fd list"
  stopped :: bool
  watched :: "fd set"
  closed :: "fd list"
  sent :: "(fd \<times> string) list"
  event_count :: nat
  joins :: nat
  queues_live :: bool   \<comment> \<open>the two queues exist; cleared by \<open>SgTcpServer_free\<close>\<close>

definition MAX_EVENTS :: nat where "MAX_EVENTS = 64"
definition MAX_MESSAGE :: nat where "MAX_MESSAGE = 4096"

definition null_msg :: SgTcpMessage where
  "null_msg = \<lparr>m_client_fd = 0, m_data = [], m_len = 0\<rparr>"

text \<open>The connected clients: the first \<open>clients_cnt\<close> cells of the array.\<close>

definition client_fds :: "SgTcpServer \<Rightarrow> fd list" where
  "client_fds srv = take (clients_cnt srv) (clients srv)"

section \<open>The client table\<close>

text \<open>The search of \<open>cleanup_connection\<close>: the last client moves into the hole.\<close>

function cleanup_loop :: "fd \<Rightarrow> nat \<Rightarrow> fd list \<Rightarrow> nat \<Rightarrow> fd list \<times> nat" where
  "cleanup_loop f i cs n =
     (if i < n then
        if cs ! i = f then (cs[i := cs ! (n - 1)], n - 1)
        else cleanup_loop f (i + 1) cs n
      else (cs, n))"
  by pat_completeness auto
termination by (relation "measure (\<lambda>(f, i, cs, n). n - i)") auto

declare cleanup_loop.simps [simp del]

definition cleanup_connection :: "fd \<Rightarrow> SgTcpServer \<Rightarrow> SgTcpServer" where
  "cleanup_connection f srv =
     (let srv1 = srv\<lparr>watched := watched srv - {f}, closed := closed srv @ [f]\<rparr>;
          (cs, n) = cleanup_loop f 0 (clients srv1) (clients_cnt srv1);
          srv2 = srv1\<lparr>clients := cs, clients_cnt := n\<rparr>
      in if on_disc srv2 then srv2\<lparr>disc_log := disc_log srv2 @ [f]\<rparr> else srv2)"

text \<open>
  The accept branch after \<open>accept\<close> has returned \<open>c\<close>. \<open>realloc\<close> keeps the old cells; the new
  ones are indeterminate in C, here 0, and are never read before they are written.
\<close>

definition grow_clients :: "SgTcpServer \<Rightarrow> SgTcpServer" where
  "grow_clients srv =
     (if clients_cnt srv = clients_cap srv then
        let newcap = (if clients_cap srv \<noteq> 0 then clients_cap srv * 2 else 16)
        in srv\<lparr>clients := take newcap (clients srv) @ replicate (newcap - clients_cap srv) 0,
               clients_cap := newcap\<rparr>
      else srv)"

definition accept_client :: "fd \<Rightarrow> SgTcpServer \<Rightarrow> SgTcpServer" where
  "accept_client c srv =
     (let srv1 = srv\<lparr>watched := insert c (watched srv)\<rparr>;
          srv2 = grow_clients srv1
      in srv2\<lparr>clients := (clients srv2)[clients_cnt srv2 := c],
              clients_cnt := clients_cnt srv2 + 1\<rparr>)"

section \<open>The epoll loop\<close>

record epoll_event =
  ev_fd :: fd
  ev_hup :: bool   \<comment> \<open>\<open>EPOLLHUP\<close> or \<open>EPOLLERR\<close>\<close>
  ev_in :: bool

text \<open>What the system calls of one event give: \<open>accept\<close>, \<open>read\<close> and the buffer it filled.\<close>

record io_env =
  accept_ret :: fd
  read_ret :: int
  read_buf :: string

datatype io_out = IoNext SgTcpServer | IoBreak SgTcpServer | IoBlock SgTcpServer

definition io_event :: "SgTcpServer \<Rightarrow> epoll_event \<Rightarrow> io_env \<Rightarrow> io_out" where
  "io_event srv ev env =
     (if ev_fd ev = listen_fd srv then
        if ev_fd ev = event_fd srv then IoBreak srv
        else if stopped srv then IoBreak srv
        else IoNext (accept_client (accept_ret env) srv)
      else if ev_hup ev then IoNext (cleanup_connection (ev_fd ev) srv)
      else if ev_in ev then
        if read_ret env > 0 then
          (case rb_push (recv_q srv) []
                  \<lparr>m_client_fd = ev_fd ev, m_data = read_buf env, m_len = nat (read_ret env)\<rparr> of
             None \<Rightarrow> IoBlock srv
           | Some q \<Rightarrow> IoNext (srv\<lparr>recv_q := q\<rparr>))
        else IoNext (cleanup_connection (ev_fd ev) srv)
      else IoNext srv)"

fun io_events :: "SgTcpServer \<Rightarrow> (epoll_event \<times> io_env) list \<Rightarrow> io_out" where
  "io_events srv [] = IoNext srv"
| "io_events srv ((ev, env) # evs) =
     (case io_event srv ev env of
        IoNext srv' \<Rightarrow> io_events srv' evs
      | IoBreak srv' \<Rightarrow> IoNext srv'
      | IoBlock srv' \<Rightarrow> IoBlock srv')"

text \<open>
  The loop over what successive \<open>epoll_wait\<close> calls return: a failed call (\<open>None\<close>) or a
  list of events. \<open>IoNext\<close> when the given rounds are used up, \<open>IoBreak\<close> when it has ended.
\<close>

fun io_loop :: "SgTcpServer \<Rightarrow> (epoll_event \<times> io_env) list option list \<Rightarrow> io_out" where
  "io_loop srv rounds =
     (if stopped srv then IoBreak srv
      else case rounds of
        [] \<Rightarrow> IoNext srv
      | None # rest \<Rightarrow> io_loop srv rest
      | Some evs # rest \<Rightarrow>
          (case io_events srv evs of
             IoNext srv' \<Rightarrow> io_loop srv' rest
           | out \<Rightarrow> out))"

declare io_loop.simps [simp del]

section \<open>The send loop\<close>

text \<open>One turn; \<open>s\<close> is what \<open>send\<close> returns. An empty queue times out and changes nothing.\<close>

definition send_loop_turn :: "SgTcpServer \<Rightarrow> int \<Rightarrow> SgTcpServer" where
  "send_loop_turn srv s =
     (case rb_timed_pop (send_q srv) [(TimedOut, send_q srv)] of
        Some (r, Some msg, q) \<Rightarrow>
          (let srv1 = srv\<lparr>send_q := q, sent := sent srv @ [(m_client_fd msg, take (m_len msg) (m_data msg))]\<rparr>
           in if s \<le> 0 then cleanup_connection (m_client_fd msg) srv1 else srv1)
      | _ \<Rightarrow> srv)"

text \<open>The loop over what successive \<open>send\<close> calls return; it tests \<open>stopped\<close> before every turn.\<close>

fun send_loop :: "int list \<Rightarrow> SgTcpServer \<Rightarrow> SgTcpServer" where
  "send_loop [] srv = srv"
| "send_loop (s # results) srv =
     (if stopped srv then srv else send_loop results (send_loop_turn srv s))"

section \<open>The interface\<close>

text \<open>
  The allocations of \<open>SgTcpServer_new\<close> are not checked. Without the block of the server the
  next statement writes through \<open>NULL\<close>; without a queue the server is returned all the same,
  with \<open>NULL\<close> in \<open>recv_q\<close> or \<open>send_q\<close>. The arguments say whether \<open>calloc\<close> and the two
  allocations of each \<open>rb_create\<close> succeed.
\<close>

datatype new_server =
    NoServer
  | NullQueue bool bool   \<comment> \<open>which of \<open>recv_q\<close> and \<open>send_q\<close> is \<open>NULL\<close>\<close>
  | Server SgTcpServer

definition SgTcpServer_new ::
    "fd \<Rightarrow> fd \<Rightarrow> fd \<Rightarrow> nat \<Rightarrow> bool \<Rightarrow> bool \<times> bool \<Rightarrow> bool \<times> bool \<Rightarrow> new_server" where
  "SgTcpServer_new lfd efd evfd queue_capacity srv_ok recv_ok send_ok =
     (if \<not> srv_ok then NoServer
      else case (rb_create null_msg queue_capacity (fst recv_ok) (snd recv_ok),
                 rb_create null_msg queue_capacity (fst send_ok) (snd send_ok)) of
        (Some rq, Some sq) \<Rightarrow>
          Server \<lparr>listen_fd = lfd, epoll_fd = efd, event_fd = evfd, recv_q = rq, send_q = sq,
                clients = [], clients_cap = 0, clients_cnt = 0, on_disc = False, disc_log = [],
                stopped = False, watched = {lfd, evfd}, closed = [], sent = [],
                event_count = 0, joins = 0, queues_live = True\<rparr>
      | (rq, sq) \<Rightarrow> NullQueue (rq = None) (sq = None))"

definition SgTcpServer_set_on_disconnect :: "SgTcpServer \<Rightarrow> bool \<Rightarrow> SgTcpServer" where
  "SgTcpServer_set_on_disconnect srv cb = srv\<lparr>on_disc := cb\<rparr>"

definition SgTcpServer_start :: "SgTcpServer \<Rightarrow> SgTcpServer" where
  "SgTcpServer_start srv = srv\<lparr>stopped := False\<rparr>"

definition SgTcpServer_stop :: "SgTcpServer \<Rightarrow> SgTcpServer" where
  "SgTcpServer_stop srv =
     srv\<lparr>stopped := True, event_count := event_count srv + 1, joins := joins srv + 1\<rparr>"

text \<open>
  \<open>free\<close> stops first, then destroys the queues with what is left in them and closes two of
  the three descriptors. The record afterwards is what a freed block held: only the closed
  descriptors and the flags mean anything.
\<close>

definition SgTcpServer_free :: "SgTcpServer \<Rightarrow> SgTcpServer" where
  "SgTcpServer_free srv =
     (let srv1 = SgTcpServer_stop srv;
          rq = rb_destroy (Some (recv_q srv1));
          sq = rb_destroy (Some (send_q srv1))
      in srv1\<lparr>queues_live := rq \<noteq> None \<or> sq \<noteq> None,
              closed := closed srv1 @ [listen_fd srv1, epoll_fd srv1], clients := []\<rparr>)"

definition SgTcpServer_send :: "SgTcpServer \<Rightarrow> fd \<Rightarrow> string \<Rightarrow> nat \<Rightarrow> SgTcpServer option" where
  "SgTcpServer_send srv f d n =
     (case rb_push (send_q srv) [] \<lparr>m_client_fd = f, m_data = take n d, m_len = n\<rparr> of
        None \<Rightarrow> None
      | Some q \<Rightarrow> Some (srv\<lparr>send_q := q\<rparr>))"

fun broadcast_loop :: "fd list \<Rightarrow> string \<Rightarrow> nat \<Rightarrow> SgTcpServer \<Rightarrow> SgTcpServer option" where
  "broadcast_loop [] d n srv = Some srv"
| "broadcast_loop (f # fs) d n srv =
     (case SgTcpServer_send srv f d n of
        None \<Rightarrow> None
      | Some srv' \<Rightarrow> broadcast_loop fs d n srv')"

definition SgTcpServer_broadcast :: "SgTcpServer \<Rightarrow> string \<Rightarrow> nat \<Rightarrow> SgTcpServer option" where
  "SgTcpServer_broadcast srv d n = broadcast_loop (client_fds srv) d n srv"

definition SgTcpServer_get_clients :: "SgTcpServer \<Rightarrow> bool \<Rightarrow> int \<times> fd list \<times> nat" where
  "SgTcpServer_get_clients srv alloc_ok =
     (if alloc_ok then (0, client_fds srv, clients_cnt srv) else (-1, [], clients_cnt srv))"

section \<open>Invariant\<close>

definition tcp_inv :: "SgTcpServer \<Rightarrow> bool" where
  "tcp_inv srv \<longleftrightarrow> length (clients srv) = clients_cap srv \<and> clients_cnt srv \<le> clients_cap srv \<and>
                  rb_inv (recv_q srv) \<and> rb_inv (send_q srv)"

lemma length_client_fds: "tcp_inv srv \<Longrightarrow> length (client_fds srv) = clients_cnt srv"
  by (simp add: tcp_inv_def client_fds_def)

text \<open>The search loop is a removal: seen on the live part of the array.\<close>

lemma cleanup_loop_length: "length (fst (cleanup_loop f i cs n)) = length cs"
  by (induction f i cs n rule: cleanup_loop.induct) (simp add: cleanup_loop.simps)

lemma cleanup_loop_le: "snd (cleanup_loop f i cs n) \<le> n"
  by (induction f i cs n rule: cleanup_loop.induct) (simp add: cleanup_loop.simps)

lemma mset_swap_remove:
  assumes "i < n" "n \<le> length cs"
  shows "mset (take (n - 1) (cs[i := cs ! (n - 1)])) = mset (take n cs) - {#cs ! i#}"
proof -
  obtain m where n: "n = Suc m" using assms by (cases n) auto
  have len: "m < length cs" using assms n by simp
  have split: "take n cs = take m cs @ [cs ! m]"
    using len by (simp add: n take_Suc_conv_app_nth)
  show ?thesis
  proof (cases "i = m")
    case True
    then show ?thesis using split by (simp add: n)
  next
    case False
    then have im: "i < m" using assms n by simp
    have "take m (cs[i := cs ! m]) = (take m cs)[i := cs ! m]"
      by (simp add: take_update_swap)
    moreover have "mset ((take m cs)[i := cs ! m]) =
        add_mset (cs ! m) (mset (take m cs) - {#take m cs ! i#})"
      using im len by (intro mset_update) simp
    ultimately show ?thesis
      using im split nth_mem_mset [of i "take m cs"] len by (simp add: n)
  qed
qed

lemma cleanup_loop_mset:
  assumes "n \<le> length cs" "\<forall>j < i. cs ! j \<noteq> f" "cleanup_loop f i cs n = (cs', n')"
  shows "mset (take n' cs') = mset (take n cs) - {#f#}"
  using assms
proof (induction f i cs n rule: cleanup_loop.induct)
  case (1 f i cs n)
  show ?case
  proof (cases "i < n")
    case False
    then have "f \<notin> set (take n cs)"
      using "1.prems"(1,2) by (auto simp: in_set_conv_nth)
    then show ?thesis using False "1.prems"(3) by (auto simp: cleanup_loop.simps [of f i])
  next
    case True
    show ?thesis
    proof (cases "cs ! i = f")
      case True
      then show ?thesis
        using \<open>i < n\<close> "1.prems"(1,3) mset_swap_remove [of i n cs]
        by (simp add: cleanup_loop.simps [of f i]) metis
    next
      case False
      then show ?thesis
        using \<open>i < n\<close> "1.prems" "1.IH"
        by (simp add: cleanup_loop.simps [of f i] less_Suc_eq)
    qed
  qed
qed

lemma cleanup_simps:
  "send_q (cleanup_connection f srv) = send_q srv"
  "recv_q (cleanup_connection f srv) = recv_q srv"
  "clients_cap (cleanup_connection f srv) = clients_cap srv"
  "listen_fd (cleanup_connection f srv) = listen_fd srv"
  "event_fd (cleanup_connection f srv) = event_fd srv"
  "stopped (cleanup_connection f srv) = stopped srv"
  "sent (cleanup_connection f srv) = sent srv"
  "watched (cleanup_connection f srv) = watched srv - {f}"
  "closed (cleanup_connection f srv) = closed srv @ [f]"
  by (simp_all add: cleanup_connection_def Let_def split: prod.splits)

lemma cleanup_inv [inv_intros]: "tcp_inv srv \<Longrightarrow> tcp_inv (cleanup_connection f srv)"
  using cleanup_loop_length [of f 0 "clients srv" "clients_cnt srv"]
    cleanup_loop_le [of f 0 "clients srv" "clients_cnt srv"]
  by (auto simp: tcp_inv_def cleanup_connection_def Let_def split: prod.splits)

lemma cleanup_clients:
  "tcp_inv srv \<Longrightarrow> mset (client_fds (cleanup_connection f srv)) = mset (client_fds srv) - {#f#}"
  using cleanup_loop_mset [of "clients_cnt srv" "clients srv" 0 f]
  by (auto simp: tcp_inv_def client_fds_def cleanup_connection_def Let_def split: prod.splits)

lemma grow_inv:
  assumes "tcp_inv srv"
  shows "tcp_inv (grow_clients srv)"
    and "client_fds (grow_clients srv) = client_fds srv"
    and "clients_cnt (grow_clients srv) = clients_cnt srv"
    and "clients_cnt (grow_clients srv) < clients_cap (grow_clients srv)"
  using assms by (auto simp: tcp_inv_def client_fds_def grow_clients_def Let_def)

lemma accept_inv [inv_intros]: "tcp_inv srv \<Longrightarrow> tcp_inv (accept_client c srv)"
  using grow_inv [of "srv\<lparr>watched := insert c (watched srv)\<rparr>"]
  by (auto simp: tcp_inv_def accept_client_def Let_def)

lemma accept_clients: "tcp_inv srv \<Longrightarrow> client_fds (accept_client c srv) = client_fds srv @ [c]"
  using grow_inv [of "srv\<lparr>watched := insert c (watched srv)\<rparr>"]
  by (auto simp: tcp_inv_def client_fds_def accept_client_def Let_def take_snoc_update)

section \<open>Connections\<close>

definition example_srv :: SgTcpServer where
  "example_srv =
     \<lparr>listen_fd = 3, epoll_fd = 4, event_fd = 5,
      recv_q = \<lparr>buf = [null_msg, null_msg], cap = 2, head = 0, tail = 0, cnt = 0\<rparr>,
      send_q = \<lparr>buf = [null_msg, null_msg, null_msg], cap = 3, head = 2, tail = 2, cnt = 0\<rparr>,
      clients = [7, 8, 9, 0], clients_cap = 4, clients_cnt = 3, on_disc = False, disc_log = [],
      stopped = False, watched = {3, 5, 7, 8, 9}, closed = [], sent = [],
      event_count = 0, joins = 0, queues_live = True\<rparr>"

lemma example_srv_inv: "tcp_inv example_srv"
  by (simp add: tcp_inv_def example_srv_def rb_inv_def)

text \<open>
  C15: closing a connection removes exactly one entry of its descriptor from the client
  table, keeps every other client and both queues, stops watching the descriptor and
  closes it once.
\<close>

theorem cleanup_connection_spec:
  assumes "tcp_inv srv"
  shows "tcp_inv (cleanup_connection f srv) \<and>
         mset (client_fds (cleanup_connection f srv)) = mset (client_fds srv) - {#f#} \<and>
         f \<notin> watched (cleanup_connection f srv) \<and>
         closed (cleanup_connection f srv) = closed srv @ [f] \<and>
         recv_q (cleanup_connection f srv) = recv_q srv \<and>
         send_q (cleanup_connection f srv) = send_q srv"
  using assms by (simp add: cleanup_inv cleanup_clients cleanup_simps)

theorem cleanup_connection_spec_witness:
  "tcp_inv (cleanup_connection 7 example_srv) \<and>
   client_fds (cleanup_connection 7 example_srv) = [9, 8] \<and>
   mset (client_fds (cleanup_connection 7 example_srv)) = mset [7, 8, 9] - {#7#}"
  using cleanup_connection_spec [OF example_srv_inv, of 7]
  by (simp add: client_fds_def example_srv_def cleanup_connection_def cleanup_loop.simps)

text \<open>
  accepting appends the new descriptor after the connected clients, whatever the
  capacity: the array starts at 16 cells and doubles when it is full, so no client is lost
  and the write stays inside the array.
\<close>

theorem accept_client_spec:
  assumes "tcp_inv srv"
  shows "tcp_inv (accept_client c srv) \<and>
         client_fds (accept_client c srv) = client_fds srv @ [c] \<and>
         clients_cnt (accept_client c srv) \<le> clients_cap (accept_client c srv) \<and>
         clients_cap (accept_client c srv) =
           (if clients_cnt srv = clients_cap srv
            then if clients_cap srv = 0 then 16 else 2 * clients_cap srv
            else clients_cap srv)"
  using accept_inv [OF assms, of c] accept_clients [OF assms, of c]
  by (simp add: tcp_inv_def accept_client_def grow_clients_def Let_def)

theorem accept_client_spec_witness:
  "client_fds (accept_client 11 (accept_client 10 example_srv)) = [7, 8, 9, 10, 11] \<and>
   clients_cap (accept_client 11 (accept_client 10 example_srv)) = 8"
  using accept_client_spec [OF accept_inv [OF example_srv_inv], of 11 10]
    accept_client_spec [OF example_srv_inv, of 10]
  by (simp add: client_fds_def example_srv_def accept_client_def grow_clients_def)

text \<open>
  the result of \<open>accept\<close> is not checked: when it fails with -1 the loop goes on with -1
  as one more client, every later broadcast queues a message for descriptor -1, and the
  entry stays until a failing \<open>send\<close> removes it.
\<close>

theorem failed_accept_becomes_client:
  assumes "tcp_inv srv" "ev_fd ev = listen_fd srv" "listen_fd srv \<noteq> event_fd srv"
    and "\<not> stopped srv" "accept_ret env = -1"
  shows "\<exists>srv'. io_event srv ev env = IoNext srv' \<and> client_fds srv' = client_fds srv @ [-1]"
  using assms accept_clients [OF assms(1), of "-1"] by (simp add: io_event_def)

theorem failed_accept_becomes_client_witness:
  "\<exists>srv'. io_event example_srv \<lparr>ev_fd = 3, ev_hup = False, ev_in = True\<rparr>
       \<lparr>accept_ret = -1, read_ret = 0, read_buf = []\<rparr> = IoNext srv' \<and>
     client_fds srv' = client_fds example_srv @ [-1]"
  by (rule failed_accept_becomes_client [OF example_srv_inv]) (simp_all add: example_srv_def)

section \<open>Sending\<close>

definition msg_for :: "string \<Rightarrow> nat \<Rightarrow> fd \<Rightarrow> SgTcpMessage" where
  "msg_for d n f = \<lparr>m_client_fd = f, m_data = take n d, m_len = n\<rparr>"

lemma send_cases:
  assumes "tcp_inv srv"
  shows "SgTcpServer_send srv f d n =
    (if cnt (send_q srv) < cap (send_q srv)
     then Some (srv\<lparr>send_q := rb_put (send_q srv) (msg_for d n f)\<rparr>) else None)"
  using assms by (auto simp: SgTcpServer_send_def rb_push.simps tcp_inv_def rb_inv_def msg_for_def)

lemma send_inv [inv_intros]:
  assumes "tcp_inv srv" "cnt (send_q srv) < cap (send_q srv)"
  shows "tcp_inv (srv\<lparr>send_q := rb_put (send_q srv) m\<rparr>)"
    and "rb_list (rb_put (send_q srv) m) = rb_list (send_q srv) @ [m]"
  using assms rb_inv_put [of "send_q srv" m] rb_list_put [of "send_q srv" m]
  by (simp_all add: tcp_inv_def rb_full_def)

lemma broadcast_loop_spec:
  "tcp_inv srv \<Longrightarrow>
    (case broadcast_loop fs d n srv of
       None \<Rightarrow> cap (send_q srv) < cnt (send_q srv) + length fs
     | Some srv' \<Rightarrow> cnt (send_q srv) + length fs \<le> cap (send_q srv) \<and> tcp_inv srv' \<and>
         rb_list (send_q srv') = rb_list (send_q srv) @ map (msg_for d n) fs \<and>
         srv' = srv\<lparr>send_q := send_q srv'\<rparr>)"
proof (induction fs arbitrary: srv)
  case Nil
  then show ?case by (simp add: tcp_inv_def rb_inv_def)
next
  case (Cons f fs)
  show ?case
  proof (cases "cnt (send_q srv) < cap (send_q srv)")
    case False
    then show ?thesis using Cons.prems by (simp add: send_cases)
  next
    case True
    note step = send_inv [OF Cons.prems True, of "msg_for d n f"]
    show ?thesis
      using Cons.IH [OF step(1)] True step(2)
      by (auto simp: send_cases [OF Cons.prems] split: option.splits)
  qed
qed

text \<open>
  a broadcast queues one copy of the bytes for every connected client, in the order of
  the table, and nothing else changes; it cannot complete without waiting for the send
  thread exactly when the queue has fewer free slots than there are clients.
\<close>

theorem broadcast_spec:
  assumes "tcp_inv srv"
  shows "case SgTcpServer_broadcast srv d n of
           None \<Rightarrow> cap (send_q srv) < cnt (send_q srv) + clients_cnt srv
         | Some srv' \<Rightarrow> cnt (send_q srv) + clients_cnt srv \<le> cap (send_q srv) \<and> tcp_inv srv' \<and>
             rb_list (send_q srv') = rb_list (send_q srv) @ map (msg_for d n) (client_fds srv) \<and>
             srv' = srv\<lparr>send_q := send_q srv'\<rparr>"
  using broadcast_loop_spec [OF assms, of "client_fds srv" d n]
  unfolding SgTcpServer_broadcast_def length_client_fds [OF assms] .

theorem broadcast_spec_witness:
  "\<exists>srv'. SgTcpServer_broadcast example_srv ''{REVERSE=1;}'' 12 = Some srv' \<and>
     rb_list (send_q srv') = rb_list (send_q example_srv) @
       map (msg_for ''{REVERSE=1;}'' 12) [7, 8, 9]"
proof -
  have c: "client_fds example_srv = [7, 8, 9]"
    by (simp add: client_fds_def example_srv_def)
  have "cnt (send_q example_srv) + clients_cnt example_srv \<le> cap (send_q example_srv)"
    by (simp add: example_srv_def)
  then show ?thesis
    using broadcast_spec [OF example_srv_inv, of "''{REVERSE=1;}''" 12]
    unfolding c by (auto split: option.splits)
qed

definition payload :: "SgTcpMessage \<Rightarrow> fd \<times> string" where
  "payload m = (m_client_fd m, take (m_len m) (m_data m))"

lemma send_loop_turn_empty: "cnt (send_q srv) = 0 \<Longrightarrow> send_loop_turn srv s = srv"
  by (simp add: send_loop_turn_def rb_timed_pop.simps)

lemma send_loop_turn_cons:
  assumes inv: "tcp_inv srv" and q: "rb_list (send_q srv) = m # ms"
  shows "tcp_inv (send_loop_turn srv s)"
    and "sent (send_loop_turn srv s) = sent srv @ [payload m]"
    and "rb_list (send_q (send_loop_turn srv s)) = ms"
    and "cnt (send_q srv) = Suc (cnt (send_q (send_loop_turn srv s)))"
    and "recv_q (send_loop_turn srv s) = recv_q srv"
    and "mset (client_fds (send_loop_turn srv s)) =
         (if s \<le> 0 then mset (client_fds srv) - {#m_client_fd m#} else mset (client_fds srv))"
proof -
  define q' where "q' = snd (rb_take (send_q srv))"
  have rb: "rb_inv (send_q srv)" using inv by (simp add: tcp_inv_def)
  have ne: "\<not> rb_empty (send_q srv)" using q by (simp add: rb_empty_iff)
  have take: "rb_take (send_q srv) = (m, q')" "rb_list q' = ms" "rb_inv q'"
    using rb_list_take [OF rb ne] rb_inv_take [OF rb ne] q
    by (auto simp: q'_def prod_eq_iff)
  define srv1 where "srv1 = srv\<lparr>send_q := q', sent := sent srv @ [payload m]\<rparr>"
  have turn: "send_loop_turn srv s = (if s \<le> 0 then cleanup_connection (m_client_fd m) srv1 else srv1)"
    using ne take(1)
    by (simp add: send_loop_turn_def rb_timed_pop.simps rb_empty_def srv1_def payload_def)
  have inv1: "tcp_inv srv1" using inv take(3) by (simp add: tcp_inv_def srv1_def)
  have cl: "client_fds srv1 = client_fds srv" by (simp add: client_fds_def srv1_def)
  show "tcp_inv (send_loop_turn srv s)" using inv1 by (simp add: turn cleanup_inv)
  show "sent (send_loop_turn srv s) = sent srv @ [payload m]"
    by (simp add: turn cleanup_simps) (simp add: srv1_def)
  show "rb_list (send_q (send_loop_turn srv s)) = ms"
    by (simp add: turn cleanup_simps) (simp add: srv1_def take(2))
  have "length (rb_list (send_q srv)) = Suc (length (rb_list q'))" by (simp only: q take(2) list.size)
  then show "cnt (send_q srv) = Suc (cnt (send_q (send_loop_turn srv s)))"
    by (simp add: turn cleanup_simps) (simp add: srv1_def)
  show "recv_q (send_loop_turn srv s) = recv_q srv"
    by (simp add: turn cleanup_simps) (simp add: srv1_def)
  show "mset (client_fds (send_loop_turn srv s)) =
         (if s \<le> 0 then mset (client_fds srv) - {#m_client_fd m#} else mset (client_fds srv))"
    using cleanup_clients [OF inv1, of "m_client_fd m"] by (simp add: turn cl)
qed

lemma send_loop_turn_stopped: "stopped (send_loop_turn srv s) = stopped srv"
  by (simp add: send_loop_turn_def cleanup_simps Let_def split: option.split prod.split)

lemma send_loop_eq:
  "send_loop results srv = (if stopped srv then srv else foldl send_loop_turn srv results)"
  by (induction results arbitrary: srv) (simp_all add: send_loop_turn_stopped)


text \<open>
  C19: with no new message arriving, as many turns of the send loop as there are queued
  messages hand each of them to \<open>send\<close> exactly once, in queue order and with its exact
  bytes, whatever \<open>send\<close> returns; a failing \<open>send\<close> only takes its client off the table.
  These turns are what the loop makes of them unless the server has been stopped.
\<close>

theorem send_loop_drains:
  assumes "tcp_inv srv" and "length results = cnt (send_q srv)"
  shows "sent (foldl send_loop_turn srv results) = sent srv @ map payload (rb_list (send_q srv)) \<and>
         rb_list (send_q (foldl send_loop_turn srv results)) = [] \<and>
         tcp_inv (foldl send_loop_turn srv results) \<and>
         set (client_fds srv) - m_client_fd ` set (rb_list (send_q srv)) \<subseteq>
           set (client_fds (foldl send_loop_turn srv results)) \<and>
         send_loop results srv = (if stopped srv then srv else foldl send_loop_turn srv results)"
  unfolding send_loop_eq using assms
proof (induction results arbitrary: srv)
  case Nil
  then have "rb_list (send_q srv) = []" by (metis length_0_conv length_rb_list list.size(3))
  with Nil show ?case by simp
next
  case (Cons s results)
  then obtain m ms where q: "rb_list (send_q srv) = m # ms"
    by (metis length_Suc_conv length_rb_list)
  note turn = send_loop_turn_cons [OF Cons.prems(1) q, of s]
  have len: "length results = cnt (send_q (send_loop_turn srv s))"
    using Cons.prems(2) turn(4) by simp
  note IH = Cons.IH [OF turn(1) len]
  have "set (client_fds srv) - {m_client_fd m} \<subseteq> set (client_fds (send_loop_turn srv s))"
  proof
    fix x assume "x \<in> set (client_fds srv) - {m_client_fd m}"
    then have "x \<in># (if s \<le> 0 then mset (client_fds srv) - {#m_client_fd m#} else mset (client_fds srv))"
      by (auto simp: in_diff_count)
    then show "x \<in> set (client_fds (send_loop_turn srv s))"
      by (simp flip: turn(6))
  qed
  then show ?case using IH by (auto simp: turn(2,3) q)
qed

theorem send_loop_drains_witness:
  "let srv = the (SgTcpServer_send (the (SgTcpServer_send example_srv 8 ''ab'' 2)) 7 ''c'' 1) in
     sent (foldl send_loop_turn srv [-1, 1]) = [(8, ''ab''), (7, ''c'')] \<and>
     client_fds (foldl send_loop_turn srv [-1, 1]) = [7, 9]"
proof -
  define srv where "srv = the (SgTcpServer_send (the (SgTcpServer_send example_srv 8 ''ab'' 2)) 7 ''c'' 1)"
  have srv: "srv = example_srv\<lparr>send_q := \<lparr>buf = [msg_for ''c'' 1 7, null_msg, msg_for ''ab'' 2 8],
      cap = 3, head = 2, tail = 1, cnt = 2\<rparr>\<rparr>"
    by (simp add: srv_def SgTcpServer_send_def example_srv_def rb_push.simps rb_put_def msg_for_def)
  have inv: "tcp_inv srv" by (simp add: srv tcp_inv_def example_srv_def rb_inv_def)
  have "length [-1, 1::int] = cnt (send_q srv)" by (simp add: srv)
  from send_loop_drains [OF inv this]
  have "sent (foldl send_loop_turn srv [-1, 1]) = [(8, ''ab''), (7, ''c'')]"
    by (simp add: srv rb_list_def upt_rec example_srv_def payload_def msg_for_def)
  moreover have "client_fds (foldl send_loop_turn srv [-1, 1]) = [7, 9]"
    by (simp add: srv send_loop_turn_def rb_timed_pop.simps rb_take_def example_srv_def msg_for_def
        cleanup_connection_def cleanup_loop.simps client_fds_def)
  ultimately show ?thesis by (simp add: Let_def srv_def)
qed

section \<open>The epoll loop\<close>

lemma io_event_inv:
  assumes "tcp_inv srv"
  shows "case io_event srv ev env of IoNext srv' \<Rightarrow> tcp_inv srv' \<and> send_q srv' = send_q srv
         | IoBreak srv' \<Rightarrow> srv' = srv | IoBlock srv' \<Rightarrow> srv' = srv"
proof -
  have "tcp_inv (srv\<lparr>recv_q := rb_put (recv_q srv) m\<rparr>)" if "cnt (recv_q srv) \<noteq> cap (recv_q srv)" for m
    using assms that rb_inv_put [of "recv_q srv" m] by (simp add: tcp_inv_def rb_full_def)
  moreover have "send_q (accept_client c srv) = send_q srv" for c
    by (simp add: accept_client_def grow_clients_def Let_def)
  ultimately show ?thesis
    using assms by (simp add: io_event_def rb_push.simps accept_inv cleanup_inv cleanup_simps)
qed

lemma io_events_inv:
  "tcp_inv srv \<Longrightarrow>
    (case io_events srv evs of IoNext srv' \<Rightarrow> tcp_inv srv' \<and> send_q srv' = send_q srv
     | IoBreak srv' \<Rightarrow> False | IoBlock srv' \<Rightarrow> tcp_inv srv' \<and> send_q srv' = send_q srv)"
proof (induction evs arbitrary: srv)
  case (Cons e evs)
  obtain ev env where e: "e = (ev, env)" by fastforce
  note step = io_event_inv [OF Cons.prems, of ev env]
  show ?case
  proof (cases "io_event srv ev env")
    case (IoNext srv')
    with step have "tcp_inv srv'" "send_q srv' = send_q srv" by simp_all
    with Cons.IH [of srv'] show ?thesis
      by (cases "io_events srv' evs") (simp_all add: e IoNext)
  qed (use step Cons.prems in \<open>simp_all add: e\<close>)
qed simp

text \<open>
  whatever \<open>epoll_wait\<close>, \<open>accept\<close> and \<open>read\<close> return over any number of rounds, the
  I/O loop keeps the client table and both queues well formed and never touches the send
  queue; it ends only after \<open>stopped\<close> has been set.
\<close>

theorem io_loop_inv:
  assumes "tcp_inv srv"
  shows "case io_loop srv rounds of
           IoNext srv' \<Rightarrow> tcp_inv srv' \<and> send_q srv' = send_q srv
         | IoBreak srv' \<Rightarrow> tcp_inv srv' \<and> send_q srv' = send_q srv \<and> stopped srv'
         | IoBlock srv' \<Rightarrow> tcp_inv srv' \<and> send_q srv' = send_q srv"
  using assms
proof (induction srv rounds rule: io_loop.induct)
  case (1 srv rounds)
  show ?case
  proof (cases "stopped srv")
    case True
    then show ?thesis using "1.prems" by (simp add: io_loop.simps [of srv])
  next
    case running: False
    show ?thesis
    proof (cases rounds)
      case Nil
      then show ?thesis using running "1.prems" by (simp add: io_loop.simps [of srv])
    next
      case (Cons r rest)
      show ?thesis
      proof (cases r)
        case None
        then show ?thesis using "1.IH"(1) [OF running Cons None] "1.prems" running Cons None
          by (simp add: io_loop.simps [of srv])
      next
        case (Some evs)
        note inv = io_events_inv [OF "1.prems", of evs]
        show ?thesis
        proof (cases "io_events srv evs")
          case (IoNext srv')
          with inv have "tcp_inv srv'" "send_q srv' = send_q srv" by simp_all
          then show ?thesis
            using "1.IH"(2) [OF running Cons Some IoNext] IoNext running Cons Some
            by (cases "io_loop srv' rest") (simp_all add: io_loop.simps [of srv])
        qed (use inv running Cons Some in \<open>simp_all add: io_loop.simps [of srv]\<close>)
      qed
    qed
  qed
qed

theorem io_loop_inv_witness:
  "\<exists>srv'. io_loop example_srv
       [None, Some [(\<lparr>ev_fd = 3, ev_hup = False, ev_in = True\<rparr>,
                     \<lparr>accept_ret = 10, read_ret = 0, read_buf = []\<rparr>),
                    (\<lparr>ev_fd = 8, ev_hup = True, ev_in = False\<rparr>,
                     \<lparr>accept_ret = 0, read_ret = 0, read_buf = []\<rparr>)]] = IoNext srv' \<and>
     tcp_inv srv' \<and> client_fds srv' = [7, 10, 9]"
proof -
  define rounds where "rounds =
    [None, Some [(\<lparr>ev_fd = 3, ev_hup = False, ev_in = True\<rparr>,
                  \<lparr>accept_ret = 10, read_ret = 0, read_buf = []\<rparr>),
                 (\<lparr>ev_fd = 8, ev_hup = True, ev_in = False\<rparr>,
                  \<lparr>accept_ret = 0, read_ret = 0, read_buf = []\<rparr>)]]"
  have "\<exists>srv'. io_loop example_srv rounds = IoNext srv' \<and> client_fds srv' = [7, 10, 9]"
    by (simp add: rounds_def io_loop.simps io_event_def example_srv_def accept_client_def
        grow_clients_def cleanup_connection_def cleanup_loop.simps client_fds_def)
  then show ?thesis
    using io_loop_inv [OF example_srv_inv, of rounds] by (auto simp: rounds_def)
qed

text \<open>
  C20: the exit event is never recognised. Its test is nested under the test for the
  listening socket, so the event that \<open>SgTcpServer_stop\<close> raises on \<open>event_fd\<close> takes the
  client branch: its eight bytes are queued as a message of a client numbered \<open>event_fd\<close>,
  and when the receive queue is full the I/O thread blocks in that push although the server
  has been stopped.
\<close>

theorem exit_event_taken_for_client:
  assumes "tcp_inv srv" "listen_fd srv \<noteq> event_fd srv"
    and "ev_fd ev = event_fd srv" "\<not> ev_hup ev" "ev_in ev" "read_ret env = 8"
  shows "if cnt (recv_q srv) = cap (recv_q srv) then io_event srv ev env = IoBlock srv
         else \<exists>srv'. io_event srv ev env = IoNext srv' \<and>
           rb_list (recv_q srv') = rb_list (recv_q srv) @
             [\<lparr>m_client_fd = event_fd srv, m_data = read_buf env, m_len = 8\<rparr>]"
  using assms by (simp add: io_event_def rb_push.simps tcp_inv_def rb_list_put rb_full_def)

theorem exit_event_taken_for_client_witness:
  "\<exists>srv'. io_event (SgTcpServer_stop example_srv) \<lparr>ev_fd = 5, ev_hup = False, ev_in = True\<rparr>
       \<lparr>accept_ret = 0, read_ret = 8, read_buf = CHR 0x01 # replicate 7 NUL\<rparr> = IoNext srv' \<and>
     rb_list (recv_q srv') =
       [\<lparr>m_client_fd = 5, m_data = CHR 0x01 # replicate 7 NUL, m_len = 8\<rparr>]"
proof -
  have inv: "tcp_inv (SgTcpServer_stop example_srv)"
    using example_srv_inv by (simp add: tcp_inv_def SgTcpServer_stop_def)
  have "rb_list (recv_q (SgTcpServer_stop example_srv)) = []"
    by (simp add: SgTcpServer_stop_def example_srv_def rb_list_def)
  then show ?thesis
    using exit_event_taken_for_client [OF inv, of "\<lparr>ev_fd = 5, ev_hup = False, ev_in = True\<rparr>"
        "\<lparr>accept_ret = 0, read_ret = 8, read_buf = CHR 0x01 # replicate 7 NUL\<rparr>"]
    by (simp add: SgTcpServer_stop_def example_srv_def)
qed

end
