(* ===== verification/TcpDeadlock.thy ===== *)
theory TcpDeadlock
  imports TcpServer
begin

text \<open>
  Three threads of \<^verbatim>\<open>sg-tcp.c\<close> and the lock \<open>clients_mtx\<close>: one that broadcasts, which
  keeps the lock while it pushes one message per client and blocks when the send queue is
  full; the send thread, which alone empties that queue, takes the same lock in
  \<open>cleanup_connection\<close> when \<open>send\<close> has failed, and ends when it finds \<open>stopped\<close> set; and one
  that calls \<open>SgTcpServer_stop\<close>, which sets \<open>stopped\<close> and joins the send thread. Each point
  where a thread can be stopped is a step of its own.
\<close>

datatype bcast_pc =
    BIdle
  | BWant string nat             \<comment> \<open>in front of \<open>pthread_mutex_lock\<close>\<close>
  | BLoop "fd list" string nat   \<comment> \<open>holds \<open>clients_mtx\<close>, these clients are left\<close>

datatype send_pc =
    SHead                        \<comment> \<open>in front of \<open>while (!srv->stopped)\<close>\<close>
  | SPop                         \<comment> \<open>in \<open>rb_timed_pop\<close>, in front of the test of the queue\<close>
  | SWait                        \<comment> \<open>in its timed wait\<close>
  | SWant fd                     \<comment> \<open>\<open>send\<close> failed, wants \<open>clients_mtx\<close> to drop the client\<close>
  | SDone                        \<comment> \<open>the thread has ended\<close>

datatype stop_pc =
    TIdle
  | TJoin                        \<comment> \<open>\<open>stopped\<close> is set, in \<open>pthread_join\<close> for the send thread\<close>
  | TDone                        \<comment> \<open>\<open>SgTcpServer_stop\<close> has returned\<close>

record net =
  net_srv :: SgTcpServer
  locked :: bool                 \<comment> \<open>\<open>clients_mtx\<close> is held by the broadcasting thread\<close>
  bpc :: bcast_pc
  spc :: send_pc
  tpc :: stop_pc

text \<open>The broadcaster and the send thread. \<open>SgTcpServer_broadcast\<close> does not look at \<open>stopped\<close>.\<close>

inductive net_step :: "net \<Rightarrow> net \<Rightarrow> bool" where
  b_call: "bpc s = BIdle \<Longrightarrow> net_step s (s\<lparr>bpc := BWant d n\<rparr>)"
| b_lock: "bpc s = BWant d n \<Longrightarrow> \<not> locked s \<Longrightarrow>
    net_step s (s\<lparr>bpc := BLoop (client_fds (net_srv s)) d n, locked := True\<rparr>)"
| b_push: "bpc s = BLoop (f # fs) d n \<Longrightarrow> SgTcpServer_send (net_srv s) f d n = Some srv' \<Longrightarrow>
    net_step s (s\<lparr>bpc := BLoop fs d n, net_srv := srv'\<rparr>)"
| b_unlock: "bpc s = BLoop [] d n \<Longrightarrow> net_step s (s\<lparr>bpc := BIdle, locked := False\<rparr>)"
| s_enter: "spc s = SHead \<Longrightarrow> \<not> stopped (net_srv s) \<Longrightarrow> net_step s (s\<lparr>spc := SPop\<rparr>)"
| s_exit: "spc s = SHead \<Longrightarrow> stopped (net_srv s) \<Longrightarrow> net_step s (s\<lparr>spc := SDone\<rparr>)"
| s_wait: "spc s = SPop \<Longrightarrow> rb_empty (send_q (net_srv s)) \<Longrightarrow> net_step s (s\<lparr>spc := SWait\<rparr>)"
| s_wake: "spc s = SWait \<Longrightarrow> net_step s (s\<lparr>spc := SPop\<rparr>)"
| s_timeout: "spc s = SWait \<Longrightarrow> net_step s (s\<lparr>spc := SHead\<rparr>)"
| s_sent: "spc s = SPop \<Longrightarrow> rb_pop (send_q (net_srv s)) [] = Some (m, q) \<Longrightarrow>
    net_step s (s\<lparr>net_srv := (net_srv s)\<lparr>send_q := q, sent := sent (net_srv s) @ [payload m]\<rparr>,
                  spc := SHead\<rparr>)"
| s_fail: "spc s = SPop \<Longrightarrow> rb_pop (send_q (net_srv s)) [] = Some (m, q) \<Longrightarrow>
    net_step s (s\<lparr>net_srv := (net_srv s)\<lparr>send_q := q, sent := sent (net_srv s) @ [payload m]\<rparr>,
                  spc := SWant (m_client_fd m)\<rparr>)"
| s_clean: "spc s = SWant f \<Longrightarrow> \<not> locked s \<Longrightarrow>
    net_step s (s\<lparr>net_srv := cleanup_connection f (net_srv s), spc := SHead\<rparr>)"

inductive stop_step :: "net \<Rightarrow> net \<Rightarrow> bool" where
  t_stop: "tpc s = TIdle \<Longrightarrow> stop_step s (s\<lparr>net_srv := SgTcpServer_stop (net_srv s), tpc := TJoin\<rparr>)"
| t_join: "tpc s = TJoin \<Longrightarrow> spc s = SDone \<Longrightarrow> stop_step s (s\<lparr>tpc := TDone\<rparr>)"

text \<open>The state right after \<open>SgTcpServer_start\<close>.\<close>

definition net_init :: "SgTcpServer \<Rightarrow> net" where
  "net_init srv = \<lparr>net_srv = SgTcpServer_start srv, locked = False, bpc = BIdle, spc = SHead, tpc = TIdle\<rparr>"

inductive net_reach :: "net \<Rightarrow> net \<Rightarrow> bool" for s0 where
  start: "net_reach s0 s0"
| step: "net_reach s0 s \<Longrightarrow> net_step s s' \<Longrightarrow> net_reach s0 s'"
| stop: "net_reach s0 s \<Longrightarrow> stop_step s s' \<Longrightarrow> net_reach s0 s'"

text \<open>The broadcaster holds the lock and waits for room in the send queue.\<close>

definition pushing_full :: "net \<Rightarrow> bool" where
  "pushing_full s \<longleftrightarrow> locked s \<and> (\<exists>f fs d n. bpc s = BLoop (f # fs) d n) \<and>
                     cnt (send_q (net_srv s)) = cap (send_q (net_srv s))"

definition deadlocked :: "net \<Rightarrow> bool" where
  "deadlocked s \<longleftrightarrow> pushing_full s \<and> (\<exists>g. spc s = SWant g)"

definition abandoned :: "net \<Rightarrow> bool" where
  "abandoned s \<longleftrightarrow> pushing_full s \<and> spc s = SDone \<and> stopped (net_srv s)"

definition net_inv :: "net \<Rightarrow> bool" where
  "net_inv s \<longleftrightarrow> tcp_inv (net_srv s) \<and> (locked s \<longleftrightarrow> (\<exists>fs d n. bpc s = BLoop fs d n)) \<and>
     (spc s = SDone \<longrightarrow> stopped (net_srv s)) \<and> (tpc s = TDone \<longrightarrow> spc s = SDone)"

lemma net_reach_trans: "net_reach b c \<Longrightarrow> net_reach a b \<Longrightarrow> net_reach a c"
  by (induction rule: net_reach.induct) (auto intro: net_reach.step net_reach.stop)

lemma pop_inv:
  assumes "tcp_inv srv" "rb_pop (send_q srv) [] = Some (m, q)"
  shows "tcp_inv (srv\<lparr>send_q := q, sent := x\<rparr>)"
  using assms rb_inv_take [of "send_q srv"]
  by (auto simp: tcp_inv_def rb_pop.simps rb_empty_def split: if_splits)

lemma send_some:
  assumes "tcp_inv srv" "SgTcpServer_send srv f d n = Some srv'"
  shows "tcp_inv srv'" "stopped srv' = stopped srv"
  using assms by (auto simp: send_cases send_inv split: if_splits)

lemma stop_inv [simp]: "tcp_inv (SgTcpServer_stop srv) = tcp_inv srv" "tcp_inv (SgTcpServer_start srv) = tcp_inv srv"
  by (simp_all add: tcp_inv_def SgTcpServer_stop_def SgTcpServer_start_def)

lemma stop_simps [simp]:
  "send_q (SgTcpServer_stop srv) = send_q srv" "stopped (SgTcpServer_stop srv)"
  by (simp_all add: SgTcpServer_stop_def)

lemma net_inv_step: "net_step s s' \<Longrightarrow> net_inv s \<Longrightarrow> net_inv s'"
  by (induction rule: net_step.induct)
     (auto simp: net_inv_def pop_inv cleanup_inv cleanup_simps send_some dest: send_some)

lemma net_inv_stop: "stop_step s s' \<Longrightarrow> net_inv s \<Longrightarrow> net_inv s'"
  by (induction rule: stop_step.induct) (auto simp: net_inv_def)

lemma net_inv_init: "tcp_inv srv \<Longrightarrow> net_inv (net_init srv)"
  by (simp add: net_inv_def net_init_def)

lemma net_reach_inv: "net_reach s s' \<Longrightarrow> net_inv s \<Longrightarrow> net_inv s'"
  by (induction rule: net_reach.induct) (auto intro: net_inv_step net_inv_stop)

inductive_simps net_step_from: "net_step s s'"

section \<open>States without a step\<close>

lemma pushing_full_stuck:
  "net_inv s \<Longrightarrow> pushing_full s \<Longrightarrow> (\<exists>g. spc s = SWant g) \<or> spc s = SDone \<Longrightarrow> \<not> net_step s s'"
  by (auto simp: pushing_full_def net_inv_def net_step_from send_cases)

text \<open>The send thread can always go on, unless it has ended or waits for the lock.\<close>

lemma send_thread_goes_on:
  assumes "spc s \<noteq> SDone" "\<And>g. spc s = SWant g \<Longrightarrow> \<not> locked s"
  shows "\<exists>s'. net_step s s'"
proof (cases "spc s")
  case SHead
  then show ?thesis using net_step.s_enter net_step.s_exit by blast
next
  case SPop
  show ?thesis
  proof (cases "rb_empty (send_q (net_srv s))")
    case False
    then obtain m q where "rb_pop (send_q (net_srv s)) [] = Some (m, q)"
      by (cases "rb_take (send_q (net_srv s))") (simp add: rb_pop.simps rb_empty_def)
    then show ?thesis using net_step.s_sent SPop by blast
  qed (use net_step.s_wait SPop in blast)
qed (use assms net_step.s_wake net_step.s_clean in blast)+

lemma stuck_pushing:
  assumes inv: "net_inv s" and stuck: "\<And>s'. \<not> net_step s s'"
  shows "pushing_full s"
proof (cases "bpc s")
  case BIdle
  then show ?thesis using stuck net_step.b_call by blast
next
  case (BWant d n)
  then have "\<not> locked s" using inv by (simp add: net_inv_def)
  then show ?thesis using stuck BWant net_step.b_lock by blast
next
  case (BLoop fs d n)
  have tcp: "tcp_inv (net_srv s)" and lk: "locked s"
    using inv BLoop by (auto simp: net_inv_def)
  obtain f gs where fs: "fs = f # gs"
    using stuck net_step.b_unlock BLoop by (cases fs) blast+
  have "SgTcpServer_send (net_srv s) f d n = None"
    using stuck net_step.b_push BLoop fs by (metis option.exhaust)
  then have "cnt (send_q (net_srv s)) = cap (send_q (net_srv s))"
    using tcp by (auto simp: send_cases tcp_inv_def rb_inv_def split: if_splits)
  then show ?thesis using lk BLoop fs by (simp add: pushing_full_def)
qed

lemma stuck_iff:
  assumes "net_inv s"
  shows "(\<forall>s'. \<not> net_step s s') \<longleftrightarrow> deadlocked s \<or> abandoned s"
  using stuck_pushing [OF assms] send_thread_goes_on [of s] pushing_full_stuck [OF assms] assms
  unfolding deadlocked_def abandoned_def net_inv_def by metis

text \<open>What blocks the two threads stays, whatever the third one does.\<close>

lemma stop_keeps:
  assumes "stop_step s s'"
  shows "deadlocked s \<Longrightarrow> deadlocked s'" and "abandoned s \<Longrightarrow> abandoned s'" and "bpc s' = bpc s"
  using assms by (auto simp: deadlocked_def abandoned_def pushing_full_def elim!: stop_step.cases)

lemma blocked_for_ever:
  assumes "net_reach s s'" "net_inv s" "deadlocked s \<or> abandoned s"
  shows "(deadlocked s \<longrightarrow> deadlocked s') \<and> (abandoned s \<longrightarrow> abandoned s') \<and> bpc s' = bpc s"
  using assms(1)
proof induction
  case (step t t')
  then have "deadlocked t \<or> abandoned t" using assms(3) by blast
  then have "\<not> net_step t t'" using stuck_iff [OF net_reach_inv [OF step.hyps(1) assms(2)]] by blast
  then show ?case using step.hyps(2) by blast
next
  case (stop t t')
  then show ?case using stop_keeps [OF stop.hyps(2)] by auto
qed simp

section \<open>Reaching them\<close>

text \<open>Without the send thread, the broadcaster goes on until the queue is full.\<close>

lemma fill_queue:
  assumes "net_inv s" "bpc s = BLoop fs d n" "client_fds (net_srv s) \<noteq> []"
  shows "\<exists>s'. net_reach s s' \<and> pushing_full s' \<and> spc s' = spc s \<and> stopped (net_srv s') = stopped (net_srv s)"
  using assms
proof (induction "cap (send_q (net_srv s)) - cnt (send_q (net_srv s))" arbitrary: s fs d n
    rule: less_induct)
  case less
  have tcp: "tcp_inv (net_srv s)" and lk: "locked s"
    using less.prems by (auto simp: net_inv_def)
  have again: "\<exists>s1 f fs. net_reach s s1 \<and> net_inv s1 \<and> bpc s1 = BLoop (f # fs) d n \<and>
      net_srv s1 = net_srv s \<and> spc s1 = spc s \<and> locked s1"
  proof (cases fs)
    case (Cons f gs)
    then show ?thesis using less.prems lk by (blast intro: net_reach.start)
  next
    case Nil
    define s1 where "s1 = s\<lparr>bpc := BIdle, locked := False\<rparr>"
    define s2 where "s2 = s1\<lparr>bpc := BWant d n\<rparr>"
    define s3 where "s3 = s2\<lparr>bpc := BLoop (client_fds (net_srv s2)) d n, locked := True\<rparr>"
    have "net_step s s1" using net_step.b_unlock less.prems(2) Nil by (simp add: s1_def)
    moreover have "net_step s1 s2" unfolding s2_def by (rule net_step.b_call) (simp add: s1_def)
    moreover have "net_step s2 s3"
      unfolding s3_def by (rule net_step.b_lock) (simp_all add: s2_def s1_def)
    ultimately have "net_reach s s3" "net_inv s3"
      using less.prems(1) by (blast intro: net_reach.start net_reach.step net_inv_step)+
    then show ?thesis
      using less.prems(3) by (cases "client_fds (net_srv s)") (auto simp: s3_def s2_def s1_def)
  qed
  then obtain s1 f gs where s1: "net_reach s s1" "net_inv s1" "bpc s1 = BLoop (f # gs) d n"
      "net_srv s1 = net_srv s" "spc s1 = spc s" "locked s1"
    by blast
  show ?case
  proof (cases "cnt (send_q (net_srv s)) < cap (send_q (net_srv s))")
    case False
    then have "cnt (send_q (net_srv s)) = cap (send_q (net_srv s))"
      using tcp by (simp add: tcp_inv_def rb_inv_def)
    then have "pushing_full s1" using s1 by (simp add: pushing_full_def)
    then show ?thesis using s1 by auto
  next
    case True
    define srv2 where "srv2 = (net_srv s)\<lparr>send_q := rb_put (send_q (net_srv s)) (msg_for d n f)\<rparr>"
    define s2 where "s2 = s1\<lparr>bpc := BLoop gs d n, net_srv := srv2\<rparr>"
    have "net_step s1 s2"
      using net_step.b_push [OF s1(3)] True tcp s1(4) by (simp add: send_cases s2_def srv2_def)
    then have reach: "net_reach s s2" and inv: "net_inv s2"
      using s1 by (auto intro: net_reach.step net_inv_step)
    have "\<exists>s'. net_reach s2 s' \<and> pushing_full s' \<and> spc s' = spc s2 \<and> stopped (net_srv s') = stopped (net_srv s2)"
      by (rule less.hyps [OF _ inv, of gs d n])
         (use True less.prems s1 in \<open>auto simp: s2_def srv2_def client_fds_def\<close>)
    then show ?thesis using reach net_reach_trans s1(5) by (fastforce simp: s2_def srv2_def)
  qed
qed

text \<open>A broadcast that has taken the lock.\<close>

lemma reach_loop:
  assumes "tcp_inv srv"
  obtains s where "net_reach (net_init srv) s" "bpc s = BLoop (client_fds srv) [] 0" "locked s"
    "spc s = SHead" "tpc s = TIdle" "net_srv s = SgTcpServer_start srv"
proof -
  define s1 where "s1 = (net_init srv)\<lparr>bpc := BWant [] 0\<rparr>"
  define s2 where "s2 = s1\<lparr>bpc := BLoop (client_fds (net_srv s1)) [] 0, locked := True\<rparr>"
  have "net_step (net_init srv) s1"
    unfolding s1_def by (rule net_step.b_call) (simp add: net_init_def)
  moreover have "net_step s1 s2"
    unfolding s2_def by (rule net_step.b_lock) (simp_all add: s1_def net_init_def)
  ultimately have "net_reach (net_init srv) s2" by (blast intro: net_reach.start net_reach.step)
  then show ?thesis
    by (rule that) (simp_all add: s2_def s1_def net_init_def client_fds_def SgTcpServer_start_def)
qed

lemma start_simps [simp]:
  "client_fds (SgTcpServer_start srv) = client_fds srv" "send_q (SgTcpServer_start srv) = send_q srv"
  "\<not> stopped (SgTcpServer_start srv)" "client_fds (SgTcpServer_stop srv) = client_fds srv"
  by (simp_all add: SgTcpServer_start_def SgTcpServer_stop_def client_fds_def)

lemma deadlock_reachable:
  assumes inv: "tcp_inv srv" and some: "client_fds srv \<noteq> []"
  shows "\<exists>s. net_reach (net_init srv) s \<and> deadlocked s"
proof -
  obtain s2 where s2: "net_reach (net_init srv) s2" "bpc s2 = BLoop (client_fds srv) [] 0" "locked s2"
    "spc s2 = SHead" "net_srv s2 = SgTcpServer_start srv" using reach_loop [OF inv] by metis
  obtain f fs where fds: "client_fds srv = f # fs" using some by (cases "client_fds srv") auto
  have "\<exists>s3 gs. net_reach s2 s3 \<and> bpc s3 = BLoop gs [] 0 \<and> spc s3 = SHead \<and> \<not> stopped (net_srv s3) \<and>
      client_fds (net_srv s3) \<noteq> [] \<and> cnt (send_q (net_srv s3)) \<noteq> 0"
  proof (cases "cnt (send_q srv) = 0")
    case False
    then show ?thesis using some s2 by (intro exI [of _ s2]) (auto simp: net_reach.start)
  next
    case True
    then have room: "cnt (send_q srv) < cap (send_q srv)"
      using inv by (simp add: tcp_inv_def rb_inv_def)
    define srv3 where "srv3 = (SgTcpServer_start srv)\<lparr>send_q := rb_put (send_q srv) (msg_for [] 0 f)\<rparr>"
    define s3 where "s3 = s2\<lparr>bpc := BLoop fs [] 0, net_srv := srv3\<rparr>"
    have "SgTcpServer_send (net_srv s2) f [] 0 = Some srv3"
      using inv room by (simp add: s2(5) srv3_def send_cases)
    then have "net_reach s2 s3"
      using net_step.b_push [of s2 f fs "[]" 0] s2(2) fds
      by (auto simp: s3_def intro: net_reach.start net_reach.step)
    moreover have "client_fds srv3 = client_fds srv" "\<not> stopped srv3" "cnt (send_q srv3) \<noteq> 0"
      by (simp_all add: srv3_def client_fds_def SgTcpServer_start_def rb_put_def)
    ultimately show ?thesis using some s2(4) by (intro exI [of _ s3]) (auto simp: s3_def)
  qed
  then obtain s3 gs where s3: "net_reach s2 s3" "bpc s3 = BLoop gs [] 0" "spc s3 = SHead"
      "\<not> stopped (net_srv s3)" "client_fds (net_srv s3) \<noteq> []" "cnt (send_q (net_srv s3)) \<noteq> 0"
    by blast
  obtain m q where pop: "rb_pop (send_q (net_srv s3)) [] = Some (m, q)"
    using s3(6) by (cases "rb_take (send_q (net_srv s3))") (simp add: rb_pop.simps)
  define s4 where "s4 = s3\<lparr>spc := SPop\<rparr>"
  have 4: "net_step s3 s4" unfolding s4_def by (rule net_step.s_enter [OF s3(3,4)])
  obtain s5 where s5: "net_step s4 s5" "bpc s5 = BLoop gs [] 0" "spc s5 = SWant (m_client_fd m)"
      "client_fds (net_srv s5) = client_fds (net_srv s3)"
    using net_step.s_fail [of s4 m q] pop s3(2) by (fastforce simp: s4_def client_fds_def)
  have r5: "net_reach (net_init srv) s5"
    using net_reach_trans [OF s3(1) s2(1)] 4 s5(1) by (blast intro: net_reach.step)
  obtain s' where s': "net_reach s5 s'" "pushing_full s'" "spc s' = spc s5"
    using fill_queue [OF net_reach_inv [OF r5 net_inv_init [OF inv]] s5(2)] s3(5) s5(4) by auto
  then show ?thesis using net_reach_trans [OF s'(1) r5] s5(3) by (auto simp: deadlocked_def)
qed

lemma abandoned_reachable:
  assumes inv: "tcp_inv srv" and some: "client_fds srv \<noteq> []"
  shows "\<exists>s. net_reach (net_init srv) s \<and> abandoned s"
proof -
  obtain s2 where s2: "net_reach (net_init srv) s2" "bpc s2 = BLoop (client_fds srv) [] 0"
    "spc s2 = SHead" "tpc s2 = TIdle" "net_srv s2 = SgTcpServer_start srv" using reach_loop [OF inv] by metis
  define s3 where "s3 = s2\<lparr>net_srv := SgTcpServer_stop (net_srv s2), tpc := TJoin\<rparr>"
  define s4 where "s4 = s3\<lparr>spc := SDone\<rparr>"
  have "stop_step s2 s3" unfolding s3_def by (rule stop_step.t_stop) (rule s2)
  moreover have "net_step s3 s4" unfolding s4_def by (rule net_step.s_exit) (simp_all add: s3_def s2(3))
  ultimately have r4: "net_reach (net_init srv) s4" using s2(1) by (blast intro: net_reach.step net_reach.stop)
  have s4: "bpc s4 = BLoop (client_fds srv) [] 0" "client_fds (net_srv s4) \<noteq> []" "spc s4 = SDone"
    "stopped (net_srv s4)" using s2 some by (simp_all add: s4_def s3_def)
  obtain s' where "net_reach s4 s'" "pushing_full s'" "spc s' = spc s4" "stopped (net_srv s')"
    using fill_queue [OF net_reach_inv [OF r4 net_inv_init [OF inv]] s4(1,2)] s4(4) by auto
  then show ?thesis using net_reach_trans [OF _ r4] s4(3) by (auto simp: abandoned_def)
qed

section \<open>Properties\<close>

text \<open>
  C12: with at least one client connected, whatever the capacity of the send queue, the two
  threads can reach a state in which the broadcaster holds \<open>clients_mtx\<close> and waits for room
  in the send queue while the send thread waits for \<open>clients_mtx\<close>. From there neither can
  take another step: the server never sends again. Stopping it does not help: the threads
  stay as they are and \<open>SgTcpServer_stop\<close> does not return.
\<close>

theorem broadcast_deadlock_reachable:
  assumes inv: "tcp_inv srv" and some: "client_fds srv \<noteq> []"
  shows "\<exists>s. net_reach (net_init srv) s \<and> deadlocked s \<and> (\<forall>s'. \<not> net_step s s') \<and>
    (\<forall>s'. net_reach s s' \<longrightarrow> deadlocked s' \<and> (\<forall>s''. \<not> net_step s' s'') \<and> tpc s' \<noteq> TDone)"
proof -
  obtain s where s: "net_reach (net_init srv) s" "deadlocked s" using deadlock_reachable [OF assms] by blast
  have inv: "net_inv s'" if "net_reach s s'" for s'
    using net_reach_inv [OF net_reach_trans [OF that s(1)] net_inv_init [OF inv]] .
  have "deadlocked s' \<and> (\<forall>s''. \<not> net_step s' s'') \<and> tpc s' \<noteq> TDone" if r: "net_reach s s'" for s'
  proof -
    have d: "deadlocked s'" using blocked_for_ever [OF r inv [OF net_reach.start]] s(2) by blast
    then show ?thesis
      using stuck_iff [OF inv [OF r]] inv [OF r] by (auto simp: deadlocked_def net_inv_def)
  qed
  then show ?thesis using s net_reach.start by blast
qed

theorem broadcast_deadlock_reachable_witness:
  "\<exists>s. net_reach (net_init example_srv) s \<and> deadlocked s \<and> (\<forall>s'. \<not> net_step s s') \<and>
    (\<forall>s'. net_reach s s' \<longrightarrow> deadlocked s' \<and> (\<forall>s''. \<not> net_step s' s'') \<and> tpc s' \<noteq> TDone)"
  by (rule broadcast_deadlock_reachable [OF example_srv_inv])
     (simp add: example_srv_def client_fds_def)

text \<open>
  C21: these threads stop in two ways and no other: in every reachable state in which neither
  can take a step, the broadcaster is in the middle of its loop with the lock and the queue
  is full, and the send thread either waits for the lock to clean up after a failed \<open>send\<close>,
  or has ended because the server was stopped. Both are for ever: the broadcast is never
  finished and the lock never given back. The second is reached from every started server
  with a client.
\<close>

theorem broadcast_blocked_states:
  assumes "tcp_inv srv"
  shows "(\<forall>s. net_reach (net_init srv) s \<longrightarrow>
      ((\<forall>s'. \<not> net_step s s') \<longleftrightarrow> deadlocked s \<or> abandoned s) \<and>
      (deadlocked s \<or> abandoned s \<longrightarrow> (\<forall>s'. net_reach s s' \<longrightarrow> bpc s' = bpc s \<and> locked s'))) \<and>
    (client_fds srv \<noteq> [] \<longrightarrow> (\<exists>s. net_reach (net_init srv) s \<and> abandoned s))"
proof (intro conjI allI impI)
  fix s assume r: "net_reach (net_init srv) s"
  have inv: "net_inv s" by (rule net_reach_inv [OF r net_inv_init [OF assms]])
  show "(\<forall>s'. \<not> net_step s s') \<longleftrightarrow> deadlocked s \<or> abandoned s" by (rule stuck_iff [OF inv])
  fix s' assume "deadlocked s \<or> abandoned s" "net_reach s s'"
  then show "bpc s' = bpc s" "locked s'"
    using blocked_for_ever [OF _ inv] by (auto simp: deadlocked_def abandoned_def pushing_full_def)
qed (rule abandoned_reachable [OF assms])

theorem broadcast_blocked_states_witness:
  "\<exists>s1 s2. net_reach (net_init example_srv) s1 \<and> deadlocked s1 \<and> (\<forall>s'. \<not> net_step s1 s') \<and>
     net_reach (net_init example_srv) s2 \<and> abandoned s2 \<and> (\<forall>s'. \<not> net_step s2 s') \<and>
     (\<forall>s'. net_reach s2 s' \<longrightarrow> locked s')"
proof -
  have c: "client_fds example_srv \<noteq> []" by (simp add: example_srv_def client_fds_def)
  note all = broadcast_blocked_states [OF example_srv_inv]
  obtain s1 where s1: "net_reach (net_init example_srv) s1" "deadlocked s1"
    using deadlock_reachable [OF example_srv_inv c] by blast
  obtain s2 where s2: "net_reach (net_init example_srv) s2" "abandoned s2" using all c by blast
  have "\<forall>s'. \<not> net_step s1 s'" using all s1 by blast
  moreover have "\<forall>s'. \<not> net_step s2 s'" "\<forall>s'. net_reach s2 s' \<longrightarrow> locked s'" using all s2 by blast+
  ultimately show ?thesis using s1 s2 by blast
qed

end
