(* ===== verification/Decimal.thy ===== *)
theory Decimal
  imports Prelude
begin

text \<open>
  Decimal text as the C library writes it with \<^verbatim>\<open>%d\<close> and as the program's digit loops
  read it back.
\<close>

definition is_digit :: "char \<Rightarrow> bool" where
  "is_digit c \<longleftrightarrow> 48 \<le> byte c \<and> byte c \<le> 57"

fun show_nat :: "nat \<Rightarrow> string" where
  "show_nat n = (if n < 10 then [char_of (48 + n)]
                 else show_nat (n div 10) @ [char_of (48 + n mod 10)])"

declare show_nat.simps [simp del]

definition show_int :: "int \<Rightarrow> string" where
  "show_int i = (if i < 0 then CHR ''-'' # show_nat (nat (- i)) else show_nat (nat i))"

fun dec_from :: "nat \<Rightarrow> string \<Rightarrow> nat" where
  "dec_from v [] = v"
| "dec_from v (c # s) = dec_from (v * 10 + (byte c - 48)) s"

lemma byte_digit [simp]: "n < (10::nat) \<Longrightarrow> byte (char_of (48 + n)) = 48 + n"
  by (simp add: of_char_of)

lemma is_digit_char [simp]: "n < (10::nat) \<Longrightarrow> is_digit (char_of (48 + n))"
  by (simp add: is_digit_def)

lemma dec_from_append [simp]: "dec_from v (s @ t) = dec_from (dec_from v s) t"
  by (induction v s rule: dec_from.induct) auto

lemma show_nat_digits: "c \<in> set (show_nat n) \<Longrightarrow> is_digit c"
proof (induction n rule: show_nat.induct)
  case (1 n)
  then show ?case by (auto simp: show_nat.simps [of n] split: if_splits)
qed

lemma show_nat_nonempty [simp]: "show_nat n \<noteq> []"
  by (simp add: show_nat.simps [of n])

lemma dec_show_nat [simp]: "dec_from 0 (show_nat n) = n"
proof (induction n rule: show_nat.induct)
  case (1 n)
  show ?case
  proof (cases "n < 10")
    case True
    then show ?thesis by (simp add: show_nat.simps [of n])
  next
    case False
    then have "dec_from 0 (show_nat n) = n div 10 * 10 + n mod 10"
      using 1 by (simp add: show_nat.simps [of n])
    then show ?thesis by simp
  qed
qed

lemma is_digit_not_nul: "is_digit c \<Longrightarrow> c \<noteq> NUL"
  by (auto simp: is_digit_def)

lemma no_nul_show_nat [simp]: "no_nul (show_nat n)"
  using show_nat_digits is_digit_not_nul by (auto simp: no_nul_def)

lemma no_nul_show_int [simp]: "no_nul (show_int i)"
  by (simp add: show_int_def)

lemma show_nat_hd_digit: "is_digit (hd (show_nat n))"
  by (rule show_nat_digits [of _ n]) simp

lemma length_show_nat_le: "n < 10 ^ k \<Longrightarrow> 0 < k \<Longrightarrow> length (show_nat n) \<le> k"
proof (induction n arbitrary: k rule: show_nat.induct)
  case (1 n)
  show ?case
  proof (cases "n < 10")
    case True
    then show ?thesis using "1.prems" by (simp add: show_nat.simps [of n])
  next
    case False
    then obtain m where k: "k = Suc m" "0 < m"
      using "1.prems" by (cases k; cases "k - 1") auto
    then have "n div 10 < 10 ^ m" using "1.prems" by (simp add: less_mult_imp_div_less mult.commute)
    then show ?thesis using "1.IH" [OF False _ k(2)] False k by (simp add: show_nat.simps [of n])
  qed
qed

end
