(* ===== verification/CDouble.thy ===== *)
theory CDouble
  imports Decimal
begin

text \<open>
  The \<^verbatim>\<open>double\<close> of C as exact binary64: a sign, a 53-bit significand and an exponent, with the
  infinities and NaN. Everything is integer arithmetic, so it computes in the kernel. Rounding
  is to nearest, ties to even; \<open>strtod\<close> and the formats \<^verbatim>\<open>%1.15g\<close> and \<^verbatim>\<open>%1.17g\<close> round
  correctly, as glibc and musl do.
\<close>

section \<open>Representation and rounding\<close>

text \<open>\<open>Fin s m e\<close> is \<open>m\<close> times 2 to the \<open>e\<close>, negated when \<open>s\<close>.\<close>

datatype dbl = NaN | Inf bool | Fin bool nat int

fun bitlen :: "nat \<Rightarrow> nat" where
  "bitlen n = (if n = 0 then 0 else Suc (bitlen (n div 2)))"

declare bitlen.simps [simp del]

definition half_even :: "nat \<Rightarrow> nat \<Rightarrow> nat" where
  "half_even n d =
     (let q = n div d; r = n mod d
      in if 2 * r < d \<or> (2 * r = d \<and> even q) then q else q + 1)"

text \<open>The fraction \<open>n / d\<close> divided by 2 to the \<open>e\<close>, as numerator and denominator.\<close>

definition scale2 :: "nat \<Rightarrow> nat \<Rightarrow> int \<Rightarrow> nat \<times> nat" where
  "scale2 n d e = (if 0 \<le> e then (n, d * 2 ^ nat e) else (n * 2 ^ nat (- e), d))"

definition dbl_of_frac :: "bool \<Rightarrow> nat \<Rightarrow> nat \<Rightarrow> dbl" where
  "dbl_of_frac s n d =
     (if n = 0 then Fin s 0 (-1074)
      else
        let e0 = max (int (bitlen n) - int (bitlen d) - 53) (-1074);
            (a0, b0) = scale2 n d e0;
            e1 = (if 2 ^ 53 \<le> a0 div b0 then e0 + 1 else e0);
            (a, b) = scale2 n d e1;
            m = half_even a b;
            (m', e) = (if m = 2 ^ 53 then (2 ^ 52, e1 + 1) else (m, e1))
        in if 971 < e then Inf s else Fin s m' e)"

definition dbl_of_int :: "int \<Rightarrow> dbl" where
  "dbl_of_int i = dbl_of_frac (i < 0) (nat \<bar>i\<bar>) 1"

section \<open>Comparison, conversion, arithmetic\<close>

text \<open>The value of a finite double as an integer numerator and a natural denominator.\<close>

fun dbl_frac :: "dbl \<Rightarrow> int \<times> nat" where
  "dbl_frac (Fin s m e) =
     ((if s then - 1 else 1) * int (if 0 \<le> e then m * 2 ^ nat e else m),
      (if 0 \<le> e then 1 else 2 ^ nat (- e)))"
| "dbl_frac x = (0, 1)"

definition frac_le :: "int \<times> nat \<Rightarrow> int \<times> nat \<Rightarrow> bool" where
  "frac_le x y \<longleftrightarrow> fst x * int (snd y) \<le> fst y * int (snd x)"

fun dbl_le :: "dbl \<Rightarrow> dbl \<Rightarrow> bool" where
  "dbl_le NaN y = False"
| "dbl_le x NaN = False"
| "dbl_le (Inf s) (Inf t) = (s \<or> \<not> t)"
| "dbl_le (Inf s) (Fin t m e) = s"
| "dbl_le (Fin t m e) (Inf s) = (\<not> s)"
| "dbl_le (Fin s m e) (Fin t n f) = frac_le (dbl_frac (Fin s m e)) (dbl_frac (Fin t n f))"

definition dbl_eq :: "dbl \<Rightarrow> dbl \<Rightarrow> bool" where
  "dbl_eq x y \<longleftrightarrow> dbl_le x y \<and> dbl_le y x"

text \<open>The conversion \<^verbatim>\<open>(int)\<close> of a finite double in range: towards zero.\<close>

definition dbl_trunc :: "dbl \<Rightarrow> int" where
  "dbl_trunc x = (let (n, d) = dbl_frac x in sgn n * (\<bar>n\<bar> div int d))"

fun is_nan :: "dbl \<Rightarrow> bool" where
  "is_nan NaN = True" | "is_nan _ = False"

fun is_inf :: "dbl \<Rightarrow> bool" where
  "is_inf (Inf s) = True" | "is_inf _ = False"

fun dbl_abs :: "dbl \<Rightarrow> dbl" where
  "dbl_abs NaN = NaN"
| "dbl_abs (Inf s) = Inf False"
| "dbl_abs (Fin s m e) = Fin False m e"

definition round_frac :: "int \<Rightarrow> nat \<Rightarrow> dbl" where
  "round_frac n d = dbl_of_frac (n < 0) (nat \<bar>n\<bar>) d"

fun dbl_sub :: "dbl \<Rightarrow> dbl \<Rightarrow> dbl" where
  "dbl_sub NaN y = NaN"
| "dbl_sub x NaN = NaN"
| "dbl_sub (Inf s) (Inf t) = (if s = t then NaN else Inf s)"
| "dbl_sub (Inf s) (Fin t m e) = Inf s"
| "dbl_sub (Fin t m e) (Inf s) = Inf (\<not> s)"
| "dbl_sub (Fin s m e) (Fin t n f) =
     (let (a, b) = dbl_frac (Fin s m e); (c, d) = dbl_frac (Fin t n f)
      in round_frac (a * int d - c * int b) (b * d))"

text \<open>The product with \<^verbatim>\<open>DBL_EPSILON\<close>, 2 to the -52.\<close>

fun dbl_times_eps :: "dbl \<Rightarrow> dbl" where
  "dbl_times_eps (Fin s m e) =
     (let (a, b) = dbl_frac (Fin s m e) in round_frac a (b * 2 ^ 52))"
| "dbl_times_eps x = x"

section \<open>Reading decimal text\<close>

definition digits_of :: "string \<Rightarrow> string \<times> string" where
  "digits_of s = (takeWhile is_digit s, dropWhile is_digit s)"

text \<open>\<open>n\<close> times 10 to the \<open>x\<close>; the two guards only spare the powers that cannot matter.\<close>

definition dbl_of_dec :: "bool \<Rightarrow> nat \<Rightarrow> int \<Rightarrow> dbl" where
  "dbl_of_dec s n x =
     (if n = 0 then Fin s 0 (-1074)
      else if 400 < x then Inf s
      else if x < - 400 - int (bitlen n) then Fin s 0 (-1074)
      else if 0 \<le> x then dbl_of_frac s (n * 10 ^ nat x) 1
      else dbl_of_frac s n (10 ^ nat (- x)))"

text \<open>
  The exponent part: its value and the text after it. Without digits the \<^verbatim>\<open>e\<close> is not part of
  the number.
\<close>

definition exp_part :: "string \<Rightarrow> int \<times> string" where
  "exp_part s =
     (case s of
        c # t \<Rightarrow>
          if c = CHR ''e'' \<or> c = CHR ''E'' then
            let neg = (t \<noteq> [] \<and> hd t = CHR ''-'');
                t' = (if t \<noteq> [] \<and> (hd t = CHR ''-'' \<or> hd t = CHR ''+'') then tl t else t);
                (ds, r) = digits_of t'
            in if ds = [] then (0, s)
               else (if neg then - int (dec_from 0 ds) else int (dec_from 0 ds), r)
          else (0, s)
      | [] \<Rightarrow> (0, s))"

text \<open>
  \<open>strtod\<close> on text made of digits, signs, a point and \<^verbatim>\<open>e\<close>, which is all the program gives
  it: the number and how many characters it takes, 0 when there is none.
\<close>

definition strtod :: "string \<Rightarrow> dbl \<times> nat" where
  "strtod s =
     (let neg = (s \<noteq> [] \<and> hd s = CHR ''-'');
          t = (if s \<noteq> [] \<and> (hd s = CHR ''-'' \<or> hd s = CHR ''+'') then tl s else s);
          (ip, r1) = digits_of t;
          (fp, r2) = (if r1 \<noteq> [] \<and> hd r1 = CHR ''.'' then digits_of (tl r1) else ([], r1))
      in if ip = [] \<and> fp = [] then (Fin False 0 (-1074), 0)
         else
           let (x, r3) = exp_part r2
           in (dbl_of_dec neg (dec_from 0 (ip @ fp)) (x - int (length fp)), length s - length r3))"

section \<open>Writing decimal text\<close>

text \<open>The least \<open>k\<close> with \<open>n * 10 ^ k \<ge> d\<close>.\<close>

function neg_exp :: "nat \<Rightarrow> nat \<Rightarrow> nat" where
  "neg_exp n d = (if n = 0 \<or> d \<le> n then 0 else Suc (neg_exp (10 * n) d))"
  by pat_completeness auto
termination by (relation "measure (\<lambda>(n, d). d - n)") auto

declare neg_exp.simps [simp del]

definition dec_exp :: "nat \<Rightarrow> nat \<Rightarrow> int" where
  "dec_exp n d = (if d \<le> n then int (length (show_nat (n div d))) - 1 else - int (neg_exp n d))"

text \<open>The \<open>P\<close> significant digits, correctly rounded, and the exponent of the first.\<close>

definition sig_digits :: "nat \<Rightarrow> nat \<Rightarrow> nat \<Rightarrow> nat \<times> int" where
  "sig_digits P n d =
     (let x = dec_exp n d;
          k = int P - 1 - x;
          g = (if 0 \<le> k then half_even (n * 10 ^ nat k) d else half_even n (d * 10 ^ nat (- k)))
      in if g = 10 ^ P then (10 ^ (P - 1), x + 1) else (g, x))"

definition strip0 :: "string \<Rightarrow> string" where
  "strip0 s = rev (dropWhile (\<lambda>c. c = CHR ''0'') (rev s))"

definition with_point :: "string \<Rightarrow> string \<Rightarrow> string" where
  "with_point ip fp = (if strip0 fp = [] then ip else ip @ CHR ''.'' # strip0 fp)"

definition show_exp :: "int \<Rightarrow> string" where
  "show_exp x =
     CHR ''e'' # (if x < 0 then CHR ''-'' else CHR ''+'') #
       (if \<bar>x\<bar> < 10 then CHR ''0'' # show_nat (nat \<bar>x\<bar>) else show_nat (nat \<bar>x\<bar>))"

text \<open>\<^verbatim>\<open>%1.Pg\<close> of a finite double.\<close>

definition fmt_g :: "nat \<Rightarrow> dbl \<Rightarrow> string" where
  "fmt_g P v =
     (let (a, d) = dbl_frac v; n = nat \<bar>a\<bar>;
          sg = (case v of Fin s m e \<Rightarrow> if s then ''-'' else [] | _ \<Rightarrow> [])
      in if n = 0 then sg @ ''0''
         else
           let (g, x) = sig_digits P n d; ds = show_nat g
           in if x < -4 \<or> int P \<le> x then sg @ with_point (take 1 ds) (drop 1 ds) @ show_exp x
              else if 0 \<le> x then sg @ with_point (take (nat x + 1) ds) (drop (nat x + 1) ds)
              else sg @ with_point ''0'' (replicate (nat (- x) - 1) CHR ''0'' @ ds))"

section \<open>Integers\<close>

lemma bitlen_01 [simp]: "bitlen 0 = 0" "bitlen (Suc 0) = 1"
  using bitlen.simps [of 0] bitlen.simps [of "Suc 0"] by simp_all

lemma bitlen_bounds: "n < 2 ^ bitlen n \<and> (0 < n \<longrightarrow> 2 ^ (bitlen n - 1) \<le> n)"
proof (induction n rule: bitlen.induct)
  case (1 n)
  show ?case
  proof (cases "n = 0")
    case True
    then show ?thesis by (simp add: bitlen.simps [of 0])
  next
    case False
    show ?thesis
    proof (cases "n = 1")
      case True
      then show ?thesis by simp
    next
      case F: False
      then have "0 < n div 2" using False by simp
      then have b: "0 < bitlen (n div 2)" by (simp add: bitlen.simps [of "n div 2"])
      then obtain k where k: "bitlen (n div 2) = Suc k" by (cases "bitlen (n div 2)") auto
      have "n div 2 < 2 ^ Suc k" "2 ^ k \<le> n div 2"
        using 1 [OF False] \<open>0 < n div 2\<close> by (simp_all add: k)
      then have "n < 4 * 2 ^ k" "2 * 2 ^ k \<le> n" by simp_all
      then show ?thesis using False by (simp add: bitlen.simps [of n] k)
    qed
  qed
qed

lemma bitlen_le: "n < 2 ^ k \<Longrightarrow> bitlen n \<le> k"
proof (cases "n = 0")
  case False
  assume "n < 2 ^ k"
  then have "(2::nat) ^ (bitlen n - 1) < 2 ^ k"
    using bitlen_bounds [of n] False by (meson le_less_trans neq0_conv)
  then show ?thesis by simp
qed (simp add: bitlen.simps [of 0])

lemma bitlen_pos: "0 < n \<Longrightarrow> 0 < bitlen n"
  by (simp add: bitlen.simps [of n])

lemma half_even_1 [simp]: "half_even n (Suc 0) = n"
  by (simp add: half_even_def)

text \<open>A natural number below 2 to the 53 is represented exactly.\<close>

lemma dbl_of_frac_nat:
  assumes "0 < n" "n < 2 ^ 53"
  shows "dbl_of_frac s n 1 = Fin s (n * 2 ^ (53 - bitlen n)) (int (bitlen n) - 53)"
proof -
  define L where "L = bitlen n"
  have L: "0 < L" "L \<le> 53" using assms bitlen_le bitlen_pos by (auto simp: L_def)
  have n: "n < 2 ^ L" "2 ^ (L - 1) \<le> n" using bitlen_bounds [of n] assms by (auto simp: L_def)
  have b1: "bitlen 1 = 1" by simp
  have e0: "max (int L - int (bitlen 1) - 53) (-1074) = int L - 54" using L b1 by simp
  have "2 ^ (L - 1) * 2 ^ (54 - L) \<le> n * 2 ^ (54 - L)"
    using n by (intro mult_right_mono) auto
  moreover have "(2::nat) ^ (L - 1) * 2 ^ (54 - L) = 2 ^ 53"
    using L by (simp flip: power_add)
  ultimately have big: "2 ^ 53 \<le> n * 2 ^ (54 - L)" by linarith
  have "n * 2 ^ (53 - L) < 2 ^ L * 2 ^ (53 - L)" using n by simp
  moreover have "(2::nat) ^ L * 2 ^ (53 - L) = 2 ^ 53" using L by (simp flip: power_add)
  ultimately have small: "n * 2 ^ (53 - L) \<noteq> 2 ^ 53" by simp
  have s0: "scale2 n 1 (int L - 54) = (n * 2 ^ (54 - L), 1)"
    using L by (simp add: scale2_def nat_diff_distrib)
  have s1: "scale2 n 1 (int L - 53) = (n * 2 ^ (53 - L), 1)"
    using L by (cases "L = 53") (simp_all add: scale2_def nat_diff_distrib)
  show ?thesis
    using assms L big small
    unfolding dbl_of_frac_def L_def [symmetric] e0 Let_def s0
    by (simp add: s1 [simplified])
qed

lemma dbl_of_int_frac:
  assumes "\<bar>i\<bar> < 2 ^ 53"
  shows "\<exists>s m e d. dbl_of_int i = Fin s m e \<and> dbl_frac (Fin s m e) = (i * int d, d) \<and> 0 < d"
proof (cases "i = 0")
  case True
  then show ?thesis
    by (intro exI [of _ False] exI [of _ 0] exI [of _ "-1074"] exI [of _ "2 ^ 1074"])
      (simp add: dbl_of_int_def dbl_of_frac_def)
next
  case False
  define n where "n = nat \<bar>i\<bar>"
  have n: "0 < n" "n < 2 ^ 53" using False assms by (auto simp: n_def)
  have L: "bitlen n \<le> 53" using n by (simp add: bitlen_le)
  have i: "i = (if i < 0 then -1 else 1) * int n" by (simp add: n_def)
  show ?thesis
    using dbl_of_frac_nat [OF n, of "i < 0"] L i
    by (intro exI [of _ "i < 0"] exI [of _ "n * 2 ^ (53 - bitlen n)"] exI [of _ "int (bitlen n) - 53"]
        exI [of _ "2 ^ (53 - bitlen n)"])
      (auto simp: dbl_of_int_def n_def nat_diff_distrib)
qed

lemma dbl_le_int [simp]:
  assumes "\<bar>i\<bar> < 2 ^ 53" "\<bar>j\<bar> < 2 ^ 53"
  shows "dbl_le (dbl_of_int i) (dbl_of_int j) \<longleftrightarrow> i \<le> j"
proof -
  obtain s m e d where i: "dbl_of_int i = Fin s m e" "dbl_frac (Fin s m e) = (i * int d, d)" "0 < d"
    using dbl_of_int_frac [OF assms(1)] by blast
  obtain t n f c where j: "dbl_of_int j = Fin t n f" "dbl_frac (Fin t n f) = (j * int c, c)" "0 < c"
    using dbl_of_int_frac [OF assms(2)] by blast
  have "i * int d * int c \<le> j * int c * int d \<longleftrightarrow> i * (int d * int c) \<le> j * (int d * int c)"
    by (simp add: mult.commute mult.left_commute)
  also have "\<dots> \<longleftrightarrow> i \<le> j" using i(3) j(3) by (simp add: mult_le_cancel_right mult_less_0_iff)
  finally show ?thesis using i j by (simp add: frac_le_def)
qed

lemma dbl_eq_int [simp]:
  "\<bar>i\<bar> < 2 ^ 53 \<Longrightarrow> \<bar>j\<bar> < 2 ^ 53 \<Longrightarrow> dbl_eq (dbl_of_int i) (dbl_of_int j) \<longleftrightarrow> i = j"
  by (auto simp: dbl_eq_def)

lemma dbl_trunc_int [simp]:
  assumes "\<bar>i\<bar> < 2 ^ 53"
  shows "dbl_trunc (dbl_of_int i) = i"
proof -
  obtain s m e d where i: "dbl_of_int i = Fin s m e" "dbl_frac (Fin s m e) = (i * int d, d)" "0 < d"
    using dbl_of_int_frac [OF assms] by blast
  then show ?thesis by (simp add: dbl_trunc_def abs_mult sgn_mult sgn_mult_abs)
qed

lemma dbl_of_int_finite [simp]:
  assumes "\<bar>i\<bar> < 2 ^ 53"
  shows "\<not> is_nan (dbl_of_int i)" "\<not> is_inf (dbl_of_int i)" "dbl_of_int i \<noteq> NaN"
  using dbl_of_int_frac [OF assms] by auto

section \<open>Reading back a printed integer\<close>

lemma digits_of_show [simp]: "digits_of (show_nat n) = (show_nat n, [])"
  using show_nat_digits [of _ n] by (auto simp: digits_of_def takeWhile_eq_all_conv)

lemma show_nat_hd_not_sign: "hd (show_nat n) \<noteq> CHR ''-''" "hd (show_nat n) \<noteq> CHR ''+''"
  using show_nat_hd_digit [of n] by (auto simp: is_digit_def)

lemma strtod_show_int:
  assumes "\<bar>i\<bar> < 2 ^ 53"
  shows "strtod (show_int i) = (dbl_of_int i, length (show_int i))"
proof -
  have "dbl_of_dec (i < 0) (nat \<bar>i\<bar>) 0 = dbl_of_int i"
    by (simp add: dbl_of_dec_def dbl_of_int_def dbl_of_frac_def)
  then show ?thesis
    by (auto simp: strtod_def show_int_def show_nat_hd_not_sign exp_part_def)
qed

end
