(* ===== verification/CJson.thy ===== *)
theory CJson
  imports CDouble
begin

unbundle bit_operations_syntax

text \<open>
  The data of \<^verbatim>\<open>cJSON.c\<close>: an item as a record of its scalar fields and the list of its
  children, the allocator hooks with a count of live blocks, allocation and deletion, the
  type tests, the number setters. A \<open>NULL\<close> item is \<open>None\<close>; a \<open>char *\<close> field holds the bytes
  of its block before the final NUL, and a reader sees \<open>cstr\<close> of them.
\<close>

section \<open>Items\<close>

definition cJSON_Invalid :: int32 where "cJSON_Invalid = 0"
definition cJSON_False :: int32 where "cJSON_False = 1"
definition cJSON_True :: int32 where "cJSON_True = 2"
definition cJSON_NULL :: int32 where "cJSON_NULL = 4"
definition cJSON_Number :: int32 where "cJSON_Number = 8"
definition cJSON_String :: int32 where "cJSON_String = 16"
definition cJSON_Array :: int32 where "cJSON_Array = 32"
definition cJSON_Object :: int32 where "cJSON_Object = 64"
definition cJSON_Raw :: int32 where "cJSON_Raw = 128"
definition cJSON_IsReference :: int32 where "cJSON_IsReference = 256"
definition cJSON_StringIsConst :: int32 where "cJSON_StringIsConst = 512"

lemmas json_types =
  cJSON_Invalid_def cJSON_False_def cJSON_True_def cJSON_NULL_def cJSON_Number_def
  cJSON_String_def cJSON_Array_def cJSON_Object_def cJSON_Raw_def
  cJSON_IsReference_def cJSON_StringIsConst_def

definition CJSON_NESTING_LIMIT :: nat where "CJSON_NESTING_LIMIT = 1000"
definition CJSON_CIRCULAR_LIMIT :: nat where "CJSON_CIRCULAR_LIMIT = 10000"

record node =
  jtype :: int32
  valuestring :: "string option"
  valueint :: int
  valuedouble :: dbl
  jstring :: "string option"

datatype CJSON = CJSON (info: node) (child: "CJSON list")

definition dzero :: dbl where "dzero = Fin False 0 (-1074)"

definition node0 :: node where
  "node0 = \<lparr>jtype = 0, valuestring = None, valueint = 0, valuedouble = dzero, jstring = None\<rparr>"

section \<open>Allocation\<close>

text \<open>
  The hooks: which functions are installed, and the state of the allocator behind them. The
  \<open>k\<close>-th allocation succeeds when \<open>avail k\<close>; \<open>live\<close> counts the blocks allocated and not yet
  freed; fresh memory holds \<open>garbage\<close>.
\<close>

datatype allocator = Libc | Custom nat

record hooks =
  alloc_fn :: allocator
  free_fn :: allocator
  has_realloc :: bool
  avail :: "nat \<Rightarrow> bool"
  calls :: nat
  live :: int
  garbage :: "nat \<Rightarrow> char"

definition cJSON_InitHooks :: "(allocator option \<times> allocator option) option \<Rightarrow> hooks \<Rightarrow> hooks" where
  "cJSON_InitHooks hs h =
     (case hs of
        None \<Rightarrow> h\<lparr>alloc_fn := Libc, free_fn := Libc, has_realloc := True\<rparr>
      | Some (m, f) \<Rightarrow>
          (let a = (case m of None \<Rightarrow> Libc | Some x \<Rightarrow> x);
               d = (case f of None \<Rightarrow> Libc | Some x \<Rightarrow> x)
           in h\<lparr>alloc_fn := a, free_fn := d, has_realloc := (a = Libc \<and> d = Libc)\<rparr>))"

definition allocate :: "hooks \<Rightarrow> bool \<times> hooks" where
  "allocate h =
     (if avail h (calls h) then (True, h\<lparr>calls := calls h + 1, live := live h + 1\<rparr>)
      else (False, h\<lparr>calls := calls h + 1\<rparr>))"

definition deallocate :: "hooks \<Rightarrow> hooks" where
  "deallocate h = h\<lparr>live := live h - 1\<rparr>"

definition cJSON_New_Item :: "hooks \<Rightarrow> CJSON option \<times> hooks" where
  "cJSON_New_Item h =
     (case allocate h of
        (True, h') \<Rightarrow> (Some (CJSON node0 []), h')
      | (False, h') \<Rightarrow> (None, h'))"

definition cJSON_strdup :: "string option \<Rightarrow> hooks \<Rightarrow> string option \<times> hooks" where
  "cJSON_strdup s h =
     (case s of
        None \<Rightarrow> (None, h)
      | Some t \<Rightarrow>
          (case allocate h of
             (True, h') \<Rightarrow> (Some (cstr t), h')
           | (False, h') \<Rightarrow> (None, h')))"

definition is_reference :: "node \<Rightarrow> bool" where
  "is_reference n \<longleftrightarrow> jtype n AND cJSON_IsReference \<noteq> 0"

definition has_const_key :: "node \<Rightarrow> bool" where
  "has_const_key n \<longleftrightarrow> jtype n AND cJSON_StringIsConst \<noteq> 0"

text \<open>\<open>cJSON_Delete\<close> walks the chain of items it is given.\<close>

fun cJSON_Delete :: "CJSON list \<Rightarrow> hooks \<Rightarrow> hooks" where
  "cJSON_Delete [] h = h"
| "cJSON_Delete (CJSON n ch # items) h =
     (let h1 = (if \<not> is_reference n \<and> ch \<noteq> [] then cJSON_Delete ch h else h);
          h2 = (if \<not> is_reference n \<and> valuestring n \<noteq> None then deallocate h1 else h1);
          h3 = (if \<not> has_const_key n \<and> jstring n \<noteq> None then deallocate h2 else h2)
      in cJSON_Delete items (deallocate h3))"

text \<open>The blocks an item owns.\<close>

definition node_blocks :: "node \<Rightarrow> nat" where
  "node_blocks n = 1 + (if \<not> is_reference n \<and> valuestring n \<noteq> None then 1 else 0) +
     (if \<not> has_const_key n \<and> jstring n \<noteq> None then 1 else 0)"

fun blocks :: "CJSON \<Rightarrow> nat" where
  "blocks (CJSON n ch) = node_blocks n + (if is_reference n then 0 else sum_list (map blocks ch))"

definition blocks_list :: "CJSON list \<Rightarrow> nat" where
  "blocks_list items = sum_list (map blocks items)"

lemma blocks_list_simps [simp]:
  "blocks_list [] = 0"
  "blocks_list (x # xs) = blocks x + blocks_list xs"
  "blocks_list (xs @ ys) = blocks_list xs + blocks_list ys"
  by (simp_all add: blocks_list_def)

lemma blocks_CJSON [simp]:
  "blocks (CJSON n ch) = node_blocks n + (if is_reference n then 0 else blocks_list ch)"
  by (simp add: blocks_list_def)

declare blocks.simps [simp del]

lemma cJSON_Delete_live [simp]:
  "cJSON_Delete items h = h\<lparr>live := live h - int (blocks_list items)\<rparr>"
  by (induction items h rule: cJSON_Delete.induct)
    (auto simp: deallocate_def node_blocks_def Let_def)

section \<open>Type tests and accessors\<close>

definition type_is :: "int32 \<Rightarrow> CJSON option \<Rightarrow> bool" where
  "type_is t item = (case item of None \<Rightarrow> False | Some i \<Rightarrow> jtype (info i) AND 0xFF = t)"

definition cJSON_IsInvalid :: "CJSON option \<Rightarrow> bool" where "cJSON_IsInvalid = type_is cJSON_Invalid"
definition cJSON_IsFalse :: "CJSON option \<Rightarrow> bool" where "cJSON_IsFalse = type_is cJSON_False"
definition cJSON_IsTrue :: "CJSON option \<Rightarrow> bool" where "cJSON_IsTrue = type_is cJSON_True"
definition cJSON_IsNull :: "CJSON option \<Rightarrow> bool" where "cJSON_IsNull = type_is cJSON_NULL"
definition cJSON_IsNumber :: "CJSON option \<Rightarrow> bool" where "cJSON_IsNumber = type_is cJSON_Number"
definition cJSON_IsString :: "CJSON option \<Rightarrow> bool" where "cJSON_IsString = type_is cJSON_String"
definition cJSON_IsArray :: "CJSON option \<Rightarrow> bool" where "cJSON_IsArray = type_is cJSON_Array"
definition cJSON_IsObject :: "CJSON option \<Rightarrow> bool" where "cJSON_IsObject = type_is cJSON_Object"
definition cJSON_IsRaw :: "CJSON option \<Rightarrow> bool" where "cJSON_IsRaw = type_is cJSON_Raw"

definition cJSON_IsBool :: "CJSON option \<Rightarrow> bool" where
  "cJSON_IsBool item =
     (case item of None \<Rightarrow> False
      | Some i \<Rightarrow> jtype (info i) AND (cJSON_True OR cJSON_False) \<noteq> 0)"

definition cJSON_GetStringValue :: "CJSON option \<Rightarrow> string option" where
  "cJSON_GetStringValue item =
     (case item of None \<Rightarrow> None
      | Some i \<Rightarrow> if \<not> cJSON_IsString item then None else valuestring (info i))"

definition cJSON_GetNumberValue :: "CJSON option \<Rightarrow> dbl" where
  "cJSON_GetNumberValue item =
     (case item of None \<Rightarrow> NaN
      | Some i \<Rightarrow> if \<not> cJSON_IsNumber item then NaN else valuedouble (info i))"

section \<open>Numbers and strings of an item\<close>

text \<open>
  The integer beside a number: saturated. \<open>None\<close> is the conversion of NaN, which C leaves
  undefined.
\<close>

definition saturate :: "dbl \<Rightarrow> int option" where
  "saturate d =
     (if dbl_le (dbl_of_int INT_MAX) d then Some INT_MAX
      else if dbl_le d (dbl_of_int INT_MIN) then Some INT_MIN
      else if is_nan d then None
      else Some (dbl_trunc d))"

definition cJSON_SetNumberHelper :: "CJSON \<Rightarrow> dbl \<Rightarrow> (dbl \<times> CJSON) option" where
  "cJSON_SetNumberHelper item d =
     (case saturate d of
        None \<Rightarrow> None
      | Some i \<Rightarrow> Some (d, CJSON ((info item)\<lparr>valueint := i, valuedouble := d\<rparr>) (child item)))"

text \<open>
  \<open>cJSON_SetValuestring\<close>; \<open>overlap\<close> is the pointer test, whether the new text lies inside the
  old block. The result is whether a pointer is returned, and the item and hooks after.
\<close>

definition cJSON_SetValuestring ::
    "CJSON option \<Rightarrow> string option \<Rightarrow> bool \<Rightarrow> hooks \<Rightarrow> bool \<times> CJSON option \<times> hooks" where
  "cJSON_SetValuestring obj new overlap h =
     (case obj of
        None \<Rightarrow> (False, obj, h)
      | Some item \<Rightarrow>
          if jtype (info item) AND cJSON_String = 0 \<or> is_reference (info item) then (False, obj, h)
          else case (valuestring (info item), new) of
            (Some old, Some s) \<Rightarrow>
              if length (cstr s) \<le> length (cstr old) then
                if overlap then (False, obj, h)
                else (True, Some (CJSON ((info item)\<lparr>valuestring := Some (cstr s)\<rparr>) (child item)), h)
              else
                (case cJSON_strdup (Some s) h of
                   (None, h') \<Rightarrow> (False, obj, h')
                 | (Some c, h') \<Rightarrow>
                     (True, Some (CJSON ((info item)\<lparr>valuestring := Some c\<rparr>) (child item)),
                      deallocate h'))
          | _ \<Rightarrow> (False, obj, h))"

section \<open>Saturation\<close>

lemma frac_le_total: "frac_le x y \<or> frac_le y x"
  by (auto simp: frac_le_def)

lemma snd_dbl_frac_pos [simp]: "0 < snd (dbl_frac x)"
  by (cases x) auto

lemma saturate_int:
  assumes "in_int32 i"
  shows "saturate (dbl_of_int i) = Some i"
proof -
  have "\<bar>i\<bar> < 2 ^ 53" "INT_MIN \<le> i" "i \<le> INT_MAX"
    using assms by (auto simp: in_int32_def INT_MAX_def INT_MIN_def)
  then show ?thesis by (simp add: saturate_def INT_MAX_def INT_MIN_def)
qed

lemma int_div_less: "n < u * d \<Longrightarrow> 0 < d \<Longrightarrow> n div d < (u::int)"
proof (rule ccontr)
  assume "n < u * d" "0 < d" "\<not> n div d < u"
  then have "u * d \<le> n div d * d" by (intro mult_right_mono) auto
  also have "\<dots> \<le> n"
    using div_mult_mod_eq [of n d] pos_mod_sign [OF \<open>0 < d\<close>, of n] by linarith
  finally show False using \<open>n < u * d\<close> by simp
qed

lemma trunc_bounds:
  assumes "0 < d" "\<not> l * int d \<ge> n" "\<not> n \<ge> u * int d" "l < 0" "0 < u"
  shows "l \<le> sgn n * (\<bar>n\<bar> div int d) \<and> sgn n * (\<bar>n\<bar> div int d) \<le> u"
proof (cases "0 \<le> n")
  case True
  then have "sgn n * (\<bar>n\<bar> div int d) = n div int d" by (cases "n = 0") auto
  moreover have "0 \<le> n div int d" using True assms(1) by (simp add: pos_imp_zdiv_nonneg_iff)
  moreover have "n div int d < u"
    using assms(1,3) by (intro int_div_less) auto
  ultimately show ?thesis using assms by simp
next
  case False
  then have eq: "sgn n * (\<bar>n\<bar> div int d) = - ((- n) div int d)" by simp
  have "0 \<le> (- n) div int d" using False assms(1) by (simp add: pos_imp_zdiv_nonneg_iff)
  moreover have "(- n) div int d < - l"
    using assms(1,2) by (intro int_div_less) auto
  ultimately show ?thesis using eq assms by simp
qed

lemma saturate_in_int32:
  assumes "saturate d = Some i"
  shows "in_int32 i"
proof -
  have fin: "\<exists>s m e c. dbl_of_int k = Fin s m e \<and> dbl_frac (Fin s m e) = (k * int c, c) \<and> 0 < c"
    if "k = INT_MAX \<or> k = INT_MIN" for k
    using that by (intro dbl_of_int_frac) (auto simp: INT_MAX_def INT_MIN_def)
  obtain s m e c where u: "dbl_of_int INT_MAX = Fin s m e"
      "dbl_frac (Fin s m e) = (INT_MAX * int c, c)" "0 < c"
    using fin [of INT_MAX] by auto
  obtain t n f b where l: "dbl_of_int INT_MIN = Fin t n f"
      "dbl_frac (Fin t n f) = (INT_MIN * int b, b)" "0 < b"
    using fin [of INT_MIN] by auto
  show ?thesis
  proof (cases d)
    case (Fin z k g)
    define N where "N = fst (dbl_frac (Fin z k g))"
    define D where "D = snd (dbl_frac (Fin z k g))"
    have nd: "dbl_frac (Fin z k g) = (N, D)" and D: "0 < D" by (simp_all add: N_def D_def del: dbl_frac.simps)
    show ?thesis
    proof (cases "dbl_le (dbl_of_int INT_MAX) d \<or> dbl_le d (dbl_of_int INT_MIN)")
      case True
      then show ?thesis using assms by (auto simp: saturate_def c_ints split: if_splits)
    next
      case False
      then have "\<not> INT_MAX * int c * int D \<le> N * int c" "\<not> N * int b \<le> INT_MIN * int b * int D"
        using u l nd Fin by (auto simp: frac_le_def simp del: dbl_frac.simps)
      then have "\<not> (INT_MAX * int D) * int c \<le> N * int c" "\<not> N * int b \<le> (INT_MIN * int D) * int b"
        by (simp_all add: mult_ac)
      then have "\<not> INT_MAX * int D \<le> N" "\<not> N \<le> INT_MIN * int D"
        using u(3) l(3) by (simp_all add: mult_le_cancel_right mult_less_0_iff)
      then have "INT_MIN \<le> sgn N * (\<bar>N\<bar> div int D) \<and> sgn N * (\<bar>N\<bar> div int D) \<le> INT_MAX"
        using D by (intro trunc_bounds) (auto simp: INT_MAX_def INT_MIN_def)
      then show ?thesis
        using assms False nd Fin by (auto simp: saturate_def in_int32_def dbl_trunc_def simp del: dbl_frac.simps split: if_splits)
    qed
  qed (use assms u l in \<open>auto simp: saturate_def c_ints split: if_splits\<close>)
qed

end
