(* ===== verification/JString.thy ===== *)
theory JString
  imports CJson
begin

text \<open>
  String literals of \<^verbatim>\<open>cJSON.c\<close>: the hexadecimal escape, UTF-16 to UTF-8, the scan for
  the closing quote with its estimate of the output, and the unescaping pass that writes into
  a block of that size. Pointers are indices into the input; a read outside the input or a
  write outside the block is a fault value.
\<close>

section \<open>Model\<close>

definition rd :: "string \<Rightarrow> nat \<Rightarrow> char option" where
  "rd c i = (if i < length c then Some (c ! i) else None)"

definition hex_digit :: "char \<Rightarrow> nat option" where
  "hex_digit ch =
     (let b = byte ch
      in if 48 \<le> b \<and> b \<le> 57 then Some (b - 48)
         else if 65 \<le> b \<and> b \<le> 70 then Some (10 + b - 65)
         else if 97 \<le> b \<and> b \<le> 102 then Some (10 + b - 97)
         else None)"

text \<open>\<open>None\<close> is a read outside the input; an invalid digit gives 0, as in the code.\<close>

function hex4_loop :: "string \<Rightarrow> nat \<Rightarrow> nat \<Rightarrow> nat \<Rightarrow> nat option" where
  "hex4_loop c p i h =
     (if i < 4 then
        (case rd c (p + i) of
           None \<Rightarrow> None
         | Some ch \<Rightarrow>
             (case hex_digit ch of
                None \<Rightarrow> Some 0
              | Some v \<Rightarrow> hex4_loop c p (i + 1) (if i < 3 then push_bit 4 (h + v) else h + v)))
      else Some h)"
  by pat_completeness auto
termination by (relation "measure (\<lambda>(c, p, i, h). 4 - i)") auto

declare hex4_loop.simps [simp del]

definition parse_hex4 :: "string \<Rightarrow> nat \<Rightarrow> nat option" where
  "parse_hex4 c p = hex4_loop c p 0 0"

text \<open>The continuation bytes, written from the last to the second.\<close>

fun utf8_tail :: "nat \<Rightarrow> nat \<Rightarrow> string \<Rightarrow> nat \<times> string" where
  "utf8_tail 0 cp acc = (cp, acc)"
| "utf8_tail (Suc k) cp acc =
     utf8_tail k (drop_bit 6 cp) (char_of ((cp OR 0x80) AND 0xBF) # acc)"

definition utf8_bytes :: "nat \<Rightarrow> nat \<Rightarrow> nat \<Rightarrow> string" where
  "utf8_bytes len mark cp =
     (let (cp', tl) = utf8_tail (len - 1) cp []
      in char_of (if 1 < len then (cp' OR mark) AND 0xFF else cp' AND 0x7F) # tl)"

definition utf8_encode :: "nat \<Rightarrow> string option" where
  "utf8_encode cp =
     (if cp < 0x80 then Some (utf8_bytes 1 0 cp)
      else if cp < 0x800 then Some (utf8_bytes 2 0xC0 cp)
      else if cp < 0x10000 then Some (utf8_bytes 3 0xE0 cp)
      else if cp \<le> 0x10FFFF then Some (utf8_bytes 4 0xF0 cp)
      else None)"

datatype utf_res = UFault | UFail | UOk nat string

definition utf16_finish :: "nat \<Rightarrow> nat \<Rightarrow> utf_res" where
  "utf16_finish len cp = (case utf8_encode cp of None \<Rightarrow> UFail | Some bs \<Rightarrow> UOk len bs)"

definition utf16_literal_to_utf8 :: "string \<Rightarrow> nat \<Rightarrow> nat \<Rightarrow> utf_res" where
  "utf16_literal_to_utf8 c ip ie =
     (if ie - ip < 6 then UFail
      else case parse_hex4 c (ip + 2) of
        None \<Rightarrow> UFault
      | Some first \<Rightarrow>
          if 0xDC00 \<le> first \<and> first \<le> 0xDFFF then UFail
          else if 0xD800 \<le> first \<and> first \<le> 0xDBFF then
            let snd_seq = ip + 6
            in if ie < snd_seq + 6 then UFail
               else (case (rd c snd_seq, rd c (snd_seq + 1)) of
                 (Some b, Some u) \<Rightarrow>
                   if b \<noteq> CHR 0x5C \<or> u \<noteq> CHR ''u'' then UFail
                   else (case parse_hex4 c (snd_seq + 2) of
                      None \<Rightarrow> UFault
                    | Some second \<Rightarrow>
                        if second < 0xDC00 \<or> 0xDFFF < second then UFail
                        else utf16_finish 12
                               (0x10000 + (push_bit 10 (first AND 0x3FF) OR (second AND 0x3FF))))
               | _ \<Rightarrow> UFault)
          else utf16_finish 6 first)"

text \<open>The scan for the closing quote: its index and the escapes skipped on the way.\<close>

datatype scan_res = ScanFault | ScanFail | Found nat nat

function scan_string :: "string \<Rightarrow> nat \<Rightarrow> nat \<Rightarrow> nat \<Rightarrow> scan_res" where
  "scan_string c len i sk =
     (if i < len then
        (case rd c i of
           None \<Rightarrow> ScanFault
         | Some ch \<Rightarrow>
             if ch = CHR 0x22 then Found i sk
             else if ch = CHR 0x5C then
               if len \<le> i + 1 then ScanFail else scan_string c len (i + 2) (sk + 1)
             else scan_string c len (i + 1) sk)
      else ScanFail)"
  by pat_completeness auto
termination by (relation "measure (\<lambda>(c, len, i, sk). len - i)") auto

declare scan_string.simps [simp del]

definition simple_escape :: "char \<Rightarrow> char option" where
  "simple_escape e =
     (if e = CHR ''b'' then Some (CHR 0x08)
      else if e = CHR ''f'' then Some (CHR 0x0C)
      else if e = CHR ''n'' then Some (CHR 0x0A)
      else if e = CHR ''r'' then Some (CHR 0x0D)
      else if e = CHR ''t'' then Some (CHR 0x09)
      else if e = CHR 0x22 \<or> e = CHR 0x5C \<or> e = CHR ''/'' then Some e
      else None)"

text \<open>A failure carries the input pointer; \<open>cp\<close> is the size of the output block.\<close>

datatype str_res = SFault | SFail nat | SOk string

lemma utf16_advances: "utf16_literal_to_utf8 c ip ie = UOk n bs \<Longrightarrow> n = 6 \<or> n = 12"
  by (auto simp: utf16_literal_to_utf8_def utf16_finish_def Let_def
      split: if_splits option.splits)

function unescape :: "string \<Rightarrow> nat \<Rightarrow> nat \<Rightarrow> nat \<Rightarrow> string \<Rightarrow> str_res" where
  "unescape c ie cp ip out =
     (if ip < ie then
        (case rd c ip of
           None \<Rightarrow> SFault
         | Some ch \<Rightarrow>
             if ch \<noteq> CHR 0x5C then
               if length out < cp then unescape c ie cp (ip + 1) (out @ [ch]) else SFault
             else
               (case rd c (ip + 1) of
                  None \<Rightarrow> SFault
                | Some e \<Rightarrow>
                    if e = CHR ''u'' then
                      (case utf16_literal_to_utf8 c ip ie of
                         UFault \<Rightarrow> SFault
                       | UFail \<Rightarrow> SFail ip
                       | UOk n bs \<Rightarrow>
                           if length out + length bs \<le> cp then unescape c ie cp (ip + n) (out @ bs)
                           else SFault)
                    else
                      (case simple_escape e of
                         None \<Rightarrow> SFail ip
                       | Some x \<Rightarrow>
                           if length out < cp then unescape c ie cp (ip + 2) (out @ [x])
                           else SFault)))
      else if length out < cp then SOk out else SFault)"
  by pat_completeness auto
termination
  by (relation "measure (\<lambda>(c, ie, cp, ip, out). ie - ip)") (auto dest: utf16_advances)

declare unescape.simps [simp del]

section \<open>UTF-8\<close>

lemma or_push_bit: "cp < (2::nat) ^ k \<Longrightarrow> cp OR push_bit k a = push_bit k a + cp"
proof -
  assume cp: "cp < 2 ^ k"
  then have t: "take_bit k cp = cp" by (simp add: take_bit_nat_eq_self)
  have "push_bit k a + take_bit k cp = push_bit k a OR take_bit k cp"
    by (rule disjunctive_add) (auto simp: bit_simps)
  then show ?thesis by (simp add: t or.commute)
qed

lemma and_255: "(n::nat) AND 255 = n mod 256"
  using take_bit_eq_mask [of 8 n] by (simp add: take_bit_eq_mod mask_eq_exp_minus_1)

lemma and_127: "(n::nat) AND 127 = n mod 128"
  using take_bit_eq_mask [of 7 n] by (simp add: take_bit_eq_mod mask_eq_exp_minus_1)

lemma and_1023: "(n::nat) AND 1023 = n mod 1024"
  using take_bit_eq_mask [of 10 n] by (simp add: take_bit_eq_mod mask_eq_exp_minus_1)

lemma cont_byte: "((cp::nat) OR 128) AND 191 = 128 + cp mod 64"
proof -
  have b: "bit (128::nat) n \<longleftrightarrow> n = 7" for n
    using bit_exp_iff [where 'a = nat, of 7 n] by simp
  have m: "(191::nat) = mask 6 OR 128" by (simp add: mask_eq_exp_minus_1)
  have c: "bit (191::nat) n \<longleftrightarrow> n < 6 \<or> n = 7" for n
    by (subst m) (auto simp: bit_simps b)
  have "128 + cp mod 64 = take_bit 6 cp OR push_bit 7 1"
    using or_push_bit [of "take_bit 6 cp" 7 1] by (simp add: take_bit_eq_mod)
  also have "\<dots> = (cp OR 128) AND 191"
    by (rule bit_eqI) (auto simp: bit_simps b c)
  finally show ?thesis by simp
qed

lemma lead_bytes:
  "cp < 32 \<Longrightarrow> ((cp::nat) OR 192) AND 255 = 192 + cp"
  "cp < 16 \<Longrightarrow> ((cp::nat) OR 224) AND 255 = 224 + cp"
  "cp < 8 \<Longrightarrow> ((cp::nat) OR 240) AND 255 = 240 + cp"
  using or_push_bit [of cp 5 6] or_push_bit [of cp 4 14] or_push_bit [of cp 3 30]
  by (simp_all add: and_255)

text \<open>The bytes, arithmetically.\<close>

lemma utf8_encode_simps:
  "cp < 0x80 \<Longrightarrow> utf8_encode cp = Some [char_of cp]"
  "0x80 \<le> cp \<Longrightarrow> cp < 0x800 \<Longrightarrow>
     utf8_encode cp = Some [char_of (192 + cp div 64), char_of (128 + cp mod 64)]"
  "0x800 \<le> cp \<Longrightarrow> cp < 0x10000 \<Longrightarrow>
     utf8_encode cp = Some [char_of (224 + cp div 4096), char_of (128 + cp div 64 mod 64),
       char_of (128 + cp mod 64)]"
  "0x10000 \<le> cp \<Longrightarrow> cp \<le> 0x10FFFF \<Longrightarrow>
     utf8_encode cp = Some [char_of (240 + cp div 262144), char_of (128 + cp div 4096 mod 64),
       char_of (128 + cp div 64 mod 64), char_of (128 + cp mod 64)]"
proof -
  have n: "numeral k - 1 = pred_numeral k" for k by simp
  have d: "drop_bit 6 m = m div 64" for m :: nat by (simp add: drop_bit_eq_div)
  have l: "cp div 64 < 32" if "cp < 0x800" using that by simp
  have l': "cp div 64 div 64 < 16" if "cp < 0x10000" using that by (simp add: div_mult2_eq [symmetric])
  have l'': "cp div 64 div 64 div 64 < 8" if "cp \<le> 0x10FFFF"
    using that by (simp add: div_mult2_eq [symmetric])
  show "cp < 0x80 \<Longrightarrow> utf8_encode cp = Some [char_of cp]"
    by (simp add: utf8_encode_def utf8_bytes_def and_127)
  show "0x80 \<le> cp \<Longrightarrow> cp < 0x800 \<Longrightarrow>
     utf8_encode cp = Some [char_of (192 + cp div 64), char_of (128 + cp mod 64)]"
    by (simp add: utf8_encode_def utf8_bytes_def cont_byte d lead_bytes(1) l numeral_eq_Suc [of "num.One"])
  show "0x800 \<le> cp \<Longrightarrow> cp < 0x10000 \<Longrightarrow>
     utf8_encode cp = Some [char_of (224 + cp div 4096), char_of (128 + cp div 64 mod 64),
       char_of (128 + cp mod 64)]"
    using l' by (simp add: utf8_encode_def utf8_bytes_def cont_byte d lead_bytes(2) numeral_2_eq_2
        div_mult2_eq [symmetric])
  show "0x10000 \<le> cp \<Longrightarrow> cp \<le> 0x10FFFF \<Longrightarrow>
     utf8_encode cp = Some [char_of (240 + cp div 262144), char_of (128 + cp div 4096 mod 64),
       char_of (128 + cp div 64 mod 64), char_of (128 + cp mod 64)]"
    using l'' by (simp add: utf8_encode_def utf8_bytes_def cont_byte d lead_bytes(3) numeral_3_eq_3
        div_mult2_eq [symmetric])
qed

section \<open>Memory safety of the two passes\<close>

text \<open>
  The first pass counts tokens: a character, or a backslash with the character after it. The
  count from a position on does not grow with the position, even into the middle of an escape,
  where the second pass can land after a malformed \<^verbatim>\<open>\\u\<close>.
\<close>

function toks :: "string \<Rightarrow> nat \<Rightarrow> nat \<Rightarrow> nat" where
  "toks c ie i =
     (if i < ie then 1 + toks c ie (i + (if c ! i = CHR 0x5C then 2 else 1)) else 0)"
  by pat_completeness auto
termination by (relation "measure (\<lambda>(c, ie, i). ie - i)") auto

declare toks.simps [simp del]

lemma toks_mono1: "toks c ie (Suc i) \<le> toks c ie i \<and> toks c ie i \<le> Suc (toks c ie (Suc i))"
proof (induction "ie - i" arbitrary: i rule: less_induct)
  case less
  show ?case
  proof (cases "Suc i < ie")
    case False
    then show ?thesis by (simp add: toks.simps [of c ie])
  next
    case True
    then have "toks c ie (Suc (Suc i)) \<le> toks c ie (Suc i)"
        "toks c ie (Suc i) \<le> Suc (toks c ie (Suc (Suc i)))"
      using less [of "Suc i"] by simp_all
    then show ?thesis using True by (simp add: toks.simps [of c ie i])
  qed
qed

lemma toks_antimono: "i \<le> j \<Longrightarrow> toks c ie j \<le> toks c ie i"
  by (rule lift_Suc_antimono_le [of "toks c ie"]) (simp_all add: toks_mono1)

lemma toks_step:
  "i < ie \<Longrightarrow> toks c ie i = Suc (toks c ie (i + (if c ! i = CHR 0x5C then 2 else 1)))"
  by (simp add: toks.simps [of c ie i])

lemma scan_string_toks:
  "scan_string c len i sk = Found ie sk' \<Longrightarrow>
     i \<le> ie \<and> ie < len \<and> ie < length c \<and> c ! ie = CHR 0x22 \<and> sk \<le> sk' \<and> toks c ie i + (sk' - sk) = ie - i"
proof (induction c len i sk rule: scan_string.induct)
  case (1 c len i sk)
  have "i < len" using "1.prems" by (simp add: scan_string.simps [of c len i] split: if_splits)
  then obtain ch where ch: "rd c i = Some ch" "i < length c" "ch = c ! i"
    using "1.prems" by (auto simp: scan_string.simps [of c len i] rd_def split: if_splits)
  consider "ch = CHR 0x22" | "ch = CHR 0x5C" | "ch \<noteq> CHR 0x22" "ch \<noteq> CHR 0x5C" by blast
  then show ?case
  proof cases
    case 1
    then show ?thesis
      using "1.prems" ch \<open>i < len\<close> by (auto simp: scan_string.simps [of c len i] toks.simps [of c ie])
  next
    case 2
    then have "i + 1 < len" and r: "scan_string c len (i + 2) (sk + 1) = Found ie sk'"
      using "1.prems" ch \<open>i < len\<close> by (auto simp: scan_string.simps [of c len i] split: if_splits)
    then have IH: "i + 2 \<le> ie \<and> ie < len \<and> ie < length c \<and> c ! ie = CHR 0x22 \<and> sk + 1 \<le> sk' \<and>
        toks c ie (i + 2) + (sk' - (sk + 1)) = ie - (i + 2)"
      using "1.IH"(1) [OF \<open>i < len\<close> ch(1)] 2 by auto
    then have "toks c ie i = Suc (toks c ie (i + 2))" using 2 ch by (subst toks_step) auto
    then show ?thesis using IH by auto
  next
    case 3
    then have r: "scan_string c len (i + 1) sk = Found ie sk'"
      using "1.prems" ch \<open>i < len\<close> by (auto simp: scan_string.simps [of c len i])
    then have IH: "i + 1 \<le> ie \<and> ie < len \<and> ie < length c \<and> c ! ie = CHR 0x22 \<and> sk \<le> sk' \<and>
        toks c ie (i + 1) + (sk' - sk) = ie - (i + 1)"
      using "1.IH"(2) [OF \<open>i < len\<close> ch(1)] 3 by auto
    then have "toks c ie i = Suc (toks c ie (i + 1))" using 3 ch by (subst toks_step) auto
    then show ?thesis using IH by auto
  qed
qed

lemma scan_string_safe: "len \<le> length c \<Longrightarrow> scan_string c len i sk \<noteq> ScanFault"
proof (induction c len i sk rule: scan_string.induct)
  case (1 c len i sk)
  then show ?case by (auto simp: scan_string.simps [of c len i] rd_def)
qed

text \<open>A code unit above ASCII needs four hexadecimal digits, none of them a backslash.\<close>

lemma hex_digit_not_backslash: "hex_digit ch = Some v \<Longrightarrow> ch \<noteq> CHR 0x5C \<and> v < 16"
  by (auto simp: hex_digit_def Let_def split: if_splits)

lemma hex4_unfold:
  "parse_hex4 c p =
     (case rd c p of None \<Rightarrow> None | Some c0 \<Rightarrow>
     (case hex_digit c0 of None \<Rightarrow> Some 0 | Some v0 \<Rightarrow>
     (case rd c (p + 1) of None \<Rightarrow> None | Some c1 \<Rightarrow>
     (case hex_digit c1 of None \<Rightarrow> Some 0 | Some v1 \<Rightarrow>
     (case rd c (p + 2) of None \<Rightarrow> None | Some c2 \<Rightarrow>
     (case hex_digit c2 of None \<Rightarrow> Some 0 | Some v2 \<Rightarrow>
     (case rd c (p + 3) of None \<Rightarrow> None | Some c3 \<Rightarrow>
     (case hex_digit c3 of None \<Rightarrow> Some 0 | Some v3 \<Rightarrow>
        Some (((v0 * 16 + v1) * 16 + v2) * 16 + v3)))))))))"
  by (simp add: parse_hex4_def hex4_loop.simps push_bit_eq_mult add_mult_distrib
      numeral_2_eq_2 [symmetric] numeral_3_eq_3 [symmetric] algebra_simps
      cong: option.case_cong)

lemma hex4_safe: "p + 3 < length c \<Longrightarrow> parse_hex4 c p \<noteq> None"
  by (simp add: hex4_unfold rd_def split: option.split)

lemma hex4_bound: "parse_hex4 c p = Some v \<Longrightarrow> v < 65536"
  by (auto simp: hex4_unfold split: option.splits dest!: hex_digit_not_backslash)

lemma hex4_no_backslash:
  "parse_hex4 c p = Some v \<Longrightarrow> v \<noteq> 0 \<Longrightarrow>
     c ! p \<noteq> CHR 0x5C \<and> c ! (p + 1) \<noteq> CHR 0x5C \<and> c ! (p + 2) \<noteq> CHR 0x5C \<and> c ! (p + 3) \<noteq> CHR 0x5C"
  by (auto simp: hex4_unfold rd_def split: option.splits if_splits dest!: hex_digit_not_backslash)

lemma toks_unit:
  assumes "parse_hex4 c (ip + 2) = Some v" "v \<noteq> 0" "c ! ip = CHR 0x5C" "ip + 6 \<le> ie"
  shows "toks c ie ip = 5 + toks c ie (ip + 6)"
proof -
  have n: "c ! (ip + 2) \<noteq> CHR 0x5C" "c ! (ip + 3) \<noteq> CHR 0x5C" "c ! (ip + 4) \<noteq> CHR 0x5C"
    "c ! (ip + 5) \<noteq> CHR 0x5C"
    using hex4_no_backslash [OF assms(1,2)] by (simp_all add: numeral_eq_Suc)
  have s: "toks c ie j = 1 + toks c ie k" if "j < ie" "c ! j \<noteq> CHR 0x5C" "k = j + 1" for j k
    using that by (simp add: toks_step)
  have "toks c ie ip = 1 + toks c ie (ip + 2)" using assms by (simp add: toks_step)
  also have "toks c ie (ip + 2) = 1 + toks c ie (ip + 3)" using assms n by (intro s) auto
  also have "toks c ie (ip + 3) = 1 + toks c ie (ip + 4)" using assms n by (intro s) auto
  also have "toks c ie (ip + 4) = 1 + toks c ie (ip + 5)" using assms n by (intro s) auto
  also have "toks c ie (ip + 5) = 1 + toks c ie (ip + 6)" using assms n by (intro s) auto
  finally show ?thesis by simp
qed

lemma utf8_encode_length:
  "utf8_encode cp = Some bs \<Longrightarrow>
     length bs \<le> 4 \<and> (cp < 0x10000 \<longrightarrow> length bs \<le> 3) \<and> (cp = 0 \<longrightarrow> length bs = 1)"
  by (cases "cp < 0x80"; cases "cp < 0x800"; cases "cp < 0x10000"; cases "cp \<le> 0x10FFFF")
    (auto simp: utf8_encode_simps, auto simp: utf8_encode_def)

lemma utf16_toks:
  assumes "utf16_literal_to_utf8 c ip ie = UOk n bs" "c ! ip = CHR 0x5C"
  shows "length bs + toks c ie (ip + n) \<le> toks c ie ip"
proof -
  have i6: "ip + 6 \<le> ie" using assms(1) by (auto simp: utf16_literal_to_utf8_def split: if_splits)
  obtain v where v: "parse_hex4 c (ip + 2) = Some v"
    using assms(1) by (auto simp: utf16_literal_to_utf8_def split: if_splits option.splits)
  have mono: "toks c ie (ip + 12) \<le> toks c ie (ip + 6)" "toks c ie (ip + 6) \<le> toks c ie (ip + 2)"
    by (simp_all add: toks_antimono)
  show ?thesis
  proof (cases "0xD800 \<le> v \<and> v \<le> 0xDBFF")
    case True
    then have "n = 12" "length bs \<le> 4"
      using assms(1) v by (auto simp: utf16_literal_to_utf8_def utf16_finish_def Let_def
          split: if_splits option.splits dest: utf8_encode_length)
    moreover have "toks c ie ip = 5 + toks c ie (ip + 6)"
      using True v assms(2) i6 by (intro toks_unit) auto
    ultimately show ?thesis using mono by simp
  next
    case False
    then have e: "utf8_encode v = Some bs" and n: "n = 6"
      using assms(1) v by (auto simp: utf16_literal_to_utf8_def utf16_finish_def Let_def
          split: if_splits option.splits)
    show ?thesis
    proof (cases "v = 0")
      case True
      then have "length bs = 1" using utf8_encode_length [OF e] by simp
      moreover have "toks c ie ip = 1 + toks c ie (ip + 2)" using assms i6 by (simp add: toks_step)
      ultimately show ?thesis using mono n by simp
    next
      case False
      then have "toks c ie ip = 5 + toks c ie (ip + 6)" using v assms(2) i6 by (intro toks_unit) auto
      then show ?thesis using utf8_encode_length [OF e] hex4_bound [OF v] n by simp
    qed
  qed
qed

lemma utf16_safe:
  assumes "ie < length c"
  shows "utf16_literal_to_utf8 c ip ie \<noteq> UFault"
proof (cases "ie - ip < 6")
  case False
  then have "ip + 2 + 3 < length c" using assms by linarith
  then obtain v where v: "parse_hex4 c (ip + 2) = Some v"
    using hex4_safe [of "ip + 2" c] by blast
  show ?thesis
  proof (cases "ie < ip + 12")
    case False
    then have "ip + 8 + 3 < length c" using assms by linarith
    then obtain w where "parse_hex4 c (ip + 8) = Some w"
      using hex4_safe [of "ip + 8" c] by blast
    then show ?thesis
      using v False assms by (auto simp: utf16_literal_to_utf8_def utf16_finish_def rd_def Let_def
          add.commute split: option.split)
  qed (use v in \<open>auto simp: utf16_literal_to_utf8_def utf16_finish_def Let_def split: option.split\<close>)
qed (simp add: utf16_literal_to_utf8_def)

text \<open>
  The second pass neither reads outside the input nor writes outside a block that has room for
  one byte per token and the NUL.
\<close>

lemma unescape_safe:
  assumes "ie < length c" "length out + toks c ie ip < cp"
  shows "(case unescape c ie cp ip out of SFault \<Rightarrow> False | SFail p \<Rightarrow> ip \<le> p \<and> p < ie | SOk r \<Rightarrow> length r < cp)"
  using assms
proof (induction c ie cp ip out rule: unescape.induct)
  case (1 c ie cp ip out)
  show ?case
  proof (cases "ip < ie")
    case False
    then show ?thesis using "1.prems" by (simp add: unescape.simps [of c ie cp ip])
  next
    case True
    then have ch: "rd c ip = Some (c ! ip)" and e: "rd c (ip + 1) = Some (c ! (ip + 1))"
      using "1.prems" by (simp_all add: rd_def)
    note step = unescape.simps [of c ie cp ip out]
    note tk = toks_step [OF True, of c]
    have mono: "(case unescape c ie cp ip' out' of SFault \<Rightarrow> False | SFail p \<Rightarrow> ip \<le> p \<and> p < ie | SOk r \<Rightarrow> length r < cp)"
      if "(case unescape c ie cp ip' out' of SFault \<Rightarrow> False | SFail p \<Rightarrow> ip' \<le> p \<and> p < ie | SOk r \<Rightarrow> length r < cp)"
        "ip \<le> ip'" for ip' out'
      using that by (auto split: str_res.splits)
    consider "c ! ip \<noteq> CHR 0x5C" | "c ! ip = CHR 0x5C" "c ! (ip + 1) \<noteq> CHR ''u''"
      | "c ! ip = CHR 0x5C" "c ! (ip + 1) = CHR ''u''" by blast
    then show ?thesis
    proof cases
      case 1
      then show ?thesis
        using "1.prems" True ch tk mono [OF "1.IH"(1) [OF True ch]] by (simp add: step)
    next
      case 2
      then show ?thesis
        using "1.prems" True ch e tk mono [OF "1.IH"(3) [OF True ch _ e]]
        by (cases "simple_escape (c ! (ip + 1))") (simp_all add: step)
    next
      case 3
      show ?thesis
      proof (cases "utf16_literal_to_utf8 c ip ie")
        case UFault
        then show ?thesis using utf16_safe [OF "1.prems"(1)] by simp
      next
        case UFail
        then show ?thesis using 3 True ch e by (simp add: step)
      next
        case (UOk n bs)
        then show ?thesis
          using "1.prems" True ch e 3 utf16_toks [OF UOk 3(1)] mono [OF "1.IH"(2) [OF True ch _ e _ UOk]]
          by (simp add: step)
      qed
    qed
  qed
qed

section \<open>Escapes and code points\<close>

definition hex_char :: "nat \<Rightarrow> char" where
  "hex_char v = char_of (if v < 10 then 48 + v else 87 + v)"

definition hex4_text :: "nat \<Rightarrow> string" where
  "hex4_text v =
     [hex_char (v div 4096 mod 16), hex_char (v div 256 mod 16), hex_char (v div 16 mod 16), hex_char (v mod 16)]"

definition json_unit :: "nat \<Rightarrow> string" where
  "json_unit v = [CHR 0x5C, CHR ''u''] @ hex4_text v"

text \<open>A code point as JSON escapes it: one UTF-16 unit or a surrogate pair.\<close>

definition json_literal :: "nat \<Rightarrow> string" where
  "json_literal cp =
     (if cp < 0x10000 then json_unit cp
      else json_unit (0xD800 + (cp - 0x10000) div 1024) @ json_unit (0xDC00 + (cp - 0x10000) mod 1024))"

text \<open>The decoder of RFC 3629 for one code point; overlong forms are no code point.\<close>

definition cont :: "char \<Rightarrow> bool" where
  "cont b \<longleftrightarrow> 128 \<le> byte b \<and> byte b < 192"

fun utf8_decode :: "string \<Rightarrow> nat option" where
  "utf8_decode [a] = (if byte a < 128 then Some (byte a) else None)"
| "utf8_decode [a, b] =
     (let v = (byte a - 192) * 64 + (byte b - 128)
      in if 192 \<le> byte a \<and> byte a < 224 \<and> cont b \<and> 0x80 \<le> v then Some v else None)"
| "utf8_decode [a, b, c] =
     (let v = (byte a - 224) * 4096 + (byte b - 128) * 64 + (byte c - 128)
      in if 224 \<le> byte a \<and> byte a < 240 \<and> cont b \<and> cont c \<and> 0x800 \<le> v then Some v else None)"
| "utf8_decode [a, b, c, d] =
     (let v = (byte a - 240) * 262144 + (byte b - 128) * 4096 + (byte c - 128) * 64 + (byte d - 128)
      in if 240 \<le> byte a \<and> byte a < 248 \<and> cont b \<and> cont c \<and> cont d \<and> 0x10000 \<le> v \<and> v \<le> 0x10FFFF
         then Some v else None)"
| "utf8_decode _ = None"

lemma hex_digit_char [simp]: "v < 16 \<Longrightarrow> hex_digit (hex_char v) = Some v"
  by (auto simp: hex_digit_def hex_char_def Let_def of_char_of)

lemma rd_append: "rd (pre @ s) (length pre + k) = rd s k"
  by (simp add: rd_def nth_append)

lemma rd_Cons [simp]: "rd (x # s) 0 = Some x" "rd (x # s) (Suc k) = rd s k"
  by (simp_all add: rd_def)

lemma rd_append_at [simp]:
  "rd (pre @ s) (length pre) = rd s 0"
  "rd (pre @ s) (Suc (length pre)) = rd s 1"
  "rd (pre @ s) (Suc (Suc (length pre))) = rd s 2"
  "rd (pre @ s) (Suc (Suc (Suc (length pre)))) = rd s 3"
  "rd (pre @ s) (length pre + numeral k) = rd s (numeral k)"
  using rd_append [of pre s] rd_append [of pre s 0] rd_append [of pre s 1] rd_append [of pre s 2]
    rd_append [of pre s 3]
  by (simp_all add: numeral_2_eq_2 numeral_3_eq_3)

lemma split_64:
  fixes n :: nat
  shows "n div 64 * 64 + n mod 64 = n" "n div 4096 = n div 64 div 64" "n div 262144 = n div 64 div 64 div 64"
  by (simp_all flip: div_mult2_eq)

lemma parse_hex4_text:
  "v < 65536 \<Longrightarrow> parse_hex4 (pre @ hex4_text v @ post) (length pre) = Some v"
proof -
  assume v: "v < 65536"
  have d: "v div 256 = v div 16 div 16" "v div 4096 = v div 16 div 16 div 16"
    by (simp_all flip: div_mult2_eq)
  have "v div 4096 mod 16 = v div 4096" using v by simp
  moreover have "v div 4096 < 16" using v by simp
  moreover have "v div 16 div 16 div 16 < 16" using v by (simp flip: div_mult2_eq)
  then have "(((v div 4096 mod 16) * 16 + v div 256 mod 16) * 16 + v div 16 mod 16) * 16 + v mod 16 = v"
    by (simp add: d)
  ultimately show ?thesis
    by (simp add: hex4_unfold hex4_text_def numeral_2_eq_2 numeral_3_eq_3)
qed

lemma parse_hex4_unit:
  assumes "v < 65536"
  shows "parse_hex4 (pre @ json_unit v @ post) (length pre + 2) = Some v"
  using parse_hex4_text [OF assms, of "pre @ [CHR 0x5C, CHR ''u'']" post]
  by (simp add: json_unit_def numeral_2_eq_2)

lemma length_json_unit [simp]: "length (json_unit v) = 6"
  by (simp add: json_unit_def hex4_text_def)

lemma utf8_roundtrip: "cp \<le> 0x10FFFF \<Longrightarrow> \<exists>bs. utf8_encode cp = Some bs \<and> utf8_decode bs = Some cp"
proof -
  assume cp: "cp \<le> 0x10FFFF"
  have m: "byte (char_of (128 + n mod 64)) = 128 + n mod 64" "cont (char_of (128 + n mod 64))" for n :: nat
    by (simp_all add: of_char_of cont_def)
  consider "cp < 0x80" | "0x80 \<le> cp" "cp < 0x800" | "0x800 \<le> cp" "cp < 0x10000" | "0x10000 \<le> cp"
    by linarith
  then show ?thesis
  proof cases
    case 1
    then show ?thesis by (simp add: utf8_encode_simps of_char_of)
  next
    case 2
    then have "cp div 64 < 32" "cp div 64 * 64 + cp mod 64 = cp" by simp_all
    then show ?thesis using 2 m [of cp] by (simp add: utf8_encode_simps of_char_of)
  next
    case 3
    then have "cp div 4096 < 16" by simp
    moreover have "cp div 4096 * 4096 + cp div 64 mod 64 * 64 + cp mod 64 = cp"
      using split_64(1) [of cp] split_64(1) [of "cp div 64"] split_64(2) [of cp] by linarith
    ultimately show ?thesis using 3 m [of cp] m [of "cp div 64"] by (simp add: utf8_encode_simps of_char_of)
  next
    case 4
    have "cp div 262144 < 8" using cp by simp
    moreover have
      "cp div 262144 * 262144 + cp div 4096 mod 64 * 4096 + cp div 64 mod 64 * 64 + cp mod 64 = cp"
      unfolding split_64(2,3) [of cp]
      using split_64(1) [of cp] split_64(1) [of "cp div 64"] split_64(1) [of "cp div 64 div 64"]
      by linarith
    ultimately show ?thesis
      using 4 cp m [of cp] m [of "cp div 64"] m [of "cp div 4096"]
      by (simp add: utf8_encode_simps of_char_of)
  qed
qed

lemma surrogate_join:
  assumes "a < 1024" "b < 1024"
  shows "push_bit 10 ((0xD800 + a) AND 0x3FF) OR ((0xDC00 + b) AND 0x3FF) = a * 1024 + (b::nat)"
proof -
  have "(0xD800 + a) AND 0x3FF = a" "(0xDC00 + b) AND 0x3FF = b"
    using assms by (simp_all add: and_1023 mod_add_left_eq [symmetric, of 55296] mod_add_left_eq [symmetric, of 56320])
  then show ?thesis
    using or_push_bit [of b 10 a] assms by (simp add: push_bit_eq_mult or.commute)
qed

text \<open>
  every code point that is not a surrogate, escaped as JSON escapes it, is read back as
  UTF-8 that decodes to the same code point, and exactly the escape is consumed.
\<close>

theorem utf16_literal_roundtrip:
  assumes "cp \<le> 0x10FFFF" "\<not> (0xD800 \<le> cp \<and> cp \<le> 0xDFFF)"
    and "ie = length pre + length (json_literal cp) + k"
  shows "\<exists>bs. utf16_literal_to_utf8 (pre @ json_literal cp @ post) (length pre) ie =
                UOk (length (json_literal cp)) bs \<and> utf8_decode bs = Some cp"
proof -
  obtain bs where bs: "utf8_encode cp = Some bs" "utf8_decode bs = Some cp"
    using utf8_roundtrip [OF assms(1)] by blast
  show ?thesis
  proof (cases "cp < 0x10000")
    case True
    then have "parse_hex4 (pre @ json_literal cp @ post) (length pre + 2) = Some cp"
      using parse_hex4_unit [of cp pre post] by (simp add: json_literal_def)
    then show ?thesis
      using True assms bs by (auto simp: utf16_literal_to_utf8_def utf16_finish_def json_literal_def)
  next
    case False
    define a b where "a = (cp - 0x10000) div 1024" and "b = (cp - 0x10000) mod 1024"
    have ab: "a < 1024" "b < 1024" "0x10000 + (a * 1024 + b) = cp"
      using assms False by (auto simp: a_def b_def)
    have lit: "json_literal cp = json_unit (0xD800 + a) @ json_unit (0xDC00 + b)"
      using False by (simp add: json_literal_def a_def b_def)
    have h1: "parse_hex4 (pre @ json_literal cp @ post) (length pre + 2) = Some (0xD800 + a)"
      using ab using parse_hex4_unit [of "0xD800 + a" pre] by (simp add: lit)
    have h2: "parse_hex4 (pre @ json_literal cp @ post) (length pre + 6 + 2) = Some (0xDC00 + b)"
      using parse_hex4_unit [of "0xDC00 + b" "pre @ json_unit (0xD800 + a)" post] ab by (simp add: lit)
    have r: "rd (pre @ json_literal cp @ post) (length pre + 6) = Some (CHR 0x5C)"
      "rd (pre @ json_literal cp @ post) (length pre + 6 + 1) = Some (CHR ''u'')"
      by (simp_all add: lit rd_def nth_append json_unit_def hex4_text_def)
    have "0x10000 + (push_bit 10 ((0xD800 + a) AND 0x3FF) OR ((0xDC00 + b) AND 0x3FF)) = cp"
      using surrogate_join [OF ab(1,2)] ab(3) by simp
    then show ?thesis
      using ab bs h1 h2 r assms(3)
      by (simp add: utf16_literal_to_utf8_def Let_def utf16_finish_def) (simp add: lit)
  qed
qed

theorem utf16_literal_roundtrip_witness:
  "\<exists>bs. utf16_literal_to_utf8 ([CHR 0x22] @ json_literal 0x1F69B @ [CHR 0x22]) 1 13 =
      UOk (length (json_literal 0x1F69B)) bs \<and> utf8_decode bs = Some 0x1F69B"
  using utf16_literal_roundtrip [where cp = "0x1F69B" and ie = "13" and pre = "[CHR 0x22]" and k = "0" and post = "[CHR 0x22]"]
  by (simp add: json_literal_def)

end
