(* ===== verification/JParse.thy ===== *)
theory JParse
  imports JString
begin

text \<open>
  The parser of \<^verbatim>\<open>cJSON.c\<close> over its buffer record, with every read checked against the
  input. A result is a success, a failure with the buffer as it is left, a fault (a read or
  write out of bounds, or undefined arithmetic), or lack of fuel. The theorem on
  \<open>parse_value\<close> excludes faults, and lack of fuel from \<open>3 * blen + 3\<close> on.
\<close>

section \<open>Buffer and results\<close>

record parse_buffer =
  content :: string
  blen :: nat
  offset :: nat
  depth :: nat
  hk :: hooks

datatype 'a pres = POk 'a parse_buffer | PFail parse_buffer | PFault | PFuel

definition pbind :: "'a pres \<Rightarrow> ('a \<Rightarrow> parse_buffer \<Rightarrow> 'b pres) \<Rightarrow> 'b pres" where
  "pbind m f =
     (case m of POk x b \<Rightarrow> f x b | PFail b \<Rightarrow> PFail b | PFault \<Rightarrow> PFault | PFuel \<Rightarrow> PFuel)"

text \<open>What a \<^verbatim>\<open>goto fail\<close> does on the way out.\<close>

definition pfailing :: "'a pres \<Rightarrow> (parse_buffer \<Rightarrow> parse_buffer) \<Rightarrow> 'a pres" where
  "pfailing m g = (case m of PFail b \<Rightarrow> PFail (g b) | r \<Rightarrow> r)"

definition can_read :: "parse_buffer \<Rightarrow> nat \<Rightarrow> bool" where
  "can_read b n \<longleftrightarrow> offset b + n \<le> blen b"

definition can_access :: "parse_buffer \<Rightarrow> nat \<Rightarrow> bool" where
  "can_access b i \<longleftrightarrow> offset b + i < blen b"

definition advance :: "nat \<Rightarrow> parse_buffer \<Rightarrow> parse_buffer" where
  "advance n b = b\<lparr>offset := offset b + n\<rparr>"

definition step_back :: "parse_buffer \<Rightarrow> parse_buffer" where
  "step_back b = b\<lparr>offset := offset b - 1\<rparr>"

text \<open>\<open>can_access_at_index(b, 0) && P(buffer_at_offset(b)[0])\<close>\<close>

definition next_sat :: "(char \<Rightarrow> bool) \<Rightarrow> parse_buffer \<Rightarrow> bool pres" where
  "next_sat P b =
     (if can_access b 0 then
        (case rd (content b) (offset b) of None \<Rightarrow> PFault | Some ch \<Rightarrow> POk (P ch) b)
      else POk False b)"

definition next_is :: "char \<Rightarrow> parse_buffer \<Rightarrow> bool pres" where
  "next_is ch = next_sat (\<lambda>x. x = ch)"

text \<open>\<open>can_read(b, strlen(s)) && strncmp(buffer_at_offset(b), s, strlen(s)) == 0\<close>\<close>

definition literal :: "string \<Rightarrow> parse_buffer \<Rightarrow> bool pres" where
  "literal s b =
     (if can_read b (length s) then
        (case strncmp_eq (drop (offset b) (content b)) s (length s) of
           None \<Rightarrow> PFault | Some r \<Rightarrow> POk r b)
      else POk False b)"

function skip_loop :: "string \<Rightarrow> nat \<Rightarrow> nat \<Rightarrow> nat option" where
  "skip_loop c len i =
     (if i < len then
        (case rd c i of None \<Rightarrow> None | Some ch \<Rightarrow> if byte ch \<le> 32 then skip_loop c len (i + 1) else Some i)
      else Some i)"
  by pat_completeness auto
termination by (relation "measure (\<lambda>(c, len, i). len - i)") auto

declare skip_loop.simps [simp del]

definition buffer_skip_whitespace :: "parse_buffer \<Rightarrow> unit pres" where
  "buffer_skip_whitespace b =
     (if \<not> can_access b 0 then POk () b
      else case skip_loop (content b) (blen b) (offset b) of
        None \<Rightarrow> PFault
      | Some i \<Rightarrow> POk () (b\<lparr>offset := (if i = blen b then i - 1 else i)\<rparr>))"

text \<open>The byte order mark; \<open>False\<close> is the \<open>NULL\<close> of a buffer that is not at its start.\<close>

definition skip_utf8_bom :: "parse_buffer \<Rightarrow> bool pres" where
  "skip_utf8_bom b =
     (if offset b \<noteq> 0 then POk False b
      else if can_access b 4 then
        (case strncmp_eq (content b) [CHR 0xEF, CHR 0xBB, CHR 0xBF] 3 of
           None \<Rightarrow> PFault
         | Some r \<Rightarrow> POk True (if r then advance 3 b else b))
      else POk True b)"

section \<open>Scalars\<close>

definition new_item :: "parse_buffer \<Rightarrow> CJSON pres" where
  "new_item b =
     (case cJSON_New_Item (hk b) of
        (Some it, h) \<Rightarrow> POk it (b\<lparr>hk := h\<rparr>)
      | (None, h) \<Rightarrow> PFail (b\<lparr>hk := h\<rparr>))"

definition delete_all :: "CJSON list \<Rightarrow> parse_buffer \<Rightarrow> parse_buffer" where
  "delete_all items b = b\<lparr>hk := cJSON_Delete items (hk b)\<rparr>"

definition set_info :: "(node \<Rightarrow> node) \<Rightarrow> CJSON \<Rightarrow> CJSON" where
  "set_info f it = CJSON (f (info it)) (child it)"

definition number_char :: "char \<Rightarrow> bool" where
  "number_char ch \<longleftrightarrow>
     is_digit ch \<or> ch = CHR ''+'' \<or> ch = CHR ''-'' \<or> ch = CHR ''e'' \<or> ch = CHR ''E'' \<or> ch = CHR ''.''"

text \<open>The copy into \<open>number_c_string\<close>, at most 63 characters.\<close>

function number_copy :: "string \<Rightarrow> nat \<Rightarrow> nat \<Rightarrow> nat \<Rightarrow> string \<Rightarrow> string option" where
  "number_copy c len off i acc =
     (if i < 63 \<and> off + i < len then
        (case rd c (off + i) of
           None \<Rightarrow> None
         | Some ch \<Rightarrow> if number_char ch then number_copy c len off (i + 1) (acc @ [ch]) else Some acc)
      else Some acc)"
  by pat_completeness auto
termination by (relation "measure (\<lambda>(c, len, off, i, acc). 63 - i)") auto

declare number_copy.simps [simp del]

definition parse_number :: "CJSON \<Rightarrow> parse_buffer \<Rightarrow> CJSON pres" where
  "parse_number it b =
     (case number_copy (content b) (blen b) (offset b) 0 [] of
        None \<Rightarrow> PFault
      | Some s \<Rightarrow>
          (let (d, n) = strtod s
           in if n = 0 then PFail b
              else case saturate d of
                None \<Rightarrow> PFault
              | Some i \<Rightarrow>
                  POk (set_info (\<lambda>x. x\<lparr>valuedouble := d, valueint := i, jtype := cJSON_Number\<rparr>) it)
                    (advance n b)))"

definition parse_string :: "CJSON \<Rightarrow> parse_buffer \<Rightarrow> CJSON pres" where
  "parse_string it b =
     (case rd (content b) (offset b) of
        None \<Rightarrow> PFault
      | Some q \<Rightarrow>
          if q \<noteq> CHR 0x22 then PFail (advance 1 b)
          else case scan_string (content b) (blen b) (offset b + 1) 0 of
            ScanFault \<Rightarrow> PFault
          | ScanFail \<Rightarrow> PFail (advance 1 b)
          | Found ie sk \<Rightarrow>
              (case allocate (hk b) of
                 (False, h) \<Rightarrow> PFail ((advance 1 b)\<lparr>hk := h\<rparr>)
               | (True, h) \<Rightarrow>
                   (case unescape (content b) ie (ie - offset b - sk + 1) (offset b + 1) [] of
                      SFault \<Rightarrow> PFault
                    | SFail p \<Rightarrow> PFail (b\<lparr>offset := p, hk := deallocate h\<rparr>)
                    | SOk s \<Rightarrow>
                        POk (set_info (\<lambda>x. x\<lparr>jtype := cJSON_String, valuestring := Some s\<rparr>) it)
                          (b\<lparr>offset := ie + 1, hk := h\<rparr>))))"

section \<open>Values, arrays and objects\<close>

text \<open>Moving the parsed name from \<open>valuestring\<close> to \<open>string\<close>.\<close>

definition swap_name :: "CJSON \<Rightarrow> CJSON" where
  "swap_name = set_info (\<lambda>x. x\<lparr>jstring := valuestring x, valuestring := None\<rparr>)"

definition set_children :: "int32 \<Rightarrow> CJSON list \<Rightarrow> CJSON \<Rightarrow> CJSON" where
  "set_children t items it = CJSON ((info it)\<lparr>jtype := t\<rparr>) items"

definition close_buffer :: "parse_buffer \<Rightarrow> parse_buffer" where
  "close_buffer b = b\<lparr>depth := depth b - 1, offset := offset b + 1\<rparr>"

fun parse_value :: "nat \<Rightarrow> CJSON \<Rightarrow> parse_buffer \<Rightarrow> CJSON pres"
  and parse_array :: "nat \<Rightarrow> CJSON \<Rightarrow> parse_buffer \<Rightarrow> CJSON pres"
  and parse_elems :: "nat \<Rightarrow> CJSON list \<Rightarrow> parse_buffer \<Rightarrow> CJSON list pres"
  and parse_object :: "nat \<Rightarrow> CJSON \<Rightarrow> parse_buffer \<Rightarrow> CJSON pres"
  and parse_members :: "nat \<Rightarrow> CJSON list \<Rightarrow> parse_buffer \<Rightarrow> CJSON list pres"
where
  "parse_value 0 it b = PFuel"
| "parse_value (Suc n) it b =
     pbind (literal ''null'' b) (\<lambda>y b.
     if y then POk (set_info (\<lambda>x. x\<lparr>jtype := cJSON_NULL\<rparr>) it) (advance 4 b) else
     pbind (literal ''false'' b) (\<lambda>y b.
     if y then POk (set_info (\<lambda>x. x\<lparr>jtype := cJSON_False\<rparr>) it) (advance 5 b) else
     pbind (literal ''true'' b) (\<lambda>y b.
     if y then POk (set_info (\<lambda>x. x\<lparr>jtype := cJSON_True, valueint := 1\<rparr>) it) (advance 4 b) else
     pbind (next_is (CHR 0x22) b) (\<lambda>y b.
     if y then parse_string it b else
     pbind (next_sat (\<lambda>ch. ch = CHR ''-'' \<or> is_digit ch) b) (\<lambda>y b.
     if y then parse_number it b else
     pbind (next_is (CHR ''['') b) (\<lambda>y b.
     if y then parse_array n it b else
     pbind (next_is (CHR ''{'') b) (\<lambda>y b.
     if y then parse_object n it b else PFail b)))))))"
| "parse_array 0 it b = PFuel"
| "parse_array (Suc n) it b =
     (if CJSON_NESTING_LIMIT \<le> depth b then PFail b else
      let b = b\<lparr>depth := depth b + 1\<rparr> in
      case rd (content b) (offset b) of
        None \<Rightarrow> PFault
      | Some ch \<Rightarrow>
          if ch \<noteq> CHR ''['' then PFail b else
          pbind (buffer_skip_whitespace (advance 1 b)) (\<lambda>_ b.
          pbind (next_is (CHR '']'') b) (\<lambda>y b.
          if y then POk (set_children cJSON_Array [] it) (close_buffer b)
          else if \<not> can_access b 0 then PFail (step_back b) else
          pbind (parse_elems n [] (step_back b)) (\<lambda>items b.
          pbind (next_is (CHR '']'') b) (\<lambda>y b.
          if y then POk (set_children cJSON_Array items it) (close_buffer b)
          else PFail (delete_all items b))))))"
| "parse_elems 0 items b = PFuel"
| "parse_elems (Suc n) items b =
     pbind (pfailing (new_item b) (delete_all items)) (\<lambda>it b.
     pbind (buffer_skip_whitespace (advance 1 b)) (\<lambda>_ b.
     pbind (pfailing (parse_value n it b) (delete_all (items @ [it]))) (\<lambda>it b.
     pbind (buffer_skip_whitespace b) (\<lambda>_ b.
     pbind (next_is (CHR '','') b) (\<lambda>more b.
     if more then parse_elems n (items @ [it]) b else POk (items @ [it]) b)))))"
| "parse_object 0 it b = PFuel"
| "parse_object (Suc n) it b =
     (if CJSON_NESTING_LIMIT \<le> depth b then PFail b else
      let b = b\<lparr>depth := depth b + 1\<rparr> in
      pbind (next_is (CHR ''{'') b) (\<lambda>y b.
      if \<not> y then PFail b else
      pbind (buffer_skip_whitespace (advance 1 b)) (\<lambda>_ b.
      pbind (next_is (CHR ''}'') b) (\<lambda>y b.
      if y then POk (set_children cJSON_Object [] it) (close_buffer b)
      else if \<not> can_access b 0 then PFail (step_back b) else
      pbind (parse_members n [] (step_back b)) (\<lambda>items b.
      pbind (next_is (CHR ''}'') b) (\<lambda>y b.
      if y then POk (set_children cJSON_Object items it) (close_buffer b)
      else PFail (delete_all items b)))))))"
| "parse_members 0 items b = PFuel"
| "parse_members (Suc n) items b =
     pbind (pfailing (new_item b) (delete_all items)) (\<lambda>it b.
     if \<not> can_access b 1 then PFail (delete_all (items @ [it]) b) else
     pbind (buffer_skip_whitespace (advance 1 b)) (\<lambda>_ b.
     pbind (pfailing (parse_string it b) (delete_all (items @ [it]))) (\<lambda>it b.
     pbind (buffer_skip_whitespace b) (\<lambda>_ b.
     let it = swap_name it in
     pbind (next_is (CHR '':'') b) (\<lambda>y b.
     if \<not> y then PFail (delete_all (items @ [it]) b) else
     pbind (buffer_skip_whitespace (advance 1 b)) (\<lambda>_ b.
     pbind (pfailing (parse_value n it b) (delete_all (items @ [it]))) (\<lambda>it b.
     pbind (buffer_skip_whitespace b) (\<lambda>_ b.
     pbind (next_is (CHR '','') b) (\<lambda>more b.
     if more then parse_members n (items @ [it]) b else POk (items @ [it]) b)))))))))"

declare parse_value.simps [simp del] parse_array.simps [simp del] parse_elems.simps [simp del]
  parse_object.simps [simp del] parse_members.simps [simp del]

section \<open>Entry points\<close>

definition parse_fuel :: "nat \<Rightarrow> nat" where "parse_fuel len = 3 * len + 3"

text \<open>
  What a call gives: the item or \<open>NULL\<close>, the position stored in \<open>global_error\<close> when it
  fails, the position handed back through \<open>return_parse_end\<close>, and the hooks.
\<close>

record parse_out =
  p_item :: "CJSON option"
  p_error :: "nat option"
  p_end :: nat
  p_hooks :: hooks

datatype call_res = Returned parse_out | Crashed | OutOfFuel

definition parse_failed :: "CJSON option \<Rightarrow> parse_buffer \<Rightarrow> call_res" where
  "parse_failed it b =
     (let h = (case it of None \<Rightarrow> hk b | Some i \<Rightarrow> cJSON_Delete [i] (hk b));
          pos = (if offset b < blen b then offset b else if 0 < blen b then blen b - 1 else 0)
      in Returned \<lparr>p_item = None, p_error = Some pos, p_end = pos, p_hooks = h\<rparr>)"

definition parse_done :: "CJSON \<Rightarrow> parse_buffer \<Rightarrow> call_res" where
  "parse_done it b = Returned \<lparr>p_item = Some it, p_error = None, p_end = offset b, p_hooks = hk b\<rparr>"

definition check_end :: "bool \<Rightarrow> CJSON \<Rightarrow> parse_buffer \<Rightarrow> call_res" where
  "check_end req_nul it b =
     (if \<not> req_nul then parse_done it b
      else case pbind (buffer_skip_whitespace b) (\<lambda>_. next_is NUL) of
        POk y b \<Rightarrow> if y then parse_done it b else parse_failed (Some it) b
      | PFail b \<Rightarrow> parse_failed (Some it) b
      | PFault \<Rightarrow> Crashed
      | PFuel \<Rightarrow> OutOfFuel)"

definition cJSON_ParseWithLengthOpts :: "string option \<Rightarrow> nat \<Rightarrow> bool \<Rightarrow> hooks \<Rightarrow> call_res" where
  "cJSON_ParseWithLengthOpts val len req_nul h =
     (case val of
        None \<Rightarrow> Returned \<lparr>p_item = None, p_error = None, p_end = 0, p_hooks = h\<rparr>
      | Some c \<Rightarrow>
          if len = 0 then
            parse_failed None \<lparr>content = c, blen = 0, offset = 0, depth = 0, hk = h\<rparr>
          else case new_item \<lparr>content = c, blen = len, offset = 0, depth = 0, hk = h\<rparr> of
              PFail b \<Rightarrow> parse_failed None b
            | PFault \<Rightarrow> Crashed
            | PFuel \<Rightarrow> OutOfFuel
            | POk it b \<Rightarrow>
                (case pbind (skip_utf8_bom b) (\<lambda>ok b.
                        if \<not> ok then PFail b else
                        pbind (buffer_skip_whitespace b) (\<lambda>_. parse_value (parse_fuel len) it)) of
                   POk it' b \<Rightarrow> check_end req_nul it' b
                 | PFail b \<Rightarrow> parse_failed (Some it) b
                 | PFault \<Rightarrow> Crashed
                 | PFuel \<Rightarrow> OutOfFuel))"

definition cJSON_ParseWithOpts :: "string option \<Rightarrow> bool \<Rightarrow> hooks \<Rightarrow> call_res" where
  "cJSON_ParseWithOpts val req_nul h =
     (case val of
        None \<Rightarrow> Returned \<lparr>p_item = None, p_error = None, p_end = 0, p_hooks = h\<rparr>
      | Some c \<Rightarrow> cJSON_ParseWithLengthOpts val (length (cstr c) + 1) req_nul h)"

definition cJSON_Parse :: "string option \<Rightarrow> hooks \<Rightarrow> call_res" where
  "cJSON_Parse val = cJSON_ParseWithOpts val False"

definition cJSON_ParseWithLength :: "string option \<Rightarrow> nat \<Rightarrow> hooks \<Rightarrow> call_res" where
  "cJSON_ParseWithLength val len = cJSON_ParseWithLengthOpts val len False"

section \<open>Reasoning about results\<close>

definition pwp :: "'a pres \<Rightarrow> ('a \<Rightarrow> parse_buffer \<Rightarrow> bool) \<Rightarrow> (parse_buffer \<Rightarrow> bool) \<Rightarrow> bool \<Rightarrow> bool" where
  "pwp m Q R F = (case m of POk x b \<Rightarrow> Q x b | PFail b \<Rightarrow> R b | PFault \<Rightarrow> False | PFuel \<Rightarrow> F)"

lemma pwp_simps [simp]:
  "pwp (POk x b) Q R F \<longleftrightarrow> Q x b"
  "pwp (PFail b) Q R F \<longleftrightarrow> R b"
  "pwp PFault Q R F \<longleftrightarrow> False"
  "pwp PFuel Q R F \<longleftrightarrow> F"
  by (simp_all add: pwp_def)

lemma pwp_bind [simp]: "pwp (pbind m f) Q R F \<longleftrightarrow> pwp m (\<lambda>x b. pwp (f x b) Q R F) R F"
  by (cases m) (simp_all add: pbind_def)

lemma pwp_failing [simp]: "pwp (pfailing m g) Q R F \<longleftrightarrow> pwp m Q (\<lambda>b. R (g b)) F"
  by (cases m) (simp_all add: pfailing_def)

lemma pwp_mono:
  assumes "pwp m Q R F" "\<And>x b. Q x b \<Longrightarrow> Q' x b" "\<And>b. R b \<Longrightarrow> R' b" "F \<Longrightarrow> F'"
  shows "pwp m Q' R' F'"
  using assms by (cases m) auto

text \<open>
  A sound buffer lies inside its memory; \<open>kept b b'\<close>: the same input, \<open>used\<close> the change in
  live blocks.
\<close>

definition sound :: "parse_buffer \<Rightarrow> bool" where
  "sound b \<longleftrightarrow> offset b \<le> blen b \<and> blen b \<le> length (content b) \<and> depth b \<le> CJSON_NESTING_LIMIT"

definition kept :: "parse_buffer \<Rightarrow> parse_buffer \<Rightarrow> bool" where
  "kept b b' \<longleftrightarrow> content b' = content b \<and> blen b' = blen b"

definition used :: "parse_buffer \<Rightarrow> parse_buffer \<Rightarrow> int" where
  "used b b' = live (hk b') - live (hk b)"

end
