(* ===== verification/JParseSafe.thy ===== *)
theory JParseSafe
  imports JParse
begin

text \<open>
  The parser's contract, proved by induction on the fuel: inside a sound buffer no call
  faults, the buffer stays sound, a success moves forward, the tree is well formed and not
  nested beyond the limit, and the live blocks grow by exactly what the tree owns, or not at
  all on failure. Fuel beyond three times the rest of the input is never used up.
\<close>

section \<open>Well-formed trees\<close>

fun nesting :: "CJSON \<Rightarrow> nat" where
  "nesting (CJSON n ch) =
     (if jtype n = cJSON_Array \<or> jtype n = cJSON_Object
      then 1 + fold max (map nesting ch) 0 else 0)"

text \<open>The trees the parser builds: each type with the fields it uses.\<close>

fun wf_json :: "CJSON \<Rightarrow> bool" where
  "wf_json (CJSON n ch) \<longleftrightarrow>
     (if jtype n = cJSON_NULL \<or> jtype n = cJSON_False \<or> jtype n = cJSON_True then
        ch = [] \<and> valuestring n = None
      else if jtype n = cJSON_Number then
        ch = [] \<and> valuestring n = None \<and> saturate (valuedouble n) = Some (valueint n)
      else if jtype n = cJSON_String then ch = [] \<and> valuestring n \<noteq> None
      else if jtype n = cJSON_Array then
        valuestring n = None \<and> (\<forall>c \<in> set ch. wf_json c \<and> jstring (info c) = None)
      else if jtype n = cJSON_Object then
        valuestring n = None \<and> (\<forall>c \<in> set ch. wf_json c \<and> jstring (info c) \<noteq> None)
      else False)"

declare wf_json.simps [simp del] nesting.simps [simp del]

lemma fold_max_le: "fold max xs (a::nat) \<le> k \<longleftrightarrow> a \<le> k \<and> (\<forall>x \<in> set xs. x \<le> k)"
  by (induction xs arbitrary: a) auto

lemma nesting_children:
  "jtype n = cJSON_Array \<or> jtype n = cJSON_Object \<Longrightarrow>
    nesting (CJSON n ch) + d \<le> k \<longleftrightarrow> Suc d \<le> k \<and> (\<forall>c \<in> set ch. nesting c + Suc d \<le> k)"
proof -
  assume "jtype n = cJSON_Array \<or> jtype n = cJSON_Object"
  then have "nesting (CJSON n ch) + d \<le> k \<longleftrightarrow> Suc d \<le> k \<and> fold max (map nesting ch) 0 \<le> k - Suc d"
    by (auto simp: nesting.simps)
  also have "\<dots> \<longleftrightarrow> Suc d \<le> k \<and> (\<forall>c \<in> set ch. nesting c + Suc d \<le> k)"
    by (auto simp: fold_max_le)
  finally show ?thesis .
qed

definition fresh :: "CJSON \<Rightarrow> bool" where
  "fresh it \<longleftrightarrow> child it = [] \<and> valuestring (info it) = None \<and>
     \<not> is_reference (info it) \<and> \<not> has_const_key (info it)"

lemma no_flags [simp]:
  "\<not> is_reference (n\<lparr>jtype := cJSON_NULL\<rparr>)" "\<not> has_const_key (n\<lparr>jtype := cJSON_NULL\<rparr>)"
  "\<not> is_reference (n\<lparr>jtype := cJSON_False\<rparr>)" "\<not> has_const_key (n\<lparr>jtype := cJSON_False\<rparr>)"
  "\<not> is_reference (n\<lparr>jtype := cJSON_True\<rparr>)" "\<not> has_const_key (n\<lparr>jtype := cJSON_True\<rparr>)"
  "\<not> is_reference (n\<lparr>jtype := cJSON_Number\<rparr>)" "\<not> has_const_key (n\<lparr>jtype := cJSON_Number\<rparr>)"
  "\<not> is_reference (n\<lparr>jtype := cJSON_String\<rparr>)" "\<not> has_const_key (n\<lparr>jtype := cJSON_String\<rparr>)"
  "\<not> is_reference (n\<lparr>jtype := cJSON_Array\<rparr>)" "\<not> has_const_key (n\<lparr>jtype := cJSON_Array\<rparr>)"
  "\<not> is_reference (n\<lparr>jtype := cJSON_Object\<rparr>)" "\<not> has_const_key (n\<lparr>jtype := cJSON_Object\<rparr>)"
  by (simp_all add: is_reference_def has_const_key_def json_types)

lemma flags_upd [simp]:
  "is_reference (n\<lparr>valuestring := s\<rparr>) = is_reference n" "has_const_key (n\<lparr>valuestring := s\<rparr>) = has_const_key n"
  "is_reference (n\<lparr>valueint := i\<rparr>) = is_reference n" "has_const_key (n\<lparr>valueint := i\<rparr>) = has_const_key n"
  "is_reference (n\<lparr>valuedouble := d\<rparr>) = is_reference n" "has_const_key (n\<lparr>valuedouble := d\<rparr>) = has_const_key n"
  "is_reference (n\<lparr>jstring := k\<rparr>) = is_reference n" "has_const_key (n\<lparr>jstring := k\<rparr>) = has_const_key n"
  by (simp_all add: is_reference_def has_const_key_def)

lemma types_distinct [simp]:
  "cJSON_NULL \<noteq> cJSON_Number" "cJSON_NULL \<noteq> cJSON_String" "cJSON_NULL \<noteq> cJSON_Array" "cJSON_NULL \<noteq> cJSON_Object"
  "cJSON_False \<noteq> cJSON_Array" "cJSON_False \<noteq> cJSON_Object" "cJSON_True \<noteq> cJSON_Array" "cJSON_True \<noteq> cJSON_Object"
  "cJSON_Number \<noteq> cJSON_NULL" "cJSON_Number \<noteq> cJSON_False" "cJSON_Number \<noteq> cJSON_True"
  "cJSON_Number \<noteq> cJSON_Array" "cJSON_Number \<noteq> cJSON_Object" "cJSON_Number \<noteq> cJSON_String"
  "cJSON_String \<noteq> cJSON_NULL" "cJSON_String \<noteq> cJSON_False" "cJSON_String \<noteq> cJSON_True" "cJSON_String \<noteq> cJSON_Number"
  "cJSON_String \<noteq> cJSON_Array" "cJSON_String \<noteq> cJSON_Object"
  "cJSON_Array \<noteq> cJSON_NULL" "cJSON_Array \<noteq> cJSON_False" "cJSON_Array \<noteq> cJSON_True" "cJSON_Array \<noteq> cJSON_Number"
  "cJSON_Array \<noteq> cJSON_String" "cJSON_Array \<noteq> cJSON_Object"
  "cJSON_Object \<noteq> cJSON_NULL" "cJSON_Object \<noteq> cJSON_False" "cJSON_Object \<noteq> cJSON_True" "cJSON_Object \<noteq> cJSON_Number"
  "cJSON_Object \<noteq> cJSON_String" "cJSON_Object \<noteq> cJSON_Array"
  by (simp_all add: json_types)

section \<open>Primitives\<close>

text \<open>\<open>forth b b'\<close>: the same input, no step back, nothing allocated or freed.\<close>

definition forth :: "parse_buffer \<Rightarrow> parse_buffer \<Rightarrow> bool" where
  "forth b b' \<longleftrightarrow> sound b' \<and> kept b b' \<and> offset b \<le> offset b' \<and> depth b' = depth b \<and> hk b' = hk b"

lemma skip_loop_spec:
  "i \<le> len \<Longrightarrow> len \<le> length c \<Longrightarrow>
    \<exists>j. skip_loop c len i = Some j \<and> i \<le> j \<and> j \<le> len \<and> (\<forall>k. i \<le> k \<and> k < j \<longrightarrow> byte (c ! k) \<le> 32) \<and>
        (j < len \<longrightarrow> 32 < byte (c ! j))"
proof (induction c len i rule: skip_loop.induct)
  case (1 c len i)
  show ?case
  proof (cases "i < len")
    case False
    then show ?thesis using "1.prems" by (auto simp: skip_loop.simps [of c len len])
  next
    case True
    then have r: "rd c i = Some (c ! i)" using "1.prems" by (simp add: rd_def)
    show ?thesis
    proof (cases "byte (c ! i) \<le> 32")
      case False
      then show ?thesis using True r by (auto simp: skip_loop.simps [of c len i])
    next
      case le: True
      then obtain j where j: "skip_loop c len (i + 1) = Some j" "i + 1 \<le> j" "j \<le> len"
        "\<forall>k. i + 1 \<le> k \<and> k < j \<longrightarrow> byte (c ! k) \<le> 32" "j < len \<longrightarrow> 32 < byte (c ! j)"
        using "1.IH" [OF True r le] "1.prems" True by auto
      have "\<forall>k. i \<le> k \<and> k < j \<longrightarrow> byte (c ! k) \<le> 32"
        using j(4) le by (metis Suc_eq_plus1 Suc_leI le_neq_implies_less)
      then show ?thesis using j True r le by (auto simp: skip_loop.simps [of c len i])
    qed
  qed
qed

lemma pwp_skip:
  assumes "sound b"
    and "\<And>b'. forth b b' \<Longrightarrow> (can_access b 0 \<Longrightarrow> can_access b' 0) \<Longrightarrow> Q () b'"
  shows "pwp (buffer_skip_whitespace b) Q R F"
proof (cases "can_access b 0")
  case False
  then show ?thesis
    using assms by (auto simp: buffer_skip_whitespace_def forth_def kept_def)
next
  case True
  then obtain j where "skip_loop (content b) (blen b) (offset b) = Some j" "offset b \<le> j" "j \<le> blen b"
    using skip_loop_spec [of "offset b" "blen b" "content b"] assms(1) by (auto simp: sound_def)
  then show ?thesis
    using True assms by (auto simp: buffer_skip_whitespace_def forth_def kept_def can_access_def sound_def)
qed

lemma pwp_next_sat:
  assumes "sound b" and "Q (can_access b 0 \<and> P (content b ! offset b)) b"
  shows "pwp (next_sat P b) Q R F"
  using assms by (auto simp: next_sat_def rd_def can_access_def sound_def)

lemma pwp_next_is:
  assumes "sound b" and "Q (can_access b 0 \<and> content b ! offset b = ch) b"
  shows "pwp (next_is ch b) Q R F"
  unfolding next_is_def using assms by (rule pwp_next_sat)

lemma pwp_literal:
  assumes "sound b" "no_nul s"
    and "Q (can_read b (length s) \<and> take (length s) (drop (offset b) (content b)) = s) b"
  shows "pwp (literal s b) Q R F"
proof (cases "can_read b (length s)")
  case True
  define t where "t = drop (offset b) (content b)"
  have "length s \<le> length t" using True assms(1) by (auto simp: t_def can_read_def sound_def)
  then have "strncmp_eq t s (length s) = Some (take (length s) t = s)"
    using strncmp_eq_prefix [OF assms(2) refl, of t]
    by (auto dest: arg_cong [where f = length])
  then show ?thesis using True assms(3) by (simp add: literal_def t_def)
next
  case False
  then show ?thesis using assms(3) by (simp add: literal_def)
qed

lemma pwp_new_item:
  assumes "\<And>h. live h = live (hk b) + 1 \<Longrightarrow> Q (CJSON node0 []) (b\<lparr>hk := h\<rparr>)"
    and "\<And>h. live h = live (hk b) \<Longrightarrow> R (b\<lparr>hk := h\<rparr>)"
  shows "pwp (new_item b) Q R F"
  using assms by (auto simp: new_item_def cJSON_New_Item_def allocate_def split: prod.splits bool.splits)

text \<open>Parsing a string: the item gets one more block, its text.\<close>

lemma pwp_string:
  assumes b: "sound b" "can_access b 0"
    and ok: "\<And>s b'. sound b' \<Longrightarrow> kept b b' \<Longrightarrow> offset b < offset b' \<Longrightarrow> depth b' = depth b \<Longrightarrow>
        live (hk b') = live (hk b) + 1 \<Longrightarrow>
        Q (set_info (\<lambda>x. x\<lparr>jtype := cJSON_String, valuestring := Some s\<rparr>) it) b'"
    and fail: "\<And>b'. sound b' \<Longrightarrow> kept b b' \<Longrightarrow> live (hk b') = live (hk b) \<Longrightarrow> R b'"
  shows "pwp (parse_string it b) Q R F"
proof -
  have rd0: "rd (content b) (offset b) = Some (content b ! offset b)"
    using b by (auto simp: rd_def sound_def can_access_def)
  have adv: "sound (b\<lparr>offset := offset b + 1, hk := h\<rparr>)" for h
    using b by (auto simp: sound_def can_access_def)
  have adv0: "sound (advance 1 b)" using b by (auto simp: sound_def can_access_def advance_def)
  show ?thesis
  proof (cases "content b ! offset b = CHR 0x22")
    case False
    then show ?thesis
      using fail [OF adv0] by (auto simp: parse_string_def rd0 advance_def kept_def)
  next
    case q: True
    show ?thesis
    proof (cases "scan_string (content b) (blen b) (offset b + 1) 0")
      case ScanFault
      then show ?thesis using scan_string_safe b by (auto simp: sound_def)
    next
      case ScanFail
      then show ?thesis
        using q fail [OF adv0] by (auto simp: parse_string_def rd0 advance_def kept_def)
    next
      case (Found ie sk)
      note f = scan_string_toks [OF Found]
      show ?thesis
      proof (cases "allocate (hk b)")
        case (Pair got h)
        then show ?thesis
        proof (cases got)
          case False
          then have "live h = live (hk b)"
            using Pair by (auto simp: allocate_def split: if_splits)
          then show ?thesis
            using q Found Pair False fail [OF adv [of h]]
            by (auto simp: parse_string_def rd0 advance_def kept_def)
        next
          case True
          then have l: "live h = live (hk b) + 1"
            using Pair by (auto simp: allocate_def split: if_splits)
          define u where "u = unescape (content b) ie (ie - offset b - sk + 1) (offset b + 1) []"
          have u: "case u of SFault \<Rightarrow> False | SFail p \<Rightarrow> offset b + 1 \<le> p \<and> p < ie
              | SOk r \<Rightarrow> length r < ie - offset b - sk + 1"
            unfolding u_def by (rule unescape_safe) (use f in auto)
          have ie: "ie + 1 \<le> blen b" "offset b < ie + 1" using f by auto
          show ?thesis
          proof (cases u)
            case SFault
            then show ?thesis using u by simp
          next
            case (SFail p)
            then have "sound (b\<lparr>offset := p, hk := deallocate h\<rparr>)"
              using u b ie by (auto simp: sound_def)
            from fail [OF this] show ?thesis
              using q Found Pair True SFail l u_def
              by (auto simp: parse_string_def rd0 kept_def deallocate_def)
          next
            case (SOk s)
            have "sound (b\<lparr>offset := ie + 1, hk := h\<rparr>)"
              using b ie by (auto simp: sound_def)
            from ok [OF this] show ?thesis
              using q Found Pair True SOk l u_def ie
              by (auto simp: parse_string_def rd0 kept_def)
          qed
        qed
      qed
    qed
  qed
qed

text \<open>Parsing a number.\<close>

lemma number_copy_spec:
  "off + i \<le> len \<Longrightarrow> len \<le> length c \<Longrightarrow> length acc = i \<Longrightarrow>
    \<exists>s. number_copy c len off i acc = Some s \<and> off + length s \<le> len"
proof (induction c len off i acc rule: number_copy.induct)
  case (1 c len off i acc)
  show ?case
  proof (cases "i < 63 \<and> off + i < len")
    case False
    then show ?thesis using "1.prems" by (auto simp: number_copy.simps [of c len off i acc])
  next
    case True
    then have r: "rd c (off + i) = Some (c ! (off + i))" using "1.prems" by (simp add: rd_def)
    show ?thesis
      using "1.IH" [OF True r] "1.prems" True r
      by (auto simp: number_copy.simps [of c len off i acc])
  qed
qed

lemma dbl_of_frac_not_nan [simp]: "dbl_of_frac s n d \<noteq> NaN"
  by (auto simp: dbl_of_frac_def Let_def split: prod.splits if_splits)

lemma dbl_of_dec_not_nan [simp]: "dbl_of_dec s n x \<noteq> NaN"
  by (simp add: dbl_of_dec_def)

lemma strtod_not_nan: "fst (strtod s) \<noteq> NaN"
  unfolding strtod_def Let_def case_prod_unfold by (simp split: if_split)

lemma is_nan_iff: "is_nan d \<longleftrightarrow> d = NaN"
  by (cases d) auto

lemma strtod_saturates: "saturate (fst (strtod s)) \<noteq> None"
  using strtod_not_nan [of s] by (auto simp: saturate_def is_nan_iff)

lemma strtod_consumes: "snd (strtod s) \<le> length s"
  unfolding strtod_def Let_def case_prod_unfold by (simp split: if_split)

lemma pwp_number:
  assumes b: "sound b"
    and ok: "\<And>d i n. saturate d = Some i \<Longrightarrow> 0 < n \<Longrightarrow> offset b + n \<le> blen b \<Longrightarrow>
        Q (set_info (\<lambda>x. x\<lparr>valuedouble := d, valueint := i, jtype := cJSON_Number\<rparr>) it) (advance n b)"
    and fail: "R b"
  shows "pwp (parse_number it b) Q R F"
proof -
  obtain s where s: "number_copy (content b) (blen b) (offset b) 0 [] = Some s" "offset b + length s \<le> blen b"
    using number_copy_spec [of "offset b" 0 "blen b" "content b" "[]"] b by (auto simp: sound_def)
  obtain d n where dn: "strtod s = (d, n)" by (cases "strtod s")
  obtain i where i: "saturate d = Some i" using strtod_saturates [of s] dn by auto
  show ?thesis
    using s dn i ok [OF i] fail strtod_consumes [of s] by (simp add: parse_number_def)
qed

section \<open>The contract\<close>

definition value_post :: "parse_buffer \<Rightarrow> CJSON \<Rightarrow> CJSON \<Rightarrow> parse_buffer \<Rightarrow> bool" where
  "value_post b it it' b' \<longleftrightarrow>
     sound b' \<and> kept b b' \<and> offset b < offset b' \<and> depth b' = depth b \<and>
     live (hk b') + int (blocks it) = live (hk b) + int (blocks it') \<and>
     wf_json it' \<and> nesting it' + depth b \<le> CJSON_NESTING_LIMIT \<and>
     jstring (info it') = jstring (info it)"

definition fail_post :: "parse_buffer \<Rightarrow> int \<Rightarrow> parse_buffer \<Rightarrow> bool" where
  "fail_post b k b' \<longleftrightarrow> sound b' \<and> kept b b' \<and> live (hk b') + k = live (hk b)"

definition list_post :: "parse_buffer \<Rightarrow> CJSON list \<Rightarrow> CJSON list \<Rightarrow> parse_buffer \<Rightarrow> bool" where
  "list_post b items items' b' \<longleftrightarrow>
     sound b' \<and> kept b b' \<and> offset b < offset b' \<and> depth b' = depth b \<and>
     live (hk b') + int (blocks_list items) = live (hk b) + int (blocks_list items')"

definition items_ok :: "bool \<Rightarrow> nat \<Rightarrow> CJSON list \<Rightarrow> bool" where
  "items_ok named d items \<longleftrightarrow>
     (\<forall>c \<in> set items. wf_json c \<and> (jstring (info c) \<noteq> None) = named \<and> nesting c + d \<le> CJSON_NESTING_LIMIT)"

definition rem :: "parse_buffer \<Rightarrow> nat" where
  "rem b = blen b - offset b"

definition value_ok :: "nat \<Rightarrow> bool" where
  "value_ok n \<longleftrightarrow> (\<forall>it b. sound b \<longrightarrow> fresh it \<longrightarrow>
     pwp (parse_value n it b) (value_post b it) (fail_post b 0) (n < 3 * rem b + 3))"

definition array_ok :: "nat \<Rightarrow> bool" where
  "array_ok n \<longleftrightarrow> (\<forall>it b. sound b \<longrightarrow> fresh it \<longrightarrow> can_access b 0 \<longrightarrow>
     pwp (parse_array n it b) (value_post b it) (fail_post b 0) (n < 3 * rem b + 2))"

definition object_ok :: "nat \<Rightarrow> bool" where
  "object_ok n \<longleftrightarrow> (\<forall>it b. sound b \<longrightarrow> fresh it \<longrightarrow> can_access b 0 \<longrightarrow>
     pwp (parse_object n it b) (value_post b it) (fail_post b 0) (n < 3 * rem b + 2))"

definition elems_ok :: "nat \<Rightarrow> bool" where
  "elems_ok n \<longleftrightarrow> (\<forall>items b. sound b \<longrightarrow> can_access b 0 \<longrightarrow> items_ok False (depth b) items \<longrightarrow>
     pwp (parse_elems n items b)
       (\<lambda>items' b'. list_post b items items' b' \<and> items_ok False (depth b) items')
       (fail_post b (int (blocks_list items))) (n < 3 * rem b + 1))"

definition members_ok :: "nat \<Rightarrow> bool" where
  "members_ok n \<longleftrightarrow> (\<forall>items b. sound b \<longrightarrow> can_access b 0 \<longrightarrow> items_ok True (depth b) items \<longrightarrow>
     pwp (parse_members n items b)
       (\<lambda>items' b'. list_post b items items' b' \<and> items_ok True (depth b) items')
       (fail_post b (int (blocks_list items))) (n < 3 * rem b + 1))"

lemma sound_upd [simp]:
  "sound (b\<lparr>hk := h\<rparr>) = sound b" "can_access (b\<lparr>hk := h\<rparr>) i = can_access b i" "rem (b\<lparr>hk := h\<rparr>) = rem b"
  by (simp_all add: sound_def can_access_def rem_def)

lemma sound_advance: "sound b \<Longrightarrow> can_access b 0 \<Longrightarrow> sound (advance 1 b)"
  by (auto simp: sound_def can_access_def advance_def)

lemma sound_can_read: "sound b \<Longrightarrow> can_read b n \<Longrightarrow> sound (advance n b)"
  by (auto simp: sound_def can_read_def advance_def)

lemma blocks_node0 [simp]: "node_blocks node0 = 1"
  by (simp add: node_blocks_def node0_def)

lemma flags_node0 [simp]: "\<not> is_reference node0" "\<not> has_const_key node0"
  by (simp_all add: is_reference_def has_const_key_def node0_def)

lemma fresh_node0 [simp]: "fresh (CJSON node0 [])"
  by (simp add: fresh_def node0_def is_reference_def has_const_key_def)

lemma blocks_fresh: "fresh it \<Longrightarrow> blocks it = (if jstring (info it) = None then 1 else 2)"
  by (cases it) (auto simp: fresh_def node_blocks_def)

lemma pwp_from:
  assumes "value_ok n" "sound b" "fresh it"
    and "\<And>it' b'. value_post b it it' b' \<Longrightarrow> Q it' b'"
    and "\<And>b'. fail_post b 0 b' \<Longrightarrow> R b'"
    and "n < 3 * rem b + 3 \<Longrightarrow> F"
  shows "pwp (parse_value n it b) Q R F"
  using assms(1-3) unfolding value_ok_def by (blast intro: pwp_mono assms(4-6))

text \<open>What follows a complete element: the comma decides.\<close>

lemma more_step:
  assumes loop: "\<And>b. sound b \<Longrightarrow> can_access b 0 \<Longrightarrow> items_ok nm (depth b) items1 \<Longrightarrow>
      pwp (g b) (\<lambda>items' b'. list_post b items1 items' b' \<and> items_ok nm (depth b) items')
        (fail_post b (int (blocks_list items1))) (n < 3 * rem b + 1)"
    and b2: "sound b2" and ok: "items_ok nm (depth b) items1"
    and post: "list_post b items items1 b2"
    and r: "rem b2 + 2 \<le> rem b \<or> \<not> can_access b2 0"
  shows "pwp (buffer_skip_whitespace b2)
      (\<lambda>_ b3. pwp (next_is (CHR '','') b3)
        (\<lambda>more b3. pwp (if more then g b3 else POk items1 b3)
           (\<lambda>items' b'. list_post b items items' b' \<and> items_ok nm (depth b) items')
           (fail_post b (int (blocks_list items))) (Suc n < 3 * rem b + 1))
        (fail_post b (int (blocks_list items))) (Suc n < 3 * rem b + 1))
      (fail_post b (int (blocks_list items))) (Suc n < 3 * rem b + 1)"
proof (rule pwp_skip [OF b2])
  fix b3 assume f: "forth b2 b3"
  then have s3: "sound b3" by (simp add: forth_def)
  have post3: "list_post b items items1 b3"
    using f post by (auto simp: list_post_def forth_def kept_def)
  have r3: "rem b3 + 2 \<le> rem b \<or> \<not> can_access b3 0"
    using r f by (auto simp: forth_def kept_def rem_def can_access_def)
  show "pwp (next_is (CHR '','') b3)
        (\<lambda>more b3. pwp (if more then g b3 else POk items1 b3)
           (\<lambda>items' b'. list_post b items items' b' \<and> items_ok nm (depth b) items')
           (fail_post b (int (blocks_list items))) (Suc n < 3 * rem b + 1))
        (fail_post b (int (blocks_list items))) (Suc n < 3 * rem b + 1)"
  proof (rule pwp_next_is [OF s3], cases "can_access b3 0 \<and> content b3 ! offset b3 = CHR '',''")
    case True
    have "depth b3 = depth b" using post3 by (simp add: list_post_def)
    then have "pwp (g b3) (\<lambda>items' b'. list_post b3 items1 items' b' \<and> items_ok nm (depth b3) items')
        (fail_post b3 (int (blocks_list items1))) (n < 3 * rem b3 + 1)"
      using loop [OF s3] True ok by simp
    then show "pwp (if can_access b3 0 \<and> content b3 ! offset b3 = CHR '','' then g b3 else POk items1 b3)
        (\<lambda>items' b'. list_post b items items' b' \<and> items_ok nm (depth b) items')
        (fail_post b (int (blocks_list items))) (Suc n < 3 * rem b + 1)"
      using True r3 post3
      by simp (erule pwp_mono; auto simp: list_post_def fail_post_def kept_def)
  next
    case False
    then show "pwp (if can_access b3 0 \<and> content b3 ! offset b3 = CHR '','' then g b3 else POk items1 b3)
        (\<lambda>items' b'. list_post b items items' b' \<and> items_ok nm (depth b) items')
        (fail_post b (int (blocks_list items))) (Suc n < 3 * rem b + 1)"
      using ok post3 by (simp only: if_False pwp_simps)
  qed
qed

lemma elems_okD:
  assumes "elems_ok n" "sound b" "can_access b 0" "items_ok False (depth b) items"
  shows "pwp (parse_elems n items b)
       (\<lambda>items' b'. list_post b items items' b' \<and> items_ok False (depth b) items')
       (fail_post b (int (blocks_list items))) (n < 3 * rem b + 1)"
  using assms unfolding elems_ok_def by blast

lemma elems_step:
  assumes v: "value_ok n" and e: "elems_ok n"
  shows "elems_ok (Suc n)"
  unfolding elems_ok_def parse_elems.simps pwp_bind pwp_failing
proof (intro allI impI pwp_new_item)
  fix items b and h :: hooks
  assume b: "sound b" "can_access b 0" and items: "items_ok False (depth b) items"
    and h: "live h = live (hk b) + 1"
  define b0 where "b0 = b\<lparr>hk := h\<rparr>"
  have b0: "sound (advance 1 b0)" using b sound_advance [of b0] by (simp add: b0_def)
  let ?it = "CJSON node0 []"
  let ?Q = "\<lambda>items' b'. list_post b items items' b' \<and> items_ok False (depth b) items'"
  let ?R = "fail_post b (int (blocks_list items))"
  let ?F = "Suc n < 3 * rem b + 1"
  show "pwp (buffer_skip_whitespace (advance 1 b0))
     (\<lambda>_ b. pwp (parse_value n ?it b)
        (\<lambda>it b. pwp (buffer_skip_whitespace b)
          (\<lambda>_ b. pwp (next_is CHR '','' b)
            (\<lambda>more b. pwp (if more then parse_elems n (items @ [it]) b else POk (items @ [it]) b) ?Q ?R ?F)
            ?R ?F) ?R ?F)
        (\<lambda>b. ?R (delete_all (items @ [?it]) b)) ?F) ?R ?F"
  proof (rule pwp_skip [OF b0], rule pwp_from [OF v _ fresh_node0])
    fix b1 assume f1: "forth (advance 1 b0) b1"
    show "sound b1" using f1 by (simp add: forth_def)
    have r1: "rem b1 + 1 \<le> rem b" using f1 b
      by (auto simp: forth_def kept_def rem_def b0_def advance_def can_access_def sound_def)
    then show "n < 3 * rem b1 + 3 \<Longrightarrow> ?F" by simp
    show "fail_post b1 0 b' \<Longrightarrow> ?R (delete_all (items @ [?it]) b')" for b'
      using f1 h by (auto simp: fail_post_def forth_def kept_def delete_all_def b0_def advance_def)
    fix it b2 assume p2: "value_post b1 ?it it b2"
    show "pwp (buffer_skip_whitespace b2)
          (\<lambda>_ b. pwp (next_is CHR '','' b)
            (\<lambda>more b. pwp (if more then parse_elems n (items @ [it]) b else POk (items @ [it]) b) ?Q ?R ?F)
            ?R ?F) ?R ?F"
    proof (rule more_step)
      show "sound b2" using p2 by (simp add: value_post_def)
      show "items_ok False (depth b) (items @ [it])"
        using items p2 f1 by (auto simp: items_ok_def value_post_def node0_def forth_def b0_def advance_def)
      show "list_post b items (items @ [it]) b2"
        using p2 f1 h by (auto simp: list_post_def value_post_def forth_def kept_def b0_def advance_def)
      show "rem b2 + 2 \<le> rem b \<or> \<not> can_access b2 0"
        using r1 p2 by (auto simp: value_post_def kept_def rem_def can_access_def)
    qed (rule elems_okD [OF e])
  qed
next
  fix items b and h :: hooks
  assume "sound b" "live h = live (hk b)"
  then show "fail_post b (int (blocks_list items)) (delete_all items (b\<lparr>hk := h\<rparr>))"
    by (simp add: fail_post_def kept_def delete_all_def)
qed

definition named_item :: "string \<Rightarrow> CJSON" where
  "named_item s = CJSON (node0\<lparr>jtype := cJSON_String, jstring := Some s\<rparr>) []"

lemma swap_name_string:
  "swap_name (set_info (\<lambda>x. x\<lparr>jtype := cJSON_String, valuestring := Some s\<rparr>) (CJSON node0 [])) = named_item s"
  by (simp add: swap_name_def set_info_def named_item_def node0_def)

lemma named_item [simp]: "fresh (named_item s)" "blocks (named_item s) = 2"
  "jstring (info (named_item s)) = Some s"
  by (simp_all add: named_item_def fresh_def node_blocks_def, simp_all add: node0_def)

lemma members_step:
  assumes v: "value_ok n" and m: "members_ok n"
  shows "members_ok (Suc n)"
  unfolding members_ok_def parse_members.simps pwp_bind pwp_failing
proof (intro allI impI pwp_new_item)
  fix items b and h :: hooks
  assume b: "sound b" "can_access b 0" and items: "items_ok True (depth b) items"
    and h: "live h = live (hk b) + 1"
  define b0 where "b0 = b\<lparr>hk := h\<rparr>"
  let ?it = "CJSON node0 []"
  let ?Q = "\<lambda>items' b'. list_post b items items' b' \<and> items_ok True (depth b) items'"
  let ?R = "fail_post b (int (blocks_list items))"
  let ?F = "Suc n < 3 * rem b + 1"
  have sb0: "sound b0" using b by (simp add: b0_def)
  have adv: "sound (advance 1 b0)" using b sound_advance [of b0] by (simp add: b0_def)
  have loop: "pwp (parse_members n (items @ [it]) b')
      (\<lambda>items' b''. list_post b' (items @ [it]) items' b'' \<and> items_ok True (depth b') items')
      (fail_post b' (int (blocks_list (items @ [it])))) (n < 3 * rem b' + 1)"
    if "sound b'" "can_access b' 0" "items_ok True (depth b') (items @ [it])" for it b'
    using m that unfolding members_ok_def by blast
  have R_del: "?R (delete_all (items @ [it]) b')"
    if "sound b'" "kept b b'" "live (hk b') = live (hk b) + int (blocks it)" for it b'
    using that by (simp add: fail_post_def kept_def delete_all_def)
  show "pwp (if \<not> can_access b0 1 then PFail (delete_all (items @ [?it]) b0) else
     pbind (buffer_skip_whitespace (advance 1 b0)) (\<lambda>_ b.
     pbind (pfailing (parse_string ?it b) (delete_all (items @ [?it]))) (\<lambda>it b.
     pbind (buffer_skip_whitespace b) (\<lambda>_ b.
     let it = swap_name it in
     pbind (next_is (CHR '':'') b) (\<lambda>y b.
     if \<not> y then PFail (delete_all (items @ [it]) b) else
     pbind (buffer_skip_whitespace (advance 1 b)) (\<lambda>_ b.
     pbind (pfailing (parse_value n it b) (delete_all (items @ [it]))) (\<lambda>it b.
     pbind (buffer_skip_whitespace b) (\<lambda>_ b.
     pbind (next_is (CHR '','') b) (\<lambda>more b.
     if more then parse_members n (items @ [it]) b else POk (items @ [it]) b)))))))))
     ?Q ?R ?F"
  proof (cases "can_access b0 1")
    case False
    then show ?thesis using R_del [OF sb0] h by (simp add: b0_def kept_def)
  next
    case True
    then have a1: "can_access (advance 1 b0) 0" by (simp add: can_access_def advance_def)
    have tail: "pwp (buffer_skip_whitespace b2) (\<lambda>_ b.
       pwp (next_is (CHR '':'') b) (\<lambda>y b.
       pwp (if \<not> y then PFail (delete_all (items @ [it]) b) else
       pbind (buffer_skip_whitespace (advance 1 b)) (\<lambda>_ b.
       pbind (pfailing (parse_value n it b) (delete_all (items @ [it]))) (\<lambda>it b.
       pbind (buffer_skip_whitespace b) (\<lambda>_ b.
       pbind (next_is (CHR '','') b) (\<lambda>more b.
       if more then parse_members n (items @ [it]) b else POk (items @ [it]) b))))) ?Q ?R ?F) ?R ?F) ?R ?F"
      if b2: "sound b2" "kept b b2" "offset b + 1 < offset b2" "depth b2 = depth b"
        "live (hk b2) = live (hk b) + 2" and it: "it = named_item s" for b2 it s
    proof (rule pwp_skip [OF b2(1)])
      fix b3 assume f3: "forth b2 b3"
      then have s3: "sound b3" "kept b b3" "live (hk b3) = live (hk b) + 2" "depth b3 = depth b" "offset b + 1 < offset b3"
        using b2 by (auto simp: forth_def kept_def)
      show "pwp (next_is (CHR '':'') b3) (\<lambda>y b.
       pwp (if \<not> y then PFail (delete_all (items @ [it]) b) else
       pbind (buffer_skip_whitespace (advance 1 b)) (\<lambda>_ b.
       pbind (pfailing (parse_value n it b) (delete_all (items @ [it]))) (\<lambda>it b.
       pbind (buffer_skip_whitespace b) (\<lambda>_ b.
       pbind (next_is (CHR '','') b) (\<lambda>more b.
       if more then parse_members n (items @ [it]) b else POk (items @ [it]) b))))) ?Q ?R ?F) ?R ?F"
      proof (rule pwp_next_is [OF s3(1)], cases "can_access b3 0 \<and> content b3 ! offset b3 = CHR '':''")
        case False
        then show "pwp (if \<not> (can_access b3 0 \<and> content b3 ! offset b3 = CHR '':'') then PFail (delete_all (items @ [it]) b3) else
          pbind (buffer_skip_whitespace (advance 1 b3)) (\<lambda>_ b.
          pbind (pfailing (parse_value n it b) (delete_all (items @ [it]))) (\<lambda>it b.
          pbind (buffer_skip_whitespace b) (\<lambda>_ b.
          pbind (next_is (CHR '','') b) (\<lambda>more b.
          if more then parse_members n (items @ [it]) b else POk (items @ [it]) b))))) ?Q ?R ?F"
          using R_del [OF s3(1,2)] s3(3) it by simp
      next
        case colon: True
        then have adv3: "sound (advance 1 b3)" using s3 sound_advance by blast
        have "pwp (buffer_skip_whitespace (advance 1 b3)) (\<lambda>_ b.
          pwp (parse_value n it b) (\<lambda>it b.
          pwp (buffer_skip_whitespace b) (\<lambda>_ b.
          pwp (next_is (CHR '','') b) (\<lambda>more b.
          pwp (if more then parse_members n (items @ [it]) b else POk (items @ [it]) b) ?Q ?R ?F) ?R ?F) ?R ?F)
          (\<lambda>b. ?R (delete_all (items @ [it]) b)) ?F) ?R ?F"
        proof (rule pwp_skip [OF adv3], rule pwp_from [OF v])
          fix b4 assume f4: "forth (advance 1 b3) b4"
          show s4: "sound b4" using f4 by (simp add: forth_def)
          show "fresh it" by (simp add: it)
          have r4: "rem b4 + 2 \<le> rem b" using f4 s3 s4
            by (auto simp: forth_def kept_def rem_def advance_def sound_def)
          then show "n < 3 * rem b4 + 3 \<Longrightarrow> ?F" by simp
          show "fail_post b4 0 b' \<Longrightarrow> ?R (delete_all (items @ [it]) b')" for b'
            using f4 s3 it by (auto simp: fail_post_def forth_def kept_def delete_all_def advance_def)
          fix it5 b5 assume p5: "value_post b4 it it5 b5"
          show "pwp (buffer_skip_whitespace b5) (\<lambda>_ b.
            pwp (next_is (CHR '','') b) (\<lambda>more b.
            pwp (if more then parse_members n (items @ [it5]) b else POk (items @ [it5]) b) ?Q ?R ?F) ?R ?F) ?R ?F"
          proof (rule more_step)
            show "sound b5" using p5 by (simp add: value_post_def)
            show "items_ok True (depth b) (items @ [it5])"
              using items p5 f4 s3 it by (auto simp: items_ok_def value_post_def forth_def advance_def)
            show "list_post b items (items @ [it5]) b5"
              using p5 f4 s3 it by (auto simp: list_post_def value_post_def forth_def kept_def advance_def)
            show "rem b5 + 2 \<le> rem b \<or> \<not> can_access b5 0"
              using r4 p5 by (auto simp: value_post_def kept_def rem_def can_access_def)
          qed (rule loop)
        qed
        then show "pwp (if \<not> (can_access b3 0 \<and> content b3 ! offset b3 = CHR '':'') then PFail (delete_all (items @ [it]) b3) else
          pbind (buffer_skip_whitespace (advance 1 b3)) (\<lambda>_ b.
          pbind (pfailing (parse_value n it b) (delete_all (items @ [it]))) (\<lambda>it b.
          pbind (buffer_skip_whitespace b) (\<lambda>_ b.
          pbind (next_is (CHR '','') b) (\<lambda>more b.
          if more then parse_members n (items @ [it]) b else POk (items @ [it]) b))))) ?Q ?R ?F"
          using colon by (simp only: simp_thms if_False pwp_bind pwp_failing)
      qed
    qed
    have "pwp (buffer_skip_whitespace (advance 1 b0)) (\<lambda>_ b.
       pwp (parse_string ?it b) (\<lambda>it b.
       pwp (buffer_skip_whitespace b) (\<lambda>_ b.
       pwp (next_is (CHR '':'') b) (\<lambda>y b.
       pwp (if \<not> y then PFail (delete_all (items @ [swap_name it]) b) else
       pbind (buffer_skip_whitespace (advance 1 b)) (\<lambda>_ b.
       pbind (pfailing (parse_value n (swap_name it) b) (delete_all (items @ [swap_name it]))) (\<lambda>it b.
       pbind (buffer_skip_whitespace b) (\<lambda>_ b.
       pbind (next_is (CHR '','') b) (\<lambda>more b.
       if more then parse_members n (items @ [it]) b else POk (items @ [it]) b))))) ?Q ?R ?F) ?R ?F) ?R ?F)
       (\<lambda>b. ?R (delete_all (items @ [?it]) b)) ?F) ?R ?F"
    proof (rule pwp_skip [OF adv], rule pwp_string, goal_cases)
      case (1 b1)
      then show ?case by (simp add: forth_def)
    next
      case (2 b1)
      then show ?case using a1 by simp
    next
      case (3 b1 s b2)
      then show ?case using h
        by (intro tail [where s = s]) (auto simp: forth_def kept_def b0_def advance_def swap_name_string)
    next
      case (4 b1 b2)
      then show ?case using h
        by (intro R_del) (auto simp: forth_def kept_def b0_def advance_def)
    qed
    then show ?thesis using True by (simp only: simp_thms if_False Let_def pwp_bind pwp_failing)
 qed
next
  fix items b and h :: hooks
  assume "sound b" "live h = live (hk b)"
  then show "fail_post b (int (blocks_list items)) (delete_all items (b\<lparr>hk := h\<rparr>))"
    by (simp add: fail_post_def kept_def delete_all_def)
qed

text \<open>The end of an array or object: the closing character, or everything is deleted.\<close>

lemma close_step:
  assumes b2: "sound b2" and b: "sound b" "kept b b2" "offset b < offset b2"
    and d: "depth b2 = Suc (depth b)" and dl: "depth b < CJSON_NESTING_LIMIT"
    and live: "live (hk b2) = live (hk b) + int (blocks_list items)"
    and t: "t = cJSON_Array \<and> \<not> nm \<or> t = cJSON_Object \<and> nm"
    and ok: "items_ok nm (depth b2) items" and it: "fresh it"
  shows "pwp (next_is ch b2) (\<lambda>y b2. pwp (if y then POk (set_children t items it) (close_buffer b2)
           else PFail (delete_all items b2)) (value_post b it) (fail_post b 0) F) (fail_post b 0) F"
proof (rule pwp_next_is [OF b2], cases "can_access b2 0 \<and> content b2 ! offset b2 = ch")
  case True
  obtain n where n: "it = CJSON n []" "valuestring n = None" using it by (cases it) (auto simp: fresh_def)
  have flags: "\<not> is_reference (n\<lparr>jtype := t\<rparr>)" "\<not> has_const_key (n\<lparr>jtype := t\<rparr>)"
    using t by auto
  have bl: "blocks (set_children t items it) = blocks it + blocks_list items"
    using it n flags by (simp add: set_children_def fresh_def node_blocks_def)
  have wf: "wf_json (set_children t items it)"
    using t ok n by (auto simp: set_children_def wf_json.simps items_ok_def)
  have nest: "nesting (set_children t items it) + depth b \<le> CJSON_NESTING_LIMIT"
    unfolding set_children_def
    by (subst nesting_children) (use t ok d dl in \<open>auto simp: items_ok_def\<close>)
  have "value_post b it (set_children t items it) (close_buffer b2)"
    using True b b2 d live bl wf nest
    by (auto simp: value_post_def close_buffer_def sound_def kept_def can_access_def set_children_def)
  then show "pwp (if can_access b2 0 \<and> content b2 ! offset b2 = ch
      then POk (set_children t items it) (close_buffer b2) else PFail (delete_all items b2))
      (value_post b it) (fail_post b 0) F" using True by (simp only: simp_thms if_True pwp_simps)
next
  case False
  have "fail_post b 0 (delete_all items b2)"
    using b b2 live by (simp add: fail_post_def kept_def delete_all_def)
  then show "pwp (if can_access b2 0 \<and> content b2 ! offset b2 = ch
      then POk (set_children t items it) (close_buffer b2) else PFail (delete_all items b2))
      (value_post b it) (fail_post b 0) F" using False by (simp only: if_False pwp_simps)
qed

text \<open>From behind the opening character to the end.\<close>

lemma body_step:
  assumes loop: "\<And>b. sound b \<Longrightarrow> can_access b 0 \<Longrightarrow> pwp (g b)
        (\<lambda>items' b'. list_post b [] items' b' \<and> items_ok nm (depth b) items')
        (fail_post b 0) (n < 3 * rem b + 1)"
    and b: "sound b" "can_access b 0" and dl: "depth b < CJSON_NESTING_LIMIT"
    and t: "t = cJSON_Array \<and> \<not> nm \<or> t = cJSON_Object \<and> nm" and it: "fresh it"
  shows "pwp (buffer_skip_whitespace (advance 1 (b\<lparr>depth := depth b + 1\<rparr>))) (\<lambda>_ b1.
      pwp (next_is ch b1) (\<lambda>y b1.
      pwp (if y then POk (set_children t [] it) (close_buffer b1)
          else if \<not> can_access b1 0 then PFail (step_back b1) else
          pbind (g (step_back b1)) (\<lambda>items b2.
          pbind (next_is ch b2) (\<lambda>y b2.
          if y then POk (set_children t items it) (close_buffer b2)
          else PFail (delete_all items b2)))) (value_post b it) (fail_post b 0) (Suc n < 3 * rem b + 2))
      (fail_post b 0) (Suc n < 3 * rem b + 2)) (fail_post b 0) (Suc n < 3 * rem b + 2)"
proof (rule pwp_skip)
  show "sound (advance 1 (b\<lparr>depth := depth b + 1\<rparr>))"
    using b dl by (auto simp: sound_def can_access_def advance_def)
  fix b1 assume f: "forth (advance 1 (b\<lparr>depth := depth b + 1\<rparr>)) b1"
  then have s1: "sound b1" "kept b b1" "offset b < offset b1" "depth b1 = Suc (depth b)" "hk b1 = hk b"
    by (auto simp: forth_def kept_def advance_def)
  have empty_ok: "items_ok nm (depth b1) []" by (simp add: items_ok_def)
  have bk: "sound (step_back b1)" "kept b (step_back b1)" "rem (step_back b1) \<le> rem b"
    "can_access b1 0 \<Longrightarrow> can_access (step_back b1) 0"
    using s1 by (auto simp: sound_def kept_def step_back_def can_access_def rem_def)
  show "pwp (next_is ch b1) (\<lambda>y b1.
      pwp (if y then POk (set_children t [] it) (close_buffer b1)
          else if \<not> can_access b1 0 then PFail (step_back b1) else
          pbind (g (step_back b1)) (\<lambda>items b2.
          pbind (next_is ch b2) (\<lambda>y b2.
          if y then POk (set_children t items it) (close_buffer b2)
          else PFail (delete_all items b2)))) (value_post b it) (fail_post b 0) (Suc n < 3 * rem b + 2))
      (fail_post b 0) (Suc n < 3 * rem b + 2)"
  proof (cases "can_access b1 0 \<and> content b1 ! offset b1 = ch")
    case True
    show ?thesis
      using close_step [OF s1(1) b(1) s1(2-4) dl, of "[]" t nm it ch] s1(5) t empty_ok it True s1(1)
      by (auto simp: next_is_def next_sat_def rd_def can_access_def sound_def)
  next
    case False
    show ?thesis
    proof (rule pwp_next_is [OF s1(1)], cases "can_access b1 0")
      case acc: False
      have "fail_post b 0 (step_back b1)" using bk s1 by (simp add: fail_post_def step_back_def)
      then show "pwp (if can_access b1 0 \<and> content b1 ! offset b1 = ch then POk (set_children t [] it) (close_buffer b1)
          else if \<not> can_access b1 0 then PFail (step_back b1) else
          pbind (g (step_back b1)) (\<lambda>items b2.
          pbind (next_is ch b2) (\<lambda>y b2.
          if y then POk (set_children t items it) (close_buffer b2)
          else PFail (delete_all items b2)))) (value_post b it) (fail_post b 0) (Suc n < 3 * rem b + 2)"
        using acc by simp
    next
      case acc: True
      have "pwp (g (step_back b1)) (\<lambda>items b2.
          pwp (next_is ch b2) (\<lambda>y b2.
          pwp (if y then POk (set_children t items it) (close_buffer b2)
          else PFail (delete_all items b2)) (value_post b it) (fail_post b 0) (Suc n < 3 * rem b + 2))
          (fail_post b 0) (Suc n < 3 * rem b + 2)) (fail_post b 0) (Suc n < 3 * rem b + 2)"
      proof (rule pwp_mono [OF loop [OF bk(1) bk(4) [OF acc]]])
        fix items b2
        assume p: "list_post (step_back b1) [] items b2 \<and> items_ok nm (depth (step_back b1)) items"
        show "pwp (next_is ch b2) (\<lambda>y b2.
          pwp (if y then POk (set_children t items it) (close_buffer b2)
          else PFail (delete_all items b2)) (value_post b it) (fail_post b 0) (Suc n < 3 * rem b + 2))
          (fail_post b 0) (Suc n < 3 * rem b + 2)"
          by (rule close_step [where nm = nm])
            (use p s1 b dl t it in \<open>auto simp: list_post_def kept_def step_back_def\<close>)
      next
        fix b' assume "fail_post (step_back b1) 0 b'"
        then show "fail_post b 0 b'" using s1 by (auto simp: fail_post_def kept_def step_back_def)
      qed (use bk(3) in auto)
      then show "pwp (if can_access b1 0 \<and> content b1 ! offset b1 = ch then POk (set_children t [] it) (close_buffer b1)
          else if \<not> can_access b1 0 then PFail (step_back b1) else
          pbind (g (step_back b1)) (\<lambda>items b2.
          pbind (next_is ch b2) (\<lambda>y b2.
          if y then POk (set_children t items it) (close_buffer b2)
          else PFail (delete_all items b2)))) (value_post b it) (fail_post b 0) (Suc n < 3 * rem b + 2)"
        using acc False by (simp only: simp_thms if_False pwp_bind)
    qed
  qed
qed

lemma array_step:
  assumes e: "elems_ok n"
  shows "array_ok (Suc n)"
  unfolding array_ok_def
proof (intro allI impI)
  fix it b
  assume b: "sound b" "fresh it" "can_access b 0"
  have r: "rd (content b) (offset b) = Some (content b ! offset b)"
    using b by (auto simp: rd_def sound_def can_access_def)
  have same: "fail_post b 0 b" using b by (simp add: fail_post_def kept_def)
  have deeper: "fail_post b 0 (b\<lparr>depth := depth b + 1\<rparr>)" if "depth b < CJSON_NESTING_LIMIT"
    using b that by (auto simp: fail_post_def kept_def sound_def)
  have body: "pwp (buffer_skip_whitespace (advance 1 (b\<lparr>depth := depth b + 1\<rparr>))) (\<lambda>_ b1.
      pwp (next_is (CHR '']'') b1) (\<lambda>y b1.
      pwp (if y then POk (set_children cJSON_Array [] it) (close_buffer b1)
          else if \<not> can_access b1 0 then PFail (step_back b1) else
          pbind (parse_elems n [] (step_back b1)) (\<lambda>items b2.
          pbind (next_is (CHR '']'') b2) (\<lambda>y b2.
          if y then POk (set_children cJSON_Array items it) (close_buffer b2)
          else PFail (delete_all items b2)))) (value_post b it) (fail_post b 0) (Suc n < 3 * rem b + 2))
      (fail_post b 0) (Suc n < 3 * rem b + 2)) (fail_post b 0) (Suc n < 3 * rem b + 2)"
    if "depth b < CJSON_NESTING_LIMIT"
    by (rule body_step [where nm = False])
      (use b that elems_okD [OF e, where items = "[]"] in \<open>auto simp: items_ok_def\<close>)
  show "pwp (parse_array (Suc n) it b) (value_post b it) (fail_post b 0) (Suc n < 3 * rem b + 2)"
    unfolding parse_array.simps Let_def
    using body deeper same r by (simp only: pwp_bind parse_buffer.simps option.case not_le pwp_simps split: if_split) auto
qed

lemma members_okD:
  assumes "members_ok n" "sound b" "can_access b 0" "items_ok True (depth b) items"
  shows "pwp (parse_members n items b)
       (\<lambda>items' b'. list_post b items items' b' \<and> items_ok True (depth b) items')
       (fail_post b (int (blocks_list items))) (n < 3 * rem b + 1)"
  using assms unfolding members_ok_def by blast

lemma object_step:
  assumes m: "members_ok n"
  shows "object_ok (Suc n)"
  unfolding object_ok_def
proof (intro allI impI)
  fix it b
  assume b: "sound b" "fresh it" "can_access b 0"
  define d where "d = b\<lparr>depth := depth b + 1\<rparr>"
  have same: "fail_post b 0 b" using b by (simp add: fail_post_def kept_def)
  have deeper: "fail_post b 0 d" if "depth b < CJSON_NESTING_LIMIT"
    using b that by (auto simp: fail_post_def kept_def sound_def d_def)
  have sd: "sound d" if "depth b < CJSON_NESTING_LIMIT"
    using b that by (auto simp: sound_def d_def)
  have mem: "pwp (parse_members n [] b)
        (\<lambda>items' b'. list_post b [] items' b' \<and> items_ok True (depth b) items')
        (fail_post b 0) (n < 3 * rem b + 1)" if "sound b" "can_access b 0" for b
    using members_okD [OF m that, of "[]"] by (simp add: items_ok_def)
  have body: "pwp (buffer_skip_whitespace (advance 1 d)) (\<lambda>_ b1.
      pwp (next_is (CHR ''}'') b1) (\<lambda>y b1.
      pwp (if y then POk (set_children cJSON_Object [] it) (close_buffer b1)
          else if \<not> can_access b1 0 then PFail (step_back b1) else
          pbind (parse_members n [] (step_back b1)) (\<lambda>items b2.
          pbind (next_is (CHR ''}'') b2) (\<lambda>y b2.
          if y then POk (set_children cJSON_Object items it) (close_buffer b2)
          else PFail (delete_all items b2)))) (value_post b it) (fail_post b 0) (Suc n < 3 * rem b + 2))
      (fail_post b 0) (Suc n < 3 * rem b + 2)) (fail_post b 0) (Suc n < 3 * rem b + 2)"
    if "depth b < CJSON_NESTING_LIMIT"
    unfolding d_def by (rule body_step [where nm = True, OF mem]) (use b that in auto)
  have "pwp (next_is (CHR ''{'') d) (\<lambda>y b1.
      pwp (if \<not> y then PFail b1 else
      pbind (buffer_skip_whitespace (advance 1 b1)) (\<lambda>_ b.
      pbind (next_is (CHR ''}'') b) (\<lambda>y b.
      if y then POk (set_children cJSON_Object [] it) (close_buffer b)
      else if \<not> can_access b 0 then PFail (step_back b) else
      pbind (parse_members n [] (step_back b)) (\<lambda>items b.
      pbind (next_is (CHR ''}'') b) (\<lambda>y b.
      if y then POk (set_children cJSON_Object items it) (close_buffer b)
      else PFail (delete_all items b))))))
      (value_post b it) (fail_post b 0) (Suc n < 3 * rem b + 2)) (fail_post b 0) (Suc n < 3 * rem b + 2)"
    if dl: "depth b < CJSON_NESTING_LIMIT"
  proof (rule pwp_next_is [OF sd [OF dl]], cases "can_access d 0 \<and> content d ! offset d = CHR ''{''", goal_cases)
    case 1
    then show ?case using body [OF dl] by (simp only: simp_thms if_False pwp_bind)
  next
    case 2
    then show ?case using deeper [OF dl] by (simp only: simp_thms if_True pwp_simps)
  qed
  note main = this
  show "pwp (parse_object (Suc n) it b) (value_post b it) (fail_post b 0) (Suc n < 3 * rem b + 2)"
    unfolding parse_object.simps Let_def d_def [symmetric]
  proof (cases "CJSON_NESTING_LIMIT \<le> depth b", goal_cases)
    case 1
    then show ?case using same by (simp only: if_True pwp_simps)
  next
    case 2
    show ?case
      unfolding if_not_P [OF 2] pwp_bind by (rule main) (use 2 in simp)
  qed
qed

lemma word_post:
  assumes it: "fresh it" and b: "sound b" "can_read b k" "0 < k"
    and t: "t = cJSON_NULL \<or> t = cJSON_False \<or> t = cJSON_True"
  shows "value_post b it (set_info (\<lambda>x. x\<lparr>jtype := t\<rparr>) it) (advance k b)"
    and "value_post b it (set_info (\<lambda>x. x\<lparr>jtype := t, valueint := 1\<rparr>) it) (advance k b)"
proof -
  obtain x where x: "it = CJSON x []" "valuestring x = None" "\<not> is_reference x" "\<not> has_const_key x"
    using it by (cases it) (auto simp: fresh_def)
  have flags: "\<not> is_reference (x\<lparr>jtype := t\<rparr>)" "\<not> has_const_key (x\<lparr>jtype := t\<rparr>)"
    using t by (elim disjE; simp)+
  have no: "t \<noteq> cJSON_Array" "t \<noteq> cJSON_Object" using t by (elim disjE; simp)+
  have b': "sound (advance k b)" "kept b (advance k b)" "depth b \<le> CJSON_NESTING_LIMIT"
    using b sound_can_read by (simp_all add: kept_def advance_def sound_def can_read_def)
  have bl: "node_blocks (x\<lparr>jtype := t\<rparr>) = node_blocks x" "node_blocks (x\<lparr>jtype := t, valueint := 1\<rparr>) = node_blocks x"
    using x flags by (simp_all add: node_blocks_def)
  show "value_post b it (set_info (\<lambda>x. x\<lparr>jtype := t\<rparr>) it) (advance k b)"
    "value_post b it (set_info (\<lambda>x. x\<lparr>jtype := t, valueint := 1\<rparr>) it) (advance k b)"
    using b b' x bl flags no t
    by (simp_all add: value_post_def set_info_def wf_json.simps nesting.simps advance_def)
qed

lemma value_step:
  assumes a: "array_ok n" and o: "object_ok n"
  shows "value_ok (Suc n)"
  unfolding value_ok_def
proof (intro allI impI)
  fix it b
  assume b: "sound b" and it: "fresh it"
  obtain x where x: "it = CJSON x []" "valuestring x = None" "\<not> is_reference x" "\<not> has_const_key x"
    using it by (cases it) (auto simp: fresh_def)
  let ?F = "Suc n < 3 * rem b + 3"
  have stays: "fail_post b 0 b" using b by (simp add: fail_post_def kept_def)
  have str: "pwp (parse_string it b) (value_post b it) (fail_post b 0) ?F" if "can_access b 0"
    by (rule pwp_string [OF b that])
      (use b x in \<open>auto simp: value_post_def fail_post_def set_info_def node_blocks_def wf_json.simps
        nesting.simps sound_def\<close>)
  have num: "pwp (parse_number it b) (value_post b it) (fail_post b 0) ?F"
    by (rule pwp_number [OF b])
      (use b x stays in \<open>auto simp: value_post_def set_info_def node_blocks_def wf_json.simps
        nesting.simps sound_def advance_def kept_def\<close>)
  have arr: "pwp (parse_array n it b) (value_post b it) (fail_post b 0) ?F" if "can_access b 0"
  proof (rule pwp_mono)
    show "pwp (parse_array n it b) (value_post b it) (fail_post b 0) (n < 3 * rem b + 2)"
      using a b it that unfolding array_ok_def by blast
  qed auto
  have obj: "pwp (parse_object n it b) (value_post b it) (fail_post b 0) ?F" if "can_access b 0"
  proof (rule pwp_mono)
    show "pwp (parse_object n it b) (value_post b it) (fail_post b 0) (n < 3 * rem b + 2)"
      using o b it that unfolding object_ok_def by blast
  qed auto
  have next_rule: "pwp (pbind (next_is ch b) (\<lambda>y b'. if y then f b' else g b')) Q R F"
    if "can_access b 0 \<Longrightarrow> pwp (f b) Q R F" "pwp (g b) Q R F" for ch f g Q R F
    unfolding pwp_bind by (rule pwp_next_is [OF b]) (use that in auto)
  have sat_rule: "pwp (pbind (next_sat P b) (\<lambda>y b'. if y then f b' else g b')) Q R F"
    if "can_access b 0 \<Longrightarrow> pwp (f b) Q R F" "pwp (g b) Q R F" for P f g Q R F
    unfolding pwp_bind by (rule pwp_next_sat [OF b]) (use that in auto)
  have lit_rule: "pwp (pbind (literal s b) (\<lambda>y b'. if y then POk (h s) (advance k b') else g b'))
      (value_post b it) R F"
    if "no_nul s" "k = length s" "can_read b k \<Longrightarrow> value_post b it (h s) (advance k b)"
      "pwp (g b) (value_post b it) R F" for s k h g R F
    unfolding pwp_bind by (rule pwp_literal [OF b that(1)]) (use that in auto)
  note words = word_post [OF it b]
  show "pwp (parse_value (Suc n) it b) (value_post b it) (fail_post b 0) ?F"
    unfolding parse_value.simps
  proof (rule lit_rule, goal_cases)
    case 3
    then show ?case by (intro words) auto
  next
    case 4
    show ?case
    proof (rule lit_rule, goal_cases)
      case 3
      then show ?case by (intro words) auto
    next
      case 4
      show ?case
      proof (rule lit_rule, goal_cases)
        case 3
        then show ?case by (intro words) auto
      next
        case 4
        show ?case
          by (intro next_rule sat_rule str num arr obj) (simp_all add: stays)
      qed simp_all
    qed simp_all
  qed simp_all
qed

lemma parse_all: "value_ok n \<and> array_ok n \<and> elems_ok n \<and> object_ok n \<and> members_ok n"
proof (induction n)
  case 0
  then show ?case
    by (auto simp: value_ok_def array_ok_def elems_ok_def object_ok_def members_ok_def
        parse_value.simps parse_array.simps parse_elems.simps parse_object.simps parse_members.simps)
next
  case (Suc n)
  then show ?case
    using value_step array_step elems_step object_step members_step by blast
qed

lemma parse_value_contract:
  "sound b \<Longrightarrow> fresh it \<Longrightarrow>
    pwp (parse_value n it b) (value_post b it) (fail_post b 0) (n < 3 * rem b + 3)"
  using parse_all [of n] unfolding value_ok_def by blast

section \<open>The entry points\<close>

lemma pwp_bom:
  assumes "sound b" "offset b = 0" "0 < blen b"
    and "\<And>b'. forth b b' \<Longrightarrow> Q True b'"
  shows "pwp (skip_utf8_bom b) Q R F"
proof (cases "can_access b 4")
  case False
  then show ?thesis using assms by (simp add: skip_utf8_bom_def forth_def kept_def)
next
  case True
  define bom where "bom = [CHR 0xEF, CHR 0xBB, CHR 0xBF]"
  have len: "3 \<le> length (content b)" using True assms by (auto simp: can_access_def sound_def)
  have no: "take (length (content b)) bom = content b \<Longrightarrow> take 3 (content b) = bom"
    using len by (auto simp: bom_def dest: arg_cong [where f = length])
  have "strncmp_eq (content b) bom 3 = Some (take 3 (content b) = bom)"
    using strncmp_eq_prefix [of bom 3 "content b"] no by (auto simp: bom_def)
  then show ?thesis
    using True assms
    by (auto simp: skip_utf8_bom_def bom_def [symmetric] forth_def kept_def sound_def advance_def can_access_def)
qed

definition returned :: "call_res \<Rightarrow> (parse_out \<Rightarrow> bool) \<Rightarrow> bool" where
  "returned r P \<longleftrightarrow> (\<exists>out. r = Returned out \<and> P out)"

text \<open>What a finished call leaves: the tree and its blocks, or nothing and the error position.\<close>

definition parse_result_ok :: "nat \<Rightarrow> hooks \<Rightarrow> parse_out \<Rightarrow> bool" where
  "parse_result_ok len h out \<longleftrightarrow>
     (case p_item out of
        None \<Rightarrow> live (p_hooks out) = live h \<and> p_error out = Some (p_end out) \<and>
          p_end out \<le> len \<and> (0 < len \<longrightarrow> p_end out < len)
      | Some it \<Rightarrow> live (p_hooks out) = live h + int (blocks it) \<and> p_error out = None \<and>
          0 < p_end out \<and> p_end out \<le> len \<and> wf_json it \<and> nesting it \<le> CJSON_NESTING_LIMIT)"

lemma parse_failed_ok:
  assumes "blen b = len" "0 < len"
    and "live (hk b) = live h + int (case it of None \<Rightarrow> 0 | Some i \<Rightarrow> blocks i)"
  shows "returned (parse_failed it b) (parse_result_ok len h)"
  using assms by (auto simp: parse_failed_def returned_def parse_result_ok_def Let_def split: option.split)

lemma check_end_ok:
  assumes b: "sound b" "blen b = len" "0 < offset b" and l: "live (hk b) = live h + int (blocks it)"
    and it: "wf_json it" "nesting it \<le> CJSON_NESTING_LIMIT"
  shows "returned (check_end rn it b) (parse_result_ok len h)"
proof -
  have fine: "returned (parse_done it b') (parse_result_ok len h)" if "forth b b'" for b'
    using that b l it
    by (auto simp: parse_done_def returned_def parse_result_ok_def forth_def kept_def sound_def)
  have bad: "returned (parse_failed (Some it) b') (parse_result_ok len h)" if "forth b b'" for b'
    by (rule parse_failed_ok) (use that b l in \<open>auto simp: forth_def kept_def sound_def\<close>)
  have "pwp (pbind (buffer_skip_whitespace b) (\<lambda>_. next_is NUL)) (\<lambda>y b'. forth b b') (\<lambda>b'. False) False"
    unfolding pwp_bind
    by (rule pwp_skip [OF b(1)], rule pwp_next_is) (auto simp: forth_def)
  then show ?thesis
    using fine bad b(1)
    by (cases "pbind (buffer_skip_whitespace b) (\<lambda>_. next_is NUL)")
      (auto simp: check_end_def forth_def kept_def)
qed

lemma parse_contract:
  assumes c: "len \<le> length c"
  shows "returned (cJSON_ParseWithLengthOpts (Some c) len rn h) (parse_result_ok len h)"
proof (cases "len = 0")
  case True
  then show ?thesis
    by (simp add: cJSON_ParseWithLengthOpts_def parse_failed_def returned_def parse_result_ok_def)
next
  case False
  define b0 where "b0 = \<lparr>content = c, blen = len, offset = 0, depth = 0, hk = h\<rparr>"
  have s0: "sound b0" "offset b0 = 0" "blen b0 = len" "depth b0 = 0" "live (hk b0) = live h"
    using c by (simp_all add: sound_def b0_def)
  show ?thesis
  proof (cases "allocate h")
    case (Pair got h')
    show ?thesis
    proof (cases got)
      case False
      then have n: "new_item b0 = PFail (b0\<lparr>hk := h'\<rparr>)" and l: "live h' = live h"
        using Pair by (auto simp: new_item_def cJSON_New_Item_def b0_def allocate_def split: if_splits)
      then show ?thesis
        using \<open>len \<noteq> 0\<close> s0 parse_failed_ok [of "b0\<lparr>hk := h'\<rparr>" len h None]
        by (simp add: cJSON_ParseWithLengthOpts_def b0_def [symmetric])
    next
      case True
      then have n: "new_item b0 = POk (CJSON node0 []) (b0\<lparr>hk := h'\<rparr>)" and l: "live h' = live h + 1"
        using Pair by (auto simp: new_item_def cJSON_New_Item_def b0_def allocate_def split: if_splits)
      define b1 where "b1 = b0\<lparr>hk := h'\<rparr>"
      have s1: "sound b1" "offset b1 = 0" "blen b1 = len" "depth b1 = 0" "live (hk b1) = live h + 1"
        using s0 l by (simp_all add: b1_def)
      let ?m = "pbind (skip_utf8_bom b1) (\<lambda>ok b.
                        if \<not> ok then PFail b else
                        pbind (buffer_skip_whitespace b) (\<lambda>_. parse_value (parse_fuel len) (CJSON node0 [])))"
      have "pwp ?m (\<lambda>it b. sound b \<and> blen b = len \<and> 0 < offset b \<and>
            live (hk b) = live h + int (blocks it) \<and> wf_json it \<and> nesting it \<le> CJSON_NESTING_LIMIT)
          (\<lambda>b. blen b = len \<and> live (hk b) = live h + 1) False"
        unfolding pwp_bind
      proof (rule pwp_bom [OF s1(1,2)], goal_cases)
        case 1
        then show ?case using s1 False \<open>len \<noteq> 0\<close> by simp
      next
        case (2 b2)
        have "pwp (buffer_skip_whitespace b2) (\<lambda>_ b. pwp (parse_value (parse_fuel len) (CJSON node0 []) b)
            (\<lambda>it b. sound b \<and> blen b = len \<and> 0 < offset b \<and>
            live (hk b) = live h + int (blocks it) \<and> wf_json it \<and> nesting it \<le> CJSON_NESTING_LIMIT)
          (\<lambda>b. blen b = len \<and> live (hk b) = live h + 1) False)
          (\<lambda>b. blen b = len \<and> live (hk b) = live h + 1) False"
        proof (rule pwp_skip, goal_cases)
          case 1
          then show ?case using 2 by (simp add: forth_def)
        next
          case (2 b3)
          then have s3: "sound b3" "blen b3 = len" "depth b3 = 0" "live (hk b3) = live h + 1"
            using s1 \<open>forth b1 b2\<close> by (auto simp: forth_def kept_def)
          then have "rem b3 \<le> len" by (simp add: rem_def)
          show ?case
            by (rule pwp_mono [OF parse_value_contract [OF s3(1) fresh_node0]])
              (use s3 \<open>rem b3 \<le> len\<close> in \<open>auto simp: value_post_def fail_post_def kept_def parse_fuel_def\<close>)
        qed
        then show ?case by (simp only: simp_thms if_False pwp_bind)
      qed
      then show ?thesis
        using \<open>len \<noteq> 0\<close> n check_end_ok [where len = len and h = h and rn = rn]
          parse_failed_ok [of _ len h "Some (CJSON node0 [])"]
        by (cases ?m) (auto simp: cJSON_ParseWithLengthOpts_def b0_def [symmetric] b1_def [symmetric])
    qed
  qed
qed

definition example_hooks :: hooks where
  "example_hooks = \<lparr>alloc_fn = Libc, free_fn = Libc, has_realloc = True, avail = (\<lambda>_. True),
     calls = 0, live = 0, garbage = (\<lambda>_. CHR ''?'')\<rparr>"

text \<open>
  C10: parsing is memory safe and terminates, whatever the bytes: when the memory holds at
  least \<open>len\<close> bytes, the call returns, with a parse end inside the input; it never reads
  outside the memory, never writes outside an output block, and never runs out of fuel.
\<close>

theorem parse_returns:
  assumes "len \<le> length c"
  shows "\<exists>out. cJSON_ParseWithLengthOpts (Some c) len req_nul h = Returned out \<and> p_end out \<le> len"
  using parse_contract [OF assms, of req_nul h]
  by (auto simp: returned_def parse_result_ok_def split: option.splits)

theorem parse_returns_witness:
  "\<exists>out. cJSON_ParseWithLengthOpts (Some ''[1, {'') 5 False example_hooks = Returned out \<and> p_end out \<le> 5"
  by (rule parse_returns) simp

text \<open>
  C24: nothing leaks and nothing is freed twice, whichever allocations fail: after a failed
  parse as many blocks are live as before, and after a successful one exactly the blocks of
  the tree have been added.
\<close>

theorem parse_no_leak:
  assumes "len \<le> length c" "cJSON_ParseWithLengthOpts (Some c) len req_nul h = Returned out"
  shows "live (p_hooks out) = live h + (case p_item out of None \<Rightarrow> 0 | Some it \<Rightarrow> int (blocks it))"
  using parse_contract [OF assms(1), of req_nul h] assms(2)
  by (auto simp: returned_def parse_result_ok_def split: option.splits)

theorem parse_no_leak_witness:
  "\<exists>out. cJSON_ParseWithLengthOpts (Some ''[[],5]'') 6 False example_hooks = Returned out \<and>
     live (p_hooks out) = live example_hooks + (case p_item out of None \<Rightarrow> 0 | Some it \<Rightarrow> int (blocks it))"
proof -
  obtain out where r: "cJSON_ParseWithLengthOpts (Some ''[[],5]'') 6 False example_hooks = Returned out"
    using parse_contract [of 6 "''[[],5]''" False example_hooks] by (auto simp: returned_def)
  show ?thesis using parse_no_leak [OF _ r] r by simp
qed

text \<open>
  C25: the tree a parse returns is well formed: every item has the fields of its type and no
  others, the integer beside a number is its saturated value, members of objects have names
  and elements of arrays do not, and the nesting stays within \<^verbatim>\<open>CJSON_NESTING_LIMIT\<close>.
\<close>

theorem parse_well_formed:
  assumes "len \<le> length c" "cJSON_ParseWithLengthOpts (Some c) len req_nul h = Returned out"
    and "p_item out = Some it"
  shows "wf_json it \<and> nesting it \<le> CJSON_NESTING_LIMIT"
  using parse_contract [OF assms(1), of req_nul h] assms(2,3)
  by (auto simp: returned_def parse_result_ok_def)

theorem parse_well_formed_witness:
  "\<exists>out it. cJSON_ParseWithLengthOpts (Some ''[true]'') 6 False example_hooks = Returned out \<and>
     p_item out = Some it \<and> wf_json it \<and> nesting it \<le> CJSON_NESTING_LIMIT"
proof -
  have "case cJSON_ParseWithLengthOpts (Some ''[true]'') 6 False example_hooks of
      Returned out \<Rightarrow> p_item out \<noteq> None | _ \<Rightarrow> False"
    by code_simp
  then obtain out it where
    r: "cJSON_ParseWithLengthOpts (Some ''[true]'') 6 False example_hooks = Returned out" "p_item out = Some it"
    by (auto split: call_res.splits)
  show ?thesis using r parse_well_formed [OF _ r] by auto
qed

end
