(* ===== verification/JPrint.thy ===== *)
theory JPrint
  imports JParseSafe
begin

text \<open>
  The printer of \<^verbatim>\<open>cJSON.c\<close> over its growing buffer: the bytes are explicit, \<open>ensure\<close>
  reallocates, every store is checked against the size of the block. A result is the C
  return value with the buffer after the call, or a fault. \<open>render\<close> is the text a tree
  stands for; \<open>JPrintSafe\<close> shows that the printer writes exactly that text.
\<close>

section \<open>Buffer\<close>

record printbuffer =
  pbuf :: "string option"
  plength :: nat
  poffset :: nat
  pdepth :: nat
  noalloc :: bool
  pformat :: bool
  phk :: hooks

datatype prn = Pr bool printbuffer | PrFault

definition put :: "string \<Rightarrow> nat \<Rightarrow> string \<Rightarrow> string option" where
  "put buf pos s =
     (if pos + length s \<le> length buf then Some (take pos buf @ s @ drop (pos + length s) buf) else None)"

definition fresh_mem :: "hooks \<Rightarrow> nat \<Rightarrow> string" where
  "fresh_mem h n = map (garbage h) [0..<n]"

datatype ens = EOk printbuffer | ENull printbuffer | EFault

text \<open>\<open>realloc\<close> keeps the old bytes, frees the old block when it succeeds and leaves it when not.\<close>

definition grow_realloc :: "nat \<Rightarrow> string \<Rightarrow> printbuffer \<Rightarrow> ens" where
  "grow_realloc newsize buf p =
     (let h = phk p; h' = h\<lparr>calls := calls h + 1\<rparr> in
      if avail h (calls h) then
        EOk (p\<lparr>pbuf := Some (take newsize buf @ drop (length buf) (fresh_mem h newsize)), plength := newsize, phk := h'\<rparr>)
      else ENull (p\<lparr>pbuf := None, plength := 0, phk := deallocate h'\<rparr>))"

definition grow_manual :: "nat \<Rightarrow> string \<Rightarrow> printbuffer \<Rightarrow> ens" where
  "grow_manual newsize buf p =
     (case allocate (phk p) of
        (False, h) \<Rightarrow> ENull (p\<lparr>pbuf := None, plength := 0, phk := deallocate h\<rparr>)
      | (True, h) \<Rightarrow>
          if poffset p + 1 \<le> length buf then
            EOk (p\<lparr>pbuf := Some (take (poffset p + 1) buf @ drop (poffset p + 1) (fresh_mem h newsize)),
                   plength := newsize, phk := deallocate h\<rparr>)
          else EFault)"

definition ensure :: "printbuffer \<Rightarrow> nat \<Rightarrow> ens" where
  "ensure p needed =
     (case pbuf p of
        None \<Rightarrow> ENull p
      | Some buf \<Rightarrow>
          if 0 < plength p \<and> plength p \<le> poffset p then ENull p
          else if INT_MAX < int needed then ENull p
          else
            let needed = needed + poffset p + 1 in
            if needed \<le> plength p then EOk p
            else if noalloc p then ENull p
            else if INT_MAX div 2 < int needed \<and> \<not> int needed \<le> INT_MAX then ENull p
            else
              let newsize = (if INT_MAX div 2 < int needed then nat INT_MAX else needed * 2) in
              if has_realloc (phk p) then grow_realloc newsize buf p else grow_manual newsize buf p)"

text \<open>\<open>strlen\<close> from the current position; without a NUL in the block it reads past the end.\<close>

definition update_offset :: "printbuffer \<Rightarrow> printbuffer option" where
  "update_offset p =
     (case pbuf p of
        None \<Rightarrow> Some p
      | Some buf \<Rightarrow>
          if NUL \<in> set (drop (poffset p) buf)
          then Some (p\<lparr>poffset := poffset p + length (cstr (drop (poffset p) buf))\<rparr>)
          else None)"

definition ensured :: "printbuffer \<Rightarrow> nat \<Rightarrow> (printbuffer \<Rightarrow> prn) \<Rightarrow> prn" where
  "ensured p needed f =
     (case ensure p needed of EOk p' \<Rightarrow> f p' | ENull p' \<Rightarrow> Pr False p' | EFault \<Rightarrow> PrFault)"

text \<open>Store \<open>s\<close> at the output pointer and move the offset by \<open>k\<close>.\<close>

definition emit :: "string \<Rightarrow> nat \<Rightarrow> printbuffer \<Rightarrow> (printbuffer \<Rightarrow> prn) \<Rightarrow> prn" where
  "emit s k p f =
     (case pbuf p of
        None \<Rightarrow> PrFault
      | Some buf \<Rightarrow>
          (case put buf (poffset p) s of
             None \<Rightarrow> PrFault
           | Some buf' \<Rightarrow> f (p\<lparr>pbuf := Some buf', poffset := poffset p + k\<rparr>)))"

definition and_then :: "prn \<Rightarrow> (printbuffer \<Rightarrow> prn) \<Rightarrow> prn" where
  "and_then m f = (case m of Pr True p \<Rightarrow> f p | r \<Rightarrow> r)"

definition updated :: "printbuffer \<Rightarrow> (printbuffer \<Rightarrow> prn) \<Rightarrow> prn" where
  "updated p f = (case update_offset p of None \<Rightarrow> PrFault | Some p' \<Rightarrow> f p')"

section \<open>Numbers and strings\<close>

definition dbl_lt :: "dbl \<Rightarrow> dbl \<Rightarrow> bool" where
  "dbl_lt x y \<longleftrightarrow> dbl_le x y \<and> \<not> dbl_le y x"

definition compare_double :: "dbl \<Rightarrow> dbl \<Rightarrow> bool" where
  "compare_double a b =
     (let maxVal = (if dbl_lt (dbl_abs b) (dbl_abs a) then dbl_abs a else dbl_abs b)
      in dbl_le (dbl_abs (dbl_sub a b)) (dbl_times_eps maxVal))"

text \<open>\<open>sprintf\<close> into \<open>number_buffer\<close>, 26 bytes with the NUL.\<close>

definition sprintf26 :: "string \<Rightarrow> string option" where
  "sprintf26 s = (if length s < 26 then Some s else None)"

definition number_text :: "dbl \<Rightarrow> int \<Rightarrow> string option" where
  "number_text d i =
     (if is_nan d \<or> is_inf d then sprintf26 ''null''
      else if dbl_eq d (dbl_of_int i) then sprintf26 (show_int i)
      else case sprintf26 (fmt_g 15 d) of
        None \<Rightarrow> None
      | Some t \<Rightarrow>
          (let (test, n) = strtod t
           in if n = 0 \<or> \<not> compare_double test d then sprintf26 (fmt_g 17 d) else Some t))"

definition print_number :: "node \<Rightarrow> printbuffer \<Rightarrow> prn" where
  "print_number n p =
     (case number_text (valuedouble n) (valueint n) of
        None \<Rightarrow> PrFault
      | Some t \<Rightarrow>
          if 25 < length t then Pr False p
          else ensured p (length t + 1) (\<lambda>p. emit (t @ [NUL]) (length t) p (Pr True)))"

definition short_escape :: "char \<Rightarrow> char option" where
  "short_escape c =
     (if c = CHR 0x5C then Some (CHR 0x5C)
      else if c = CHR 0x22 then Some (CHR 0x22)
      else if c = CHR 0x08 then Some (CHR ''b'')
      else if c = CHR 0x0C then Some (CHR ''f'')
      else if c = CHR 0x0A then Some (CHR ''n'')
      else if c = CHR 0x0D then Some (CHR ''r'')
      else if c = CHR 0x09 then Some (CHR ''t'')
      else None)"

definition esc_extra :: "char \<Rightarrow> nat" where
  "esc_extra c = (if short_escape c \<noteq> None then 1 else if byte c < 32 then 5 else 0)"

text \<open>The characters written for one input character; \<^verbatim>\<open>%04x\<close> also stores its NUL.\<close>

definition esc_char :: "char \<Rightarrow> string" where
  "esc_char c =
     (if 31 < byte c \<and> c \<noteq> CHR 0x22 \<and> c \<noteq> CHR 0x5C then [c]
      else CHR 0x5C # (case short_escape c of Some e \<Rightarrow> [e] | None \<Rightarrow> CHR ''u'' # hex4_text (byte c)))"

definition esc_stores :: "char \<Rightarrow> string" where
  "esc_stores c = esc_char c @ (if byte c < 32 \<and> short_escape c = None then [NUL] else [])"

fun esc_loop :: "string \<Rightarrow> nat \<Rightarrow> string \<Rightarrow> string option" where
  "esc_loop [] pos buf = Some buf"
| "esc_loop (c # cs) pos buf =
     (case put buf pos (esc_stores c) of
        None \<Rightarrow> None
      | Some buf' \<Rightarrow> esc_loop cs (pos + length (esc_char c)) buf')"

definition print_string_ptr :: "string option \<Rightarrow> printbuffer \<Rightarrow> prn" where
  "print_string_ptr input p =
     (case input of
        None \<Rightarrow> ensured p 3 (\<lambda>p. emit [CHR 0x22, CHR 0x22, NUL] 0 p (Pr True))
      | Some mem \<Rightarrow>
          let s = cstr mem;
              extra = sum_list (map esc_extra s);
              output_length = length s + extra
          in ensured p (output_length + 3) (\<lambda>p.
               if extra = 0 then emit (CHR 0x22 # s @ [CHR 0x22, NUL]) 0 p (Pr True)
               else emit [CHR 0x22] 0 p (\<lambda>p.
                 case pbuf p of
                   None \<Rightarrow> PrFault
                 | Some buf \<Rightarrow>
                     (case esc_loop s (poffset p + 1) buf of
                        None \<Rightarrow> PrFault
                      | Some buf' \<Rightarrow>
                          (case put buf' (poffset p + output_length + 1) [CHR 0x22, NUL] of
                             None \<Rightarrow> PrFault
                           | Some buf'' \<Rightarrow> Pr True (p\<lparr>pbuf := Some buf''\<rparr>))))))"

section \<open>Values, arrays and objects\<close>

definition print_word :: "string \<Rightarrow> printbuffer \<Rightarrow> prn" where
  "print_word w p = ensured p (length w + 1) (\<lambda>p. emit (w @ [NUL]) 0 p (Pr True))"

definition deeper :: "printbuffer \<Rightarrow> printbuffer" where
  "deeper p = p\<lparr>pdepth := pdepth p + 1\<rparr>"

definition shallower :: "printbuffer \<Rightarrow> printbuffer" where
  "shallower p = p\<lparr>pdepth := pdepth p - 1\<rparr>"

text \<open>\<open>print_array\<close> and \<open>print_object\<close> around their loops.\<close>

definition print_array :: "(printbuffer \<Rightarrow> prn) \<Rightarrow> printbuffer \<Rightarrow> prn" where
  "print_array elems p =
     ensured p 1 (\<lambda>p. emit ''['' 1 p (\<lambda>p.
     and_then (elems (deeper p)) (\<lambda>p.
     ensured p 2 (\<lambda>p. emit ('']'' @ [NUL]) 0 p (\<lambda>p. Pr True (shallower p))))))"

definition tabs :: "nat \<Rightarrow> string" where
  "tabs n = replicate n (CHR 0x09)"

definition print_object :: "(printbuffer \<Rightarrow> prn) \<Rightarrow> printbuffer \<Rightarrow> prn" where
  "print_object members p =
     (let len = (if pformat p then 2 else 1) in
      ensured p (len + 1) (\<lambda>p. emit (if pformat p then [CHR ''{'', CHR 0x0A] else ''{'') len p (\<lambda>p.
      and_then (members (deeper p)) (\<lambda>p.
      ensured p (if pformat p then pdepth p + 1 else 2) (\<lambda>p.
      emit ((if pformat p then tabs (pdepth p - 1) else []) @ ''}'' @ [NUL]) 0 p (\<lambda>p.
      Pr True (shallower p)))))))"

text \<open>The separator after an element, and what follows a key and a member.\<close>

definition elem_sep :: "bool \<Rightarrow> string" where
  "elem_sep f = '','' @ (if f then '' '' else [])"

definition key_sep :: "bool \<Rightarrow> string" where
  "key_sep f = '':'' @ (if f then [CHR 0x09] else [])"

definition member_sep :: "bool \<Rightarrow> bool \<Rightarrow> string" where
  "member_sep f comma = (if comma then '','' else []) @ (if f then [CHR 0x0A] else [])"

fun print_value :: "CJSON \<Rightarrow> printbuffer \<Rightarrow> prn"
  and print_elems :: "CJSON list \<Rightarrow> printbuffer \<Rightarrow> prn"
  and print_members :: "CJSON list \<Rightarrow> printbuffer \<Rightarrow> prn"
where
  "print_value (CJSON n ch) p =
     (let t = jtype n AND 0xFF in
      if t = cJSON_NULL then print_word ''null'' p
      else if t = cJSON_False then print_word ''false'' p
      else if t = cJSON_True then print_word ''true'' p
      else if t = cJSON_Number then print_number n p
      else if t = cJSON_Raw then
        (case valuestring n of
           None \<Rightarrow> Pr False p
         | Some s \<Rightarrow> ensured p (length (cstr s) + 1) (\<lambda>p. emit (cstr s @ [NUL]) 0 p (Pr True)))
      else if t = cJSON_String then print_string_ptr (valuestring n) p
      else if t = cJSON_Array then print_array (\<lambda>p. print_elems ch p) p
      else if t = cJSON_Object then print_object (\<lambda>p. print_members ch p) p
      else Pr False p)"
| "print_elems [] p = Pr True p"
| "print_elems (c # cs) p =
     and_then (print_value c p) (\<lambda>p. updated p (\<lambda>p.
     if cs \<noteq> [] then
       let len = (if pformat p then 2 else 1) in
       ensured p (len + 1) (\<lambda>p.
       emit (elem_sep (pformat p) @ [NUL]) len p (\<lambda>p. print_elems cs p))
     else print_elems cs p))"
| "print_members [] p = Pr True p"
| "print_members (c # cs) p =
     and_then
       (if pformat p then
          ensured p (pdepth p) (\<lambda>p. emit (tabs (pdepth p)) (pdepth p) p (Pr True))
        else Pr True p) (\<lambda>p.
     and_then (print_string_ptr (jstring (info c)) p) (\<lambda>p. updated p (\<lambda>p.
     let len = (if pformat p then 2 else 1) in
     ensured p len (\<lambda>p. emit (key_sep (pformat p)) len p (\<lambda>p.
     and_then (print_value c p) (\<lambda>p. updated p (\<lambda>p.
     let len = (if pformat p then 1 else 0) + (if cs \<noteq> [] then 1 else 0) in
     ensured p (len + 1) (\<lambda>p.
     emit (member_sep (pformat p) (cs \<noteq> []) @ [NUL]) len p (\<lambda>p. print_members cs p)))))))))"

declare print_value.simps [simp del] print_elems.simps [simp del] print_members.simps [simp del]

section \<open>Entry points\<close>

text \<open>
  What \<open>print\<close> and \<open>cJSON_PrintBuffered\<close> return: the block with the text, or \<open>NULL\<close>, and the
  hooks; or a fault.
\<close>

datatype print_res = Text "string option" hooks | PrintCrash

text \<open>Freeing \<open>NULL\<close> does nothing.\<close>

definition print_failed :: "printbuffer \<Rightarrow> print_res" where
  "print_failed p = Text None (if pbuf p = None then phk p else deallocate (phk p))"

definition finish_print :: "printbuffer \<Rightarrow> print_res" where
  "finish_print p =
     (case pbuf p of
        None \<Rightarrow> PrintCrash
      | Some buf \<Rightarrow>
          if has_realloc (phk p) then
            let h = phk p; h' = h\<lparr>calls := calls h + 1\<rparr>; n = poffset p + 1 in
            if avail h (calls h) then
              Text (Some (take n buf @ drop (length buf) (fresh_mem h n))) h'
            else print_failed (p\<lparr>phk := h'\<rparr>)
          else
            (case allocate (phk p) of
               (False, h) \<Rightarrow> print_failed (p\<lparr>phk := h\<rparr>)
             | (True, h) \<Rightarrow>
                 let n = poffset p + 1; m = min (plength p) n
                 in if m \<le> length buf then
                      (case put (take m buf @ drop m (fresh_mem h n)) (poffset p) [NUL] of
                         None \<Rightarrow> PrintCrash
                       | Some out \<Rightarrow> Text (Some out) (deallocate h))
                    else PrintCrash))"

definition new_buffer :: "nat \<Rightarrow> bool \<Rightarrow> hooks \<Rightarrow> hooks \<Rightarrow> printbuffer" where
  "new_buffer n fmt h h' =
     \<lparr>pbuf = Some (fresh_mem h n), plength = n, poffset = 0, pdepth = 0, noalloc = False,
      pformat = fmt, phk = h'\<rparr>"

text \<open>The function \<open>print\<close>; the name is taken in Isabelle.\<close>

definition print_json :: "CJSON option \<Rightarrow> bool \<Rightarrow> hooks \<Rightarrow> print_res" where
  "print_json item fmt h =
     (case allocate h of
        (False, h') \<Rightarrow> Text None h'
      | (True, h') \<Rightarrow>
          (case item of
             None \<Rightarrow> print_failed (new_buffer 256 fmt h h')
           | Some it \<Rightarrow>
               (case print_value it (new_buffer 256 fmt h h') of
                  PrFault \<Rightarrow> PrintCrash
                | Pr ok p \<Rightarrow>
                    if \<not> ok then print_failed p
                    else (case update_offset p of
                            None \<Rightarrow> PrintCrash
                          | Some p' \<Rightarrow> finish_print p'))))"

definition cJSON_Print :: "CJSON option \<Rightarrow> hooks \<Rightarrow> print_res" where
  "cJSON_Print item = print_json item True"

definition cJSON_PrintUnformatted :: "CJSON option \<Rightarrow> hooks \<Rightarrow> print_res" where
  "cJSON_PrintUnformatted item = print_json item False"

definition cJSON_PrintBuffered :: "CJSON option \<Rightarrow> int \<Rightarrow> bool \<Rightarrow> hooks \<Rightarrow> print_res" where
  "cJSON_PrintBuffered item prebuffer fmt h =
     (if prebuffer < 0 then Text None h
      else case allocate h of
        (False, h') \<Rightarrow> Text None h'
      | (True, h') \<Rightarrow>
          (case item of
             None \<Rightarrow> print_failed (new_buffer (nat prebuffer) fmt h h')
           | Some it \<Rightarrow>
               (case print_value it (new_buffer (nat prebuffer) fmt h h') of
                  PrFault \<Rightarrow> PrintCrash
                | Pr ok p \<Rightarrow> if ok then Text (pbuf p) (phk p) else print_failed p)))"

text \<open>
  \<open>cJSON_PrintPreallocated\<close> with a buffer of the caller: the return value and the buffer
  after the call; \<open>None\<close> is a fault.
\<close>

definition cJSON_PrintPreallocated ::
    "CJSON option \<Rightarrow> string option \<Rightarrow> int \<Rightarrow> bool \<Rightarrow> hooks \<Rightarrow> (bool \<times> string option) option" where
  "cJSON_PrintPreallocated item buf len fmt h =
     (if len < 0 \<or> buf = None then Some (False, buf)
      else case item of
        None \<Rightarrow> Some (False, buf)
      | Some it \<Rightarrow>
          (case print_value it \<lparr>pbuf = buf, plength = nat len, poffset = 0, pdepth = 0, noalloc = True,
                  pformat = fmt, phk = h\<rparr> of
             PrFault \<Rightarrow> None
           | Pr ok p \<Rightarrow> Some (ok, pbuf p)))"

section \<open>The text of a tree\<close>

definition escape :: "string \<Rightarrow> string" where
  "escape s = concat (map esc_char s)"

definition quoted :: "string option \<Rightarrow> string" where
  "quoted s = CHR 0x22 # (case s of None \<Rightarrow> [] | Some t \<Rightarrow> escape (cstr t)) @ [CHR 0x22]"

fun render :: "bool \<Rightarrow> nat \<Rightarrow> CJSON \<Rightarrow> string option"
  and render_elems :: "bool \<Rightarrow> nat \<Rightarrow> CJSON list \<Rightarrow> string option"
  and render_members :: "bool \<Rightarrow> nat \<Rightarrow> CJSON list \<Rightarrow> string option"
where
  "render f d (CJSON n ch) =
     (let t = jtype n AND 0xFF in
      if t = cJSON_NULL then Some ''null''
      else if t = cJSON_False then Some ''false''
      else if t = cJSON_True then Some ''true''
      else if t = cJSON_Number then number_text (valuedouble n) (valueint n)
      else if t = cJSON_Raw then map_option cstr (valuestring n)
      else if t = cJSON_String then Some (quoted (valuestring n))
      else if t = cJSON_Array then
        map_option (\<lambda>s. ''['' @ s @ '']'') (render_elems f (d + 1) ch)
      else if t = cJSON_Object then
        map_option (\<lambda>s. ''{'' @ (if f then [CHR 0x0A] else []) @ s @ (if f then tabs d else []) @ ''}'')
          (render_members f (d + 1) ch)
      else None)"
| "render_elems f d [] = Some []"
| "render_elems f d (c # cs) =
     (case (render f d c, render_elems f d cs) of
        (Some s, Some r) \<Rightarrow> Some (s @ (if cs \<noteq> [] then elem_sep f else []) @ r)
      | _ \<Rightarrow> None)"
| "render_members f d [] = Some []"
| "render_members f d (c # cs) =
     (case (render f d c, render_members f d cs) of
        (Some s, Some r) \<Rightarrow>
          Some ((if f then tabs d else []) @ quoted (jstring (info c)) @ key_sep f @
            s @ member_sep f (cs \<noteq> []) @ r)
      | _ \<Rightarrow> None)"

declare render.simps [simp del] render_elems.simps [simp del] render_members.simps [simp del]

end
