(* ===== verification/JNumber.thy ===== *)
theory JNumber
  imports JPrint
begin

text \<open>
  Number text: what \<open>print_number\<close> prints for any binary64 value fits its 26-byte buffer and
  holds no NUL.
\<close>

section \<open>Binary64 values\<close>

fun valid_dbl :: "dbl \<Rightarrow> bool" where
  "valid_dbl (Fin s m e) \<longleftrightarrow> m < 2 ^ 53 \<and> - 1074 \<le> e \<and> e \<le> 971"
| "valid_dbl _ = True"

fun valid_json :: "CJSON \<Rightarrow> bool" where
  "valid_json (CJSON n ch) \<longleftrightarrow>
     valid_dbl (valuedouble n) \<and> in_int32 (valueint n) \<and> (\<forall>c \<in> set ch. valid_json c)"

declare valid_json.simps [simp del]

section \<open>The number of digits\<close>

lemma half_even_le: "0 < d \<Longrightarrow> n < c * d \<Longrightarrow> half_even n d \<le> c"
proof -
  assume "0 < d" "n < c * d"
  then have "n div d < c" by (simp add: div_less_iff_less_mult)
  then show ?thesis by (simp add: half_even_def Let_def)
qed

lemma show_nat_upper: "n < 10 ^ length (show_nat n)"
proof (induction n rule: show_nat.induct)
  case (1 n)
  show ?case
  proof (cases "n < 10")
    case True
    then show ?thesis by (simp add: show_nat.simps [of n])
  next
    case False
    then have "n div 10 < 10 ^ length (show_nat (n div 10))" using 1 by simp
    then have "n < 10 * 10 ^ length (show_nat (n div 10))" by linarith
    then show ?thesis using False by (simp add: show_nat.simps [of n])
  qed
qed

lemma neg_exp_upper: "0 < n \<Longrightarrow> n < d \<Longrightarrow> n * 10 ^ neg_exp n d < 10 * d"
proof (induction n d rule: neg_exp.induct)
  case (1 n d)
  then have step: "neg_exp n d = Suc (neg_exp (10 * n) d)" by (simp add: neg_exp.simps [of n d])
  show ?case
  proof (cases "10 * n < d")
    case True
    then have "10 * n * 10 ^ neg_exp (10 * n) d < 10 * d" using 1 by simp
    then show ?thesis by (simp add: step)
  next
    case False
    then have "neg_exp (10 * n) d = 0" by (simp add: neg_exp.simps [of "10 * n" d])
    then show ?thesis using 1 by (simp add: step)
  qed
qed

lemma neg_exp_le: "0 < n \<Longrightarrow> d \<le> n * 10 ^ k \<Longrightarrow> neg_exp n d \<le> k"
proof (induction n d arbitrary: k rule: neg_exp.induct)
  case (1 n d)
  show ?case
  proof (cases "d \<le> n")
    case True
    then show ?thesis by (simp add: neg_exp.simps [of n d])
  next
    case False
    then obtain j where k: "k = Suc j" using 1 by (cases k) auto
    then have "d \<le> 10 * n * 10 ^ j" using "1.prems" by (simp add: mult_ac)
    then show ?thesis using 1 False k by (simp add: neg_exp.simps [of n d])
  qed
qed

lemma sig_digits_bound:
  assumes "0 < n" "0 < d" "0 < P" and gx: "sig_digits P n d = (g, x)"
  shows "g < 10 ^ P \<and> dec_exp n d \<le> x \<and> x \<le> dec_exp n d + 1"
proof -
  define y where "y = dec_exp n d"
  define k where "k = int P - 1 - y"
  define h where "h = (if 0 \<le> k then half_even (n * 10 ^ nat k) d else half_even n (d * 10 ^ nat (- k)))"
  have "h \<le> 10 ^ P"
  proof (cases "d \<le> n")
    case True
    define L where "L = length (show_nat (n div d))"
    have "n div d < 10 ^ L" unfolding L_def by (rule show_nat_upper)
    then have nL: "n < 10 ^ L * d" using assms(2) by (simp add: div_less_iff_less_mult)
    have kL: "k = int P - int L" using True by (simp add: k_def y_def dec_exp_def L_def)
    show ?thesis
    proof (cases "L \<le> P")
      case True
      have "n * 10 ^ (P - L) < 10 ^ L * d * 10 ^ (P - L)" using nL by simp
      also have "\<dots> = 10 ^ P * d" using True by (simp add: mult_ac flip: power_add)
      finally show ?thesis
        using True assms(2) kL by (simp add: h_def half_even_le nat_diff_distrib)
    next
      case False
      then have "n < 10 ^ P * (d * 10 ^ (L - P))" using nL by (simp add: mult_ac flip: power_add)
      then show ?thesis
        using False assms(2) kL by (simp add: h_def half_even_le nat_diff_distrib)
    qed
  next
    case False
    define e where "e = neg_exp n d"
    have "n * 10 ^ e < 10 * d" using neg_exp_upper [of n d] assms False by (simp add: e_def)
    then have "n * 10 ^ e * 10 ^ (P - 1) < 10 * d * 10 ^ (P - 1)" by simp
    also have "\<dots> = 10 ^ P * d" using assms(3) by (cases P) simp_all
    finally have "n * 10 ^ (P - 1 + e) < 10 ^ P * d" by (simp add: power_add mult_ac)
    moreover have "nat k = P - 1 + e" "0 \<le> k"
      using False assms(3) by (simp_all add: k_def y_def dec_exp_def e_def nat_add_distrib)
    ultimately show ?thesis using assms(2) by (simp add: h_def half_even_le)
  qed
  moreover have "sig_digits P n d = (if h = 10 ^ P then (10 ^ (P - 1), y + 1) else (h, y))"
    by (simp only: sig_digits_def Let_def y_def k_def h_def)
  ultimately show ?thesis using gx assms(3) by (auto simp: y_def split: if_splits)
qed

lemma pow2_pow10: "(2::nat) ^ (93 * k + j) \<le> 10 ^ (28 * k) * 2 ^ j"
proof -
  have "((2::nat) ^ 93) ^ k \<le> (10 ^ 28) ^ k" by (rule power_mono) simp_all
  then show ?thesis by (simp only: power_add power_mult mult_le_mono1)
qed

lemma pow2_bounds: "(2::nat) ^ 1024 \<le> 10 ^ 309" "(2::nat) ^ 1074 \<le> 10 ^ 324"
proof -
  have e: "(93 * 11 + 1 :: nat) = 1024" "(28 * 11 + 1 :: nat) = 309"
    "(93 * 11 + 51 :: nat) = 1074" "(28 * 11 + 16 :: nat) = 324" by simp_all
  have "(2::nat) ^ (93 * 11 + 1) \<le> 10 ^ (28 * 11) * 2 ^ 1" by (rule pow2_pow10)
  also have "\<dots> \<le> 10 ^ (28 * 11) * 10 ^ 1" by (rule mult_le_mono2) simp
  also have "\<dots> = 10 ^ (28 * 11 + 1)" by (simp only: power_add)
  finally show "(2::nat) ^ 1024 \<le> 10 ^ 309" unfolding e .
  have "(2::nat) ^ (93 * 11 + 51) \<le> 10 ^ (28 * 11) * 2 ^ 51" by (rule pow2_pow10)
  also have "\<dots> \<le> 10 ^ (28 * 11) * 10 ^ 16" by (rule mult_le_mono2) simp
  also have "\<dots> = 10 ^ (28 * 11 + 16)" by (simp only: power_add)
  finally show "(2::nat) ^ 1074 \<le> 10 ^ 324" unfolding e .
qed

lemma dec_exp_range:
  assumes "0 < n" and n: "n < 2 ^ 1024" and "0 < d" and d: "d \<le> 2 ^ 1074"
  shows "- 400 \<le> dec_exp n d \<and> dec_exp n d \<le> 400"
proof (cases "d \<le> n")
  case True
  have "n div d \<le> n" by simp
  also have "n < 10 ^ 309" using n pow2_bounds(1) by (rule less_le_trans)
  finally have "length (show_nat (n div d)) \<le> 309" by (rule length_show_nat_le) simp
  then show ?thesis using True by (simp add: dec_exp_def)
next
  case False
  have "d \<le> 10 ^ 324" using d pow2_bounds(2) by (rule le_trans)
  also have "\<dots> \<le> n * 10 ^ 324" using mult_le_mono1 [of 1 n "10 ^ 324"] assms(1) by (simp only: mult_1)
  finally have "neg_exp n d \<le> 324" by (rule neg_exp_le [OF assms(1)])
  then show ?thesis using False by (simp add: dec_exp_def)
qed

section \<open>The length of the text\<close>

lemma length_strip0: "length (strip0 s) \<le> length s"
  unfolding strip0_def by (metis length_dropWhile_le length_rev)

lemma length_with_point: "length (with_point ip fp) \<le> length ip + 1 + length fp"
  using length_strip0 [of fp] by (auto simp: with_point_def)

lemma length_show_exp: "\<bar>x\<bar> < 1000 \<Longrightarrow> length (show_exp x) \<le> 5"
proof -
  assume x: "\<bar>x\<bar> < 1000"
  then have "length (show_nat (nat \<bar>x\<bar>)) \<le> 3" by (intro length_show_nat_le) auto
  moreover have "\<bar>x\<bar> < 10 \<Longrightarrow> length (show_nat (nat \<bar>x\<bar>)) \<le> 1" by (intro length_show_nat_le) auto
  ultimately show ?thesis by (auto simp: show_exp_def)
qed

lemma length_fmt_g:
  assumes "valid_dbl v" "0 < P"
  shows "length (fmt_g P v) \<le> P + 7"
proof (cases "nat \<bar>fst (dbl_frac v)\<bar> = 0")
  case True
  then show ?thesis by (auto simp: fmt_g_def Let_def case_prod_unfold split: dbl.split)
next
  case False
  then obtain s m e where v: "v = Fin s m e" by (cases v) auto
  define n d where "n = nat \<bar>fst (dbl_frac v)\<bar>" and "d = snd (dbl_frac v)"
  have n0: "0 < n" "0 < d" using False by (simp_all add: n_def d_def)
  have m: "m < 2 ^ 53" "- 1074 \<le> e" "e \<le> 971" using assms v by simp_all
  have nval: "n = (if 0 \<le> e then m * 2 ^ nat e else m)" and dval: "d = (if 0 \<le> e then 1 else 2 ^ nat (- e))"
    by (auto simp: n_def d_def v abs_mult nat_mult_distrib nat_power_eq)
  have "m * 2 ^ nat e < 2 ^ 53 * 2 ^ nat e" using m by simp
  also have "\<dots> \<le> 2 ^ 53 * 2 ^ 971" using m by (intro mult_left_mono power_increasing) auto
  finally have "m * 2 ^ nat e < 2 ^ 1024" by (simp flip: power_add)
  moreover have "m < 2 ^ 1024" using m(1) by (rule less_trans) simp
  ultimately have nb: "n < 2 ^ 1024" by (simp add: nval)
  have "(2::nat) ^ nat (- e) \<le> 2 ^ 1074" using m by (intro power_increasing) auto
  then have db: "d \<le> 2 ^ 1074" by (simp add: dval)
  obtain g x where gx: "sig_digits P n d = (g, x)" by (cases "sig_digits P n d")
  have g: "g < 10 ^ P" and x: "\<bar>x\<bar> < 1000"
    using sig_digits_bound [OF n0 assms(2) gx] dec_exp_range [OF n0(1) nb n0(2) db] by auto
  have ds: "length (show_nat g) \<le> P" using g assms(2) by (rule length_show_nat_le)
  define sg where "sg = (case v of Fin s m e \<Rightarrow> if s then ''-'' else [] | _ \<Rightarrow> [])"
  have sg: "length sg \<le> 1" by (simp add: sg_def v)
  have pt: "length (with_point (take k (show_nat g)) (drop k (show_nat g))) \<le> P + 1" for k
    using length_with_point [of "take k (show_nat g)" "drop k (show_nat g)"] ds by simp
  have zz: "length (with_point ''0'' (replicate (nat (- x) - 1) CHR ''0'' @ show_nat g)) \<le> P + 5"
    if "- 4 \<le> x"
    using length_with_point [of "''0''" "replicate (nat (- x) - 1) CHR ''0'' @ show_nat g"] ds that by simp
  have nz: "fst (dbl_frac v) \<noteq> 0" using False by simp
  have "fmt_g P v =
    (if x < -4 \<or> int P \<le> x then sg @ with_point (take 1 (show_nat g)) (drop 1 (show_nat g)) @ show_exp x
     else if 0 \<le> x then sg @ with_point (take (nat x + 1) (show_nat g)) (drop (nat x + 1) (show_nat g))
     else sg @ with_point ''0'' (replicate (nat (- x) - 1) CHR ''0'' @ show_nat g))"
    using n0 nz by (simp add: fmt_g_def Let_def case_prod_unfold n_def [symmetric] d_def [symmetric] gx sg_def)
  then show ?thesis
    using sg pt [of 1] pt [of "nat x + 1"] zz length_show_exp [OF x] by (auto split: if_splits)
qed

lemma length_show_int: "in_int32 i \<Longrightarrow> length (show_int i) \<le> 11"
proof -
  assume "in_int32 i"
  then have "nat i < 10 ^ 10" "nat (- i) < 10 ^ 10" by (auto simp: c_ints)
  then have "length (show_nat (nat i)) \<le> 10" "length (show_nat (nat (- i))) \<le> 10"
    by (auto intro!: length_show_nat_le)
  then show ?thesis by (auto simp: show_int_def)
qed

section \<open>Numbers that are integers\<close>

lemma valid_dbl_int:
  assumes "\<bar>i\<bar> < 2 ^ 53"
  shows "valid_dbl (dbl_of_int i)"
proof (cases "i = 0")
  case True
  then show ?thesis by (simp add: dbl_of_int_def dbl_of_frac_def)
next
  case False
  define n where "n = nat \<bar>i\<bar>"
  have n: "0 < n" "n < 2 ^ 53" using False assms by (auto simp: n_def)
  have L: "bitlen n \<le> 53" using n by (simp add: bitlen_le)
  have "n * 2 ^ (53 - bitlen n) < 2 ^ bitlen n * 2 ^ (53 - bitlen n)"
    using bitlen_bounds [of n] by simp
  also have "\<dots> = 2 ^ 53" using L by (simp flip: power_add)
  finally show ?thesis
    using dbl_of_frac_nat [OF n, of "i < 0"] L by (simp add: dbl_of_int_def n_def)
qed

lemma number_text_int:
  assumes "in_int32 i"
  shows "number_text (dbl_of_int i) i = Some (show_int i)"
proof -
  have "\<bar>i\<bar> < 2 ^ 53" using assms by (auto simp: in_int32_def INT_MAX_def INT_MIN_def)
  then show ?thesis using length_show_int [OF assms] by (simp add: number_text_def sprintf26_def)
qed

section \<open>No NUL\<close>

lemma no_nul_set: "no_nul s \<longleftrightarrow> (\<forall>c \<in> set s. c \<noteq> NUL)"
  by (auto simp: no_nul_def)

lemma no_nul_take_drop [simp]: "no_nul s \<Longrightarrow> no_nul (take k s)" "no_nul s \<Longrightarrow> no_nul (drop k s)"
  unfolding no_nul_def by (auto dest: in_set_takeD in_set_dropD)

lemma no_nul_strip0 [simp]: "no_nul s \<Longrightarrow> no_nul (strip0 s)"
  unfolding strip0_def no_nul_def by (metis set_rev set_dropWhileD)

lemma no_nul_with_point [simp]: "no_nul ip \<Longrightarrow> no_nul fp \<Longrightarrow> no_nul (with_point ip fp)"
  by (simp add: with_point_def)

lemma no_nul_replicate [simp]: "c \<noteq> NUL \<Longrightarrow> no_nul (replicate k c)"
  by (simp add: no_nul_set)

lemma no_nul_show_exp [simp]: "no_nul (show_exp x)"
  by (simp add: show_exp_def)

lemma no_nul_fmt_g: "no_nul (fmt_g P v)"
proof -
  define sg where "sg = (case v of Fin s m e \<Rightarrow> if s then ''-'' else [] | _ \<Rightarrow> [])"
  have "no_nul sg" by (cases v) (simp_all add: sg_def)
  then show ?thesis
    unfolding fmt_g_def Let_def case_prod_unfold sg_def [symmetric] by simp
qed

text \<open>
  printing a number never overruns \<^verbatim>\<open>number_buffer\<close>: for every binary64 value and every
  \<^verbatim>\<open>int\<close> beside it there is a text, of at most 25 characters and without a NUL.
\<close>

theorem number_text_fits:
  assumes "valid_dbl d" "in_int32 i"
  shows "\<exists>t. number_text d i = Some t \<and> length t \<le> 25 \<and> no_nul t"
  using length_fmt_g [OF assms(1), of 15] length_fmt_g [OF assms(1), of 17] length_show_int [OF assms(2)]
  by (auto simp: number_text_def sprintf26_def no_nul_fmt_g Let_def case_prod_unfold)

theorem number_text_fits_witness:
  "\<exists>t. number_text (Fin True 9007199254740991 971) INT_MIN = Some t \<and> length t \<le> 25 \<and> no_nul t"
  by (rule number_text_fits) (simp_all add: c_ints)

end
