(* ===== verification/JPrintSafe.thy ===== *)
theory JPrintSafe
  imports JNumber
begin

text \<open>
  The printer implements \<open>render\<close>: a call that returns true has written exactly the text of
  the tree behind the offset, closed by a NUL, inside its block; a call that returns false
  has run out of room or memory, or the tree has no text; there is no fault, and the live
  blocks are accounted for.
\<close>

section \<open>Results and buffers\<close>

definition pw :: "prn \<Rightarrow> (printbuffer \<Rightarrow> bool) \<Rightarrow> (printbuffer \<Rightarrow> bool) \<Rightarrow> bool" where
  "pw r Q R = (case r of Pr ok p \<Rightarrow> if ok then Q p else R p | PrFault \<Rightarrow> False)"

lemma pw_simps [simp]:
  "pw (Pr True p) Q R \<longleftrightarrow> Q p" "pw (Pr False p) Q R \<longleftrightarrow> R p" "pw PrFault Q R \<longleftrightarrow> False"
  by (simp_all add: pw_def)

lemma pw_and_then: "pw m (\<lambda>p. pw (f p) Q R) R \<Longrightarrow> pw (and_then m f) Q R"
  by (cases m; cases "m = Pr True (case m of Pr ok p \<Rightarrow> p)") (auto simp: and_then_def pw_def split: bool.splits if_splits)

lemma pw_mono: "pw r Q R \<Longrightarrow> (\<And>p. Q p \<Longrightarrow> Q' p) \<Longrightarrow> (\<And>p. R p \<Longrightarrow> R' p) \<Longrightarrow> pw r Q' R'"
  by (cases r) (auto simp: pw_def split: if_splits)

definition bytes :: "printbuffer \<Rightarrow> string" where
  "bytes p = (case pbuf p of None \<Rightarrow> [] | Some buf \<Rightarrow> buf)"

definition written :: "printbuffer \<Rightarrow> string" where
  "written p = take (poffset p) (bytes p)"

definition pb_ok :: "printbuffer \<Rightarrow> bool" where
  "pb_ok p \<longleftrightarrow> pbuf p \<noteq> None \<and> length (bytes p) = plength p \<and>
     (poffset p < plength p \<or>
      plength p = 0 \<and> poffset p = 0 \<and> (noalloc p \<or> has_realloc (phk p)))"

text \<open>What no call changes, and the live blocks.\<close>

definition same :: "printbuffer \<Rightarrow> printbuffer \<Rightarrow> bool" where
  "same p p' \<longleftrightarrow> noalloc p' = noalloc p \<and> pformat p' = pformat p \<and>
     has_realloc (phk p') = has_realloc (phk p) \<and> avail (phk p') = avail (phk p) \<and>
     (noalloc p \<longrightarrow> plength p' = plength p)"

text \<open>After a failure the buffer is still there, or freed already.\<close>

definition failed :: "printbuffer \<Rightarrow> printbuffer \<Rightarrow> bool" where
  "failed p p' \<longleftrightarrow> same p p' \<and>
     live (phk p') = live (phk p) - (if pbuf p' = None then 1 else 0) \<and>
     (noalloc p \<longrightarrow> pbuf p' \<noteq> None \<and> length (bytes p') = plength p')"

text \<open>\<open>n\<close> bytes are not too many, and the buffer has them or may grow to them.\<close>

definition easy :: "printbuffer \<Rightarrow> nat \<Rightarrow> bool" where
  "easy p n \<longleftrightarrow> int n \<le> INT_MAX div 2 \<and> (if noalloc p then n \<le> plength p else \<forall>k. avail (phk p) k)"

text \<open>\<open>s\<close> has been appended and the offset stands behind it.\<close>

definition moved :: "printbuffer \<Rightarrow> string \<Rightarrow> printbuffer \<Rightarrow> bool" where
  "moved p s p' \<longleftrightarrow> pb_ok p' \<and> same p p' \<and> live (phk p') = live (phk p) \<and>
     poffset p' = poffset p + length s \<and> written p' = written p @ s"

text \<open>\<open>s\<close> and a NUL have been appended and the offset stands at or before the NUL.\<close>

definition ended :: "printbuffer \<Rightarrow> string \<Rightarrow> printbuffer \<Rightarrow> bool" where
  "ended p s p' \<longleftrightarrow> pb_ok p' \<and> same p p' \<and> live (phk p') = live (phk p) \<and>
     poffset p \<le> poffset p' \<and> poffset p' \<le> poffset p + length s \<and>
     poffset p + length s < plength p' \<and>
     take (poffset p + length s + 1) (bytes p') = written p @ s @ [NUL]"

lemma same_refl [simp]: "same p p"
  by (simp add: same_def)

lemma same_trans: "same p q \<Longrightarrow> same q r \<Longrightarrow> same p r"
  by (simp add: same_def)

lemma easy_same: "same p q \<Longrightarrow> easy q n = easy p n"
  by (auto simp: same_def easy_def)

lemma moved_refl: "pb_ok p \<Longrightarrow> moved p [] p"
  by (simp add: moved_def)

lemma moved_trans: "moved p s q \<Longrightarrow> moved q t r \<Longrightarrow> moved p (s @ t) r"
  by (auto simp: moved_def same_def)

lemma moved_ended: "moved p s q \<Longrightarrow> ended q t r \<Longrightarrow> ended p (s @ t) r"
  by (simp add: moved_def ended_def same_def add.assoc)

lemma failed_after: "moved p s q \<Longrightarrow> failed q r \<Longrightarrow> failed p r"
  by (auto simp: moved_def failed_def same_def)

lemma moved_depth [simp]:
  "moved (p\<lparr>pdepth := d\<rparr>) s q = moved p s q" "moved p s (q\<lparr>pdepth := d\<rparr>) = moved p s q"
  "ended p s (q\<lparr>pdepth := d\<rparr>) = ended p s q" "ended (p\<lparr>pdepth := d\<rparr>) s q = ended p s q"
  "pb_ok (p\<lparr>pdepth := d\<rparr>) = pb_ok p" "easy (p\<lparr>pdepth := d\<rparr>) n = easy p n"
  "failed (p\<lparr>pdepth := d\<rparr>) q = failed p q"
  by (simp_all add: moved_def ended_def pb_ok_def same_def written_def bytes_def easy_def failed_def)

section \<open>Room\<close>

definition grown :: "printbuffer \<Rightarrow> nat \<Rightarrow> printbuffer \<Rightarrow> bool" where
  "grown p n p' \<longleftrightarrow> moved p [] p' \<and> poffset p + n + 1 \<le> plength p' \<and> pdepth p' = pdepth p"

lemma written_take: "written p = take (poffset p) (bytes p)"
  by (simp add: written_def)

lemma grow_realloc_ok:
  assumes "pb_ok p" "pbuf p = Some buf" "length buf < newsize" "poffset p < newsize" "\<not> noalloc p"
  shows "(case grow_realloc newsize buf p of
            EOk p' \<Rightarrow> moved p [] p' \<and> plength p' = newsize \<and> pdepth p' = pdepth p
          | ENull p' \<Rightarrow> failed p p' \<and> \<not> (\<forall>k. avail (phk p) k)
          | EFault \<Rightarrow> False)"
  using assms
  by (auto simp: grow_realloc_def Let_def moved_def pb_ok_def bytes_def written_def same_def
      fresh_mem_def failed_def deallocate_def)

lemma grow_manual_ok:
  assumes "pb_ok p" "pbuf p = Some buf" "poffset p < newsize" "\<not> has_realloc (phk p)" "\<not> noalloc p"
  shows "(case grow_manual newsize buf p of
            EOk p' \<Rightarrow> moved p [] p' \<and> plength p' = newsize \<and> pdepth p' = pdepth p
          | ENull p' \<Rightarrow> failed p p' \<and> \<not> (\<forall>k. avail (phk p) k)
          | EFault \<Rightarrow> False)"
proof (cases "avail (phk p) (calls (phk p))")
  case True
  then show ?thesis
    using assms
    by (auto simp: grow_manual_def allocate_def moved_def pb_ok_def bytes_def written_def same_def
        fresh_mem_def deallocate_def min_def)
next
  case False
  then show ?thesis
    using assms
    by (auto simp: grow_manual_def allocate_def failed_def deallocate_def same_def)
qed

definition new_size :: "nat \<Rightarrow> nat" where
  "new_size need = (if INT_MAX div 2 < int need then nat INT_MAX else need * 2)"

lemma ensure_eq:
  assumes "pbuf p = Some buf" "\<not> (0 < plength p \<and> plength p \<le> poffset p)"
  shows "ensure p n =
     (if INT_MAX < int n then ENull p
      else if n + poffset p + 1 \<le> plength p then EOk p
      else if noalloc p \<or> INT_MAX < int (n + poffset p + 1) then ENull p
      else if has_realloc (phk p) then grow_realloc (new_size (n + poffset p + 1)) buf p
      else grow_manual (new_size (n + poffset p + 1)) buf p)"
proof -
  have "INT_MAX div 2 < int k \<and> \<not> int k \<le> INT_MAX \<longleftrightarrow> INT_MAX < int k" for k
    by (auto simp: INT_MAX_def)
  then show ?thesis
    using assms(2) unfolding ensure_def assms(1) Let_def new_size_def [symmetric] option.case
    by (simp only: if_False split: if_split) blast
qed

lemma new_size_ge: "int need \<le> INT_MAX \<Longrightarrow> need \<le> new_size need"
  by (auto simp: new_size_def INT_MAX_def)

lemma pw_ensured:
  assumes p: "pb_ok p"
    and ok: "\<And>p'. grown p n p' \<Longrightarrow> pw (f p') Q R"
    and no: "\<And>p'. failed p p' \<Longrightarrow> (\<And>N. poffset p + n + 1 \<le> N \<Longrightarrow> \<not> easy p N) \<Longrightarrow> R p'"
  shows "pw (ensured p n f) Q R"
proof -
  obtain buf where buf: "pbuf p = Some buf" "length buf = plength p"
    using p by (auto simp: pb_ok_def bytes_def)
  have stay: "failed p p" using buf by (simp add: failed_def bytes_def)
  have off: "\<not> (0 < plength p \<and> plength p \<le> poffset p)" using p by (auto simp: pb_ok_def)
  define need where "need = n + poffset p + 1"
  note e = ensure_eq [OF buf(1) off, of n, folded need_def]
  show ?thesis
  proof (cases "INT_MAX < int n \<or> plength p < need \<and> (noalloc p \<or> INT_MAX < int need)")
    case True
    then have "ensure p n = ENull p" unfolding e by auto
    moreover have "\<not> easy p N" if "poffset p + n + 1 \<le> N" for N
    proof -
      have "need \<le> N" "n \<le> N" using that by (simp_all add: need_def)
      then show ?thesis using True by (auto simp: easy_def INT_MAX_def)
    qed
    ultimately show ?thesis
      using no [OF stay] by (simp add: ensured_def)
  next
    case False
    show ?thesis
    proof (cases "need \<le> plength p")
      case True
      then have "ensure p n = EOk p" using False unfolding e by simp
      moreover have "grown p n p"
        using True p by (simp add: grown_def need_def moved_refl)
      ultimately show ?thesis using ok by (simp add: ensured_def)
    next
      case small: False
      have ns: "need \<le> new_size need" using small False by (intro new_size_ge) auto
      then have ns': "length buf < new_size need" "poffset p < new_size need"
        using small buf by (simp_all add: need_def)
      have g: "\<not> noalloc p" "ensure p n = (if has_realloc (phk p) then grow_realloc (new_size need) buf p
          else grow_manual (new_size need) buf p)"
        using False small unfolding e by auto
      have res: "(case ensure p n of
            EOk p' \<Rightarrow> moved p [] p' \<and> plength p' = new_size need \<and> pdepth p' = pdepth p
          | ENull p' \<Rightarrow> failed p p' \<and> \<not> (\<forall>k. avail (phk p) k)
          | EFault \<Rightarrow> False)"
        using grow_realloc_ok [OF p buf(1) ns' g(1)] grow_manual_ok [OF p buf(1) ns'(2) _ g(1)]
        unfolding g(2) by (simp split: if_split)
      show ?thesis
      proof (cases "ensure p n")
        case (EOk p')
        then have "grown p n p'" using res ns by (simp add: grown_def need_def)
        then show ?thesis using EOk ok by (simp add: ensured_def)
      next
        case (ENull p')
        then have "failed p p'" "\<And>N. \<not> easy p N" using res g(1) by (auto simp: easy_def)
        then show ?thesis using ENull no by (simp add: ensured_def)
      next
        case EFault
        then show ?thesis using res by simp
      qed
    qed
  qed
qed

section \<open>Stores\<close>

lemma put_fits: "pos + length s \<le> length buf \<Longrightarrow>
    put buf pos s = Some (take pos buf @ s @ drop (pos + length s) buf)"
  by (simp add: put_def)

lemma stored_simps [simp]:
  "bytes (p\<lparr>pbuf := Some b, poffset := k\<rparr>) = b"
  "written (p\<lparr>pbuf := Some b, poffset := k\<rparr>) = take k b"
  by (simp_all add: bytes_def written_def)

lemma grown_facts:
  assumes "grown p0 n p"
  shows "same p0 p" "live (phk p) = live (phk p0)" "poffset p = poffset p0" "pdepth p = pdepth p0"
    "length (written p0) = poffset p0" "poffset p0 + n + 1 \<le> plength p"
    "\<exists>buf. pbuf p = Some buf \<and> length buf = plength p \<and> take (poffset p0) buf = written p0"
proof -
  show f: "same p0 p" "live (phk p) = live (phk p0)" "poffset p = poffset p0" "pdepth p = pdepth p0"
    "poffset p0 + n + 1 \<le> plength p"
    using assms by (simp_all add: grown_def moved_def)
  obtain buf where b: "pbuf p = Some buf" "length buf = plength p" "take (poffset p0) buf = written p0"
    using assms by (auto simp: grown_def moved_def pb_ok_def bytes_def written_def [of p])
  then show "\<exists>buf. pbuf p = Some buf \<and> length buf = plength p \<and> take (poffset p0) buf = written p0"
    by blast
  have "length (take (poffset p0) buf) = poffset p0" using b(2) f by simp
  then show "length (written p0) = poffset p0" using b by simp
qed

lemma emit_grown:
  assumes p: "grown p0 n p" and n: "length s \<le> n + 1"
  shows "\<exists>r. (\<forall>f. emit s k p f = f (p\<lparr>pbuf := Some (written p0 @ s @ r), poffset := poffset p0 + k\<rparr>)) \<and>
    poffset p0 + length s + length r = plength p"
proof -
  note g = grown_facts [OF p]
  obtain buf where buf: "pbuf p = Some buf" "length buf = plength p" "take (poffset p0) buf = written p0"
    using g(7) by blast
  have len: "poffset p0 + length s \<le> length buf" using g n buf by simp
  then show ?thesis
    using buf g(3)
    by (intro exI [of _ "drop (poffset p0 + length s) buf"]) (simp add: emit_def put_fits)
qed

text \<open>Store \<open>s @ t\<close> and move behind \<open>s\<close>.\<close>

lemma pw_emit_moved:
  assumes p: "grown p0 n p" and n: "length s + length t \<le> n + 1" "length s \<le> n"
    and ok: "\<And>p'. moved p0 s p' \<Longrightarrow> pdepth p' = pdepth p0 \<Longrightarrow> pw (f p') Q R"
  shows "pw (emit (s @ t) (length s) p f) Q R"
proof -
  note g = grown_facts [OF p]
  obtain r where r: "emit (s @ t) (length s) p f =
      f (p\<lparr>pbuf := Some (written p0 @ (s @ t) @ r), poffset := poffset p0 + length s\<rparr>)"
    "poffset p0 + length (s @ t) + length r = plength p"
    using emit_grown [OF p, of "s @ t" "length s"] n by auto
  have "moved p0 s (p\<lparr>pbuf := Some (written p0 @ (s @ t) @ r), poffset := poffset p0 + length s\<rparr>)"
    using g r(2) n by (simp add: moved_def pb_ok_def same_def)
  then show ?thesis
    using ok g(4) r(1) by simp
qed

text \<open>Store \<open>s\<close> and a NUL and stay, or move to the end.\<close>

lemma pw_emit_ended:
  assumes p: "grown p0 n p" and n: "length s \<le> n" and k: "k = 0 \<or> k = length s"
    and ok: "\<And>p'. ended p0 s p' \<Longrightarrow> pdepth p' = pdepth p0 \<Longrightarrow> pw (f p') Q R"
  shows "pw (emit (s @ [NUL]) k p f) Q R"
proof -
  note g = grown_facts [OF p]
  obtain r where r: "emit (s @ [NUL]) k p f =
      f (p\<lparr>pbuf := Some (written p0 @ (s @ [NUL]) @ r), poffset := poffset p0 + k\<rparr>)"
    "poffset p0 + length (s @ [NUL]) + length r = plength p"
    using emit_grown [OF p, of "s @ [NUL]" k] n by auto
  have "ended p0 s (p\<lparr>pbuf := Some (written p0 @ (s @ [NUL]) @ r), poffset := poffset p0 + k\<rparr>)"
    using g r(2) n k by (auto simp: ended_def pb_ok_def same_def)
  then show ?thesis
    using ok g(4) r(1) by simp
qed

text \<open>\<open>update_offset\<close> moves behind the text.\<close>

lemma ended_facts:
  assumes p: "ended p0 s p"
  shows "length (written p0) = poffset p0"
    "\<exists>r. pbuf p = Some (written p0 @ s @ [NUL] @ r) \<and> plength p = poffset p0 + length s + 1 + length r"
proof -
  obtain buf where buf: "pbuf p = Some buf" "length buf = plength p"
    using p by (auto simp: ended_def pb_ok_def bytes_def)
  have t: "take (poffset p0 + length s + 1) buf = written p0 @ s @ [NUL]"
    using p buf by (simp add: ended_def bytes_def)
  have "length (take (poffset p0 + length s + 1) buf) = poffset p0 + length s + 1"
    using p buf by (simp add: ended_def)
  then show l0: "length (written p0) = poffset p0" using arg_cong [OF t, of length] by simp
  obtain r where r: "buf = written p0 @ s @ [NUL] @ r"
    using append_take_drop_id [of "poffset p0 + length s + 1" buf, unfolded t] by (metis append.assoc)
  then show "\<exists>r. pbuf p = Some (written p0 @ s @ [NUL] @ r) \<and> plength p = poffset p0 + length s + 1 + length r"
    using buf l0 by (intro exI [of _ r]) auto
qed

lemma update_offset_ended:
  assumes p: "ended p0 s p" and s: "no_nul s"
  shows "update_offset p = Some (p\<lparr>poffset := poffset p0 + length s\<rparr>)"
proof -
  note l0 = ended_facts(1) [OF p]
  obtain r where r: "pbuf p = Some (written p0 @ s @ [NUL] @ r)" using ended_facts(2) [OF p] by blast
  define k where "k = poffset p - poffset p0"
  have k: "poffset p = poffset p0 + k" "k \<le> length s"
    using p by (auto simp: ended_def k_def)
  have d: "drop (poffset p) (written p0 @ s @ [NUL] @ r) = drop k s @ NUL # r"
    unfolding k(1) using l0 k(2) by simp
  have c: "cstr (drop k s @ NUL # r) = drop k s"
    by (rule cstr_no_nul) (use s in simp)
  show ?thesis
    unfolding update_offset_def r option.case d c using k by simp
qed

lemma pw_updated:
  assumes p: "ended p0 s p" and s: "no_nul s"
    and ok: "\<And>p'. moved p0 s p' \<Longrightarrow> pdepth p' = pdepth p \<Longrightarrow> pw (f p') Q R"
  shows "pw (updated p f) Q R"
proof -
  have "moved p0 s (p\<lparr>poffset := poffset p0 + length s\<rparr>)"
    using p ended_facts [OF p] by (auto simp: moved_def ended_def pb_ok_def bytes_def written_def [of "_\<lparr>poffset := _\<rparr>"] same_def)
  then show ?thesis using ok update_offset_ended [OF p s] by (simp add: updated_def)
qed

section \<open>Strings and numbers\<close>

definition vpost :: "printbuffer \<Rightarrow> string option \<Rightarrow> printbuffer \<Rightarrow> bool" where
  "vpost p ro p' \<longleftrightarrow> (\<exists>s. ro = Some s \<and> ended p s p' \<and> pdepth p' = pdepth p)"

definition lpost :: "printbuffer \<Rightarrow> string option \<Rightarrow> printbuffer \<Rightarrow> bool" where
  "lpost p ro p' \<longleftrightarrow> (\<exists>s. ro = Some s \<and> moved p s p' \<and> pdepth p' = pdepth p)"

definition fpost :: "printbuffer \<Rightarrow> string option \<Rightarrow> printbuffer \<Rightarrow> bool" where
  "fpost p ro p' \<longleftrightarrow> failed p p' \<and>
     (\<forall>s N. ro = Some s \<longrightarrow> poffset p + length s + 2 \<le> N \<longrightarrow> \<not> easy p N)"

lemma fpost_later:
  assumes "moved p s q" "fpost q ro' r"
    and "\<And>t. ro = Some t \<Longrightarrow> \<exists>t'. ro' = Some t' \<and> length s + length t' \<le> length t"
  shows "fpost p ro r"
  unfolding fpost_def
proof (intro conjI allI impI)
  show "failed p r" using assms failed_after by (auto simp: fpost_def)
  fix t N assume t: "ro = Some t" "poffset p + length t + 2 \<le> N"
  obtain t' where t': "ro' = Some t'" "length s + length t' \<le> length t" using assms(3) t by blast
  have "poffset q = poffset p + length s" "same p q" using assms(1) by (auto simp: moved_def)
  then show "\<not> easy p N" using assms(2) t t' easy_same [of p q] by (auto simp: fpost_def)
qed

lemma fpost_ensured:
  assumes "moved p s q" "failed q r" "\<And>N. poffset q + n + 1 \<le> N \<Longrightarrow> \<not> easy q N"
    and "\<And>t. ro = Some t \<Longrightarrow> length s + n \<le> length t + 1"
  shows "fpost p ro r"
  using assms failed_after [OF assms(1,2)] easy_same [of p q]
  by (fastforce simp: fpost_def moved_def)

lemma pw_text:
  assumes p: "pb_ok p" and k: "k = 0 \<or> k = length s" and ro: "ro = Some s"
  shows "pw (ensured p (length s + 1) (\<lambda>p. emit (s @ [NUL]) k p (Pr True))) (vpost p ro) (fpost p ro)"
proof (rule pw_ensured [OF p])
  fix p' assume g: "grown p (length s + 1) p'"
  show "pw (emit (s @ [NUL]) k p' (Pr True)) (vpost p ro) (fpost p ro)"
    by (rule pw_emit_ended [OF g _ k]) (auto simp: vpost_def ro)
next
  fix p' assume "failed p p'" "\<And>N. poffset p + (length s + 1) + 1 \<le> N \<Longrightarrow> \<not> easy p N"
  then show "fpost p ro p'"
    by (intro fpost_ensured [where n = "length s + 1", OF moved_refl [OF p]]) (auto simp: ro)
qed

lemma length_hex4_text [simp]: "length (hex4_text v) = 4"
  by (simp add: hex4_text_def)

lemma length_esc_char: "length (esc_char c) = 1 + esc_extra c"
proof (cases "31 < byte c \<and> c \<noteq> CHR 0x22 \<and> c \<noteq> CHR 0x5C")
  case True
  then have "short_escape c = None" by (auto simp: short_escape_def)
  then show ?thesis using True by (auto simp: esc_char_def esc_extra_def)
next
  case False
  then show ?thesis
    by (auto simp: esc_char_def esc_extra_def short_escape_def split: option.split)
qed

lemma length_escape: "length (escape s) = length s + sum_list (map esc_extra s)"
  by (induction s) (simp_all add: escape_def length_esc_char)

lemma escape_plain: "sum_list (map esc_extra s) = 0 \<Longrightarrow> escape s = s"
proof (induction s)
  case (Cons c s)
  then have "esc_extra c = 0" by simp
  then have "esc_char c = [c]"
    by (auto simp: esc_extra_def esc_char_def short_escape_def split: if_splits)
  then show ?case using Cons by (simp add: escape_def)
qed (simp add: escape_def)

lemma esc_loop_writes:
  "pos + length (escape s) < length buf \<Longrightarrow>
    \<exists>r. esc_loop s pos buf = Some (take pos buf @ escape s @ r) \<and>
        pos + length (escape s) + length r = length buf"
proof (induction s arbitrary: pos buf)
  case Nil
  then show ?case by (intro exI [of _ "drop pos buf"]) (simp add: escape_def)
next
  case (Cons c s)
  have e: "escape (c # s) = esc_char c @ escape s" by (simp add: escape_def)
  have ls: "length (esc_stores c) \<le> length (esc_char c) + 1" by (simp add: esc_stores_def)
  define b where "b = take pos buf @ esc_stores c @ drop (pos + length (esc_stores c)) buf"
  have "put buf pos (esc_stores c) = Some b"
    using Cons.prems ls unfolding b_def e by (intro put_fits) simp
  moreover have lb: "length b = length buf" using Cons.prems ls by (simp add: b_def e)
  moreover have tb: "take (pos + length (esc_char c)) b = take pos buf @ esc_char c"
    using Cons.prems by (simp add: b_def e esc_stores_def)
  moreover obtain r where "esc_loop s (pos + length (esc_char c)) b =
      Some (take (pos + length (esc_char c)) b @ escape s @ r)"
    "pos + length (esc_char c) + length (escape s) + length r = length b"
    using Cons.IH [of "pos + length (esc_char c)" b] Cons.prems lb by (auto simp: e)
  ultimately show ?case by (auto simp: e)
qed

lemma pw_string_ptr:
  assumes p: "pb_ok p" and ro: "ro = Some (quoted x)"
  shows "pw (print_string_ptr x p) (vpost p ro) (fpost p ro)"
proof (cases x)
  case None
  then have q: "quoted x = [CHR 0x22, CHR 0x22]" by (simp add: quoted_def)
  have "print_string_ptr x p = ensured p (length (quoted x) + 1) (\<lambda>p. emit (quoted x @ [NUL]) 0 p (Pr True))"
    unfolding q by (simp add: print_string_ptr_def None numeral_3_eq_3)
  then show ?thesis using pw_text [OF p _ ro] by simp
next
  case (Some mem)
  define s where "s = cstr mem"
  have q: "quoted x = CHR 0x22 # escape s @ [CHR 0x22]" by (simp add: quoted_def Some s_def)
  define n where "n = length s + sum_list (map esc_extra s)"
  have lq: "length (quoted x) + 1 = n + 3" "length (escape s) = n"
    by (simp_all add: q length_escape n_def)
  show ?thesis
  proof (cases "sum_list (map esc_extra s) = 0")
    case True
    then have q2: "CHR 0x22 # s @ [CHR 0x22, NUL] = quoted x @ [NUL]" by (simp add: q escape_plain)
    have e: "print_string_ptr x p = ensured p (n + 3) (\<lambda>p. emit (CHR 0x22 # s @ [CHR 0x22, NUL]) 0 p (Pr True))"
      unfolding print_string_ptr_def Some option.case Let_def s_def [symmetric] n_def [symmetric]
      using True by simp
    show ?thesis unfolding e q2 lq(1) [symmetric] by (rule pw_text [OF p _ ro]) simp
  next
    case False
    have eq: "print_string_ptr x p = ensured p (n + 3) (\<lambda>p. emit [CHR 0x22] 0 p (\<lambda>p.
                 case pbuf p of
                   None \<Rightarrow> PrFault
                 | Some buf \<Rightarrow>
                     (case esc_loop s (poffset p + 1) buf of
                        None \<Rightarrow> PrFault
                      | Some buf' \<Rightarrow>
                          (case put buf' (poffset p + n + 1) [CHR 0x22, NUL] of
                             None \<Rightarrow> PrFault
                           | Some buf'' \<Rightarrow> Pr True (p\<lparr>pbuf := Some buf''\<rparr>)))))"
      unfolding print_string_ptr_def Some option.case Let_def s_def [symmetric] n_def [symmetric]
        if_not_P [OF False] ..
    show ?thesis
      unfolding eq
    proof (rule pw_ensured [OF p])
      fix p' assume g: "grown p (n + 3) p'"
      note gf = grown_facts [OF g]
      obtain r where r: "emit [CHR 0x22] 0 p' f = f (p'\<lparr>pbuf := Some (written p @ [CHR 0x22] @ r), poffset := poffset p\<rparr>)"
        "poffset p + 1 + length r = plength p'" for f
        using emit_grown [OF g, of "[CHR 0x22]" 0] by auto
      show "pw (emit [CHR 0x22] 0 p' (\<lambda>p.
                 case pbuf p of
                   None \<Rightarrow> PrFault
                 | Some buf \<Rightarrow>
                     (case esc_loop s (poffset p + 1) buf of
                        None \<Rightarrow> PrFault
                      | Some buf' \<Rightarrow>
                          (case put buf' (poffset p + n + 1) [CHR 0x22, NUL] of
                             None \<Rightarrow> PrFault
                           | Some buf'' \<Rightarrow> Pr True (p\<lparr>pbuf := Some buf''\<rparr>))))) (vpost p ro) (fpost p ro)"
      proof -
        define buf where "buf = written p @ [CHR 0x22] @ r"
        have lb: "length buf = plength p'" using r(2) gf(5) by (simp add: buf_def)
        have tb: "take (poffset p + 1) buf = written p @ [CHR 0x22]" using gf(5) by (simp add: buf_def)
        obtain r2 where r2: "esc_loop s (poffset p + 1) buf = Some (written p @ [CHR 0x22] @ escape s @ r2)"
          "poffset p + 1 + n + length r2 = length buf"
          using esc_loop_writes [of "poffset p + 1" s buf] lb gf(6) lq(2) tb by auto
        define buf2 where "buf2 = written p @ [CHR 0x22] @ escape s @ r2"
        have p2: "put buf2 (poffset p + n + 1) [CHR 0x22, NUL] =
            Some ((written p @ [CHR 0x22] @ escape s) @ [CHR 0x22, NUL] @ drop 2 r2)"
        proof -
          define w where "w = written p @ [CHR 0x22] @ escape s"
          have "length w = poffset p + n + 1" using gf(5) lq(2) by (simp add: w_def)
          moreover have "buf2 = w @ r2" by (simp add: buf2_def w_def)
          moreover have "2 \<le> length r2" using r2(2) lb gf(6) by simp
          ultimately have "put buf2 (poffset p + n + 1) [CHR 0x22, NUL] = Some (w @ [CHR 0x22, NUL] @ drop 2 r2)"
            by (simp add: put_def)
          then show ?thesis by (simp only: w_def)
        qed
        define out where "out = (written p @ [CHR 0x22] @ escape s) @ [CHR 0x22, NUL] @ drop 2 r2"
        have lo: "length out = plength p'" using r2(2) lb gf(5,6) lq(2) by (simp add: out_def)
        have tout: "take (Suc (poffset p + length (quoted x))) out = written p @ quoted x @ [NUL]"
        proof -
          define w where "w = written p @ quoted x @ [NUL]"
          have "length w = Suc (poffset p + length (quoted x))" using gf(5) by (simp add: w_def)
          moreover have "out = w @ drop 2 r2" by (simp add: out_def w_def q)
          ultimately show ?thesis by (simp add: w_def)
        qed
        have "ended p (quoted x) (p'\<lparr>pbuf := Some out, poffset := poffset p\<rparr>)"
          using gf(1,2,5,6) lo lq tout by (simp add: ended_def pb_ok_def same_def)
        then have v: "vpost p ro (p'\<lparr>pbuf := Some out, poffset := poffset p\<rparr>)"
          using gf(4) ro by (simp add: vpost_def)
        have swap: "p'\<lparr>poffset := poffset p, pbuf := Some out\<rparr> = p'\<lparr>pbuf := Some out, poffset := poffset p\<rparr>"
          by simp
        have "vpost p ro (p'\<lparr>poffset := poffset p, pbuf := Some out\<rparr>)"
          unfolding swap by (rule v)
        then show ?thesis
          using r2(1) p2 unfolding r(1) buf_def [symmetric] buf2_def [symmetric] out_def [symmetric] by simp
      qed
    next
      fix p' assume "failed p p'" "\<And>N. poffset p + (n + 3) + 1 \<le> N \<Longrightarrow> \<not> easy p N"
      then show "fpost p ro p'"
        by (intro fpost_ensured [where n = "n + 3", OF moved_refl [OF p]]) (use lq in \<open>auto simp: ro\<close>)
    qed
  qed
qed

section \<open>Trees\<close>

lemma pw_word: "pb_ok p \<Longrightarrow> pw (print_word w p) (vpost p (Some w)) (fpost p (Some w))"
  unfolding print_word_def by (rule pw_text) simp_all

lemma pw_number:
  assumes p: "pb_ok p" and v: "valid_dbl (valuedouble n)" "in_int32 (valueint n)"
    and ro: "ro = number_text (valuedouble n) (valueint n)"
  shows "pw (print_number n p) (vpost p ro) (fpost p ro)"
proof -
  obtain t where t: "number_text (valuedouble n) (valueint n) = Some t" "length t \<le> 25"
    using number_text_fits [OF v] by blast
  have "print_number n p = ensured p (length t + 1) (\<lambda>p. emit (t @ [NUL]) (length t) p (Pr True))"
    using t by (simp add: print_number_def)
  then show ?thesis using pw_text [OF p _ ro [unfolded t]] by simp
qed

text \<open>The text of a tree holds no NUL.\<close>

lemma no_nul_hex4 [simp]: "no_nul (hex4_text v)"
proof -
  have "hex_char k \<noteq> NUL" if "k < 16" for k
  proof -
    have "byte (hex_char k) \<noteq> 0" using that by (simp add: hex_char_def of_char_of)
    then show ?thesis by auto
  qed
  then show ?thesis by (simp add: hex4_text_def)
qed

lemma no_nul_escape [simp]: "no_nul (escape s)"
proof (induction s)
  case (Cons c s)
  have "no_nul (esc_char c)"
    by (auto simp: esc_char_def short_escape_def split: option.split)
  then show ?case using Cons by (simp add: escape_def)
qed (simp add: escape_def)

lemma no_nul_seps [simp]:
  "no_nul (quoted x)" "no_nul (tabs n)" "no_nul (elem_sep f)" "no_nul (key_sep f)" "no_nul (member_sep f m)"
  by (simp_all add: quoted_def tabs_def elem_sep_def key_sep_def member_sep_def split: option.split)

lemma no_nul_elems:
  "(\<And>c s. c \<in> set cs \<Longrightarrow> render f d c = Some s \<Longrightarrow> no_nul s) \<Longrightarrow> render_elems f d cs = Some s \<Longrightarrow> no_nul s"
  by (induction cs arbitrary: s) (fastforce simp: render_elems.simps split: option.splits)+

lemma no_nul_members:
  "(\<And>c s. c \<in> set cs \<Longrightarrow> render f d c = Some s \<Longrightarrow> no_nul s) \<Longrightarrow> render_members f d cs = Some s \<Longrightarrow> no_nul s"
  by (induction cs arbitrary: s) (fastforce simp: render_members.simps split: option.splits)+

lemma no_nul_render: "valid_json it \<Longrightarrow> render f d it = Some s \<Longrightarrow> no_nul s"
proof (induction it arbitrary: d s)
  case (CJSON n ch)
  have v: "valid_dbl (valuedouble n)" "in_int32 (valueint n)" "\<forall>c \<in> set ch. valid_json c"
    using CJSON.prems(1) by (simp_all add: valid_json.simps)
  have t: "number_text (valuedouble n) (valueint n) = Some s \<Longrightarrow> no_nul s" for s
    using number_text_fits [OF v(1,2)] by auto
  have e: "render_elems f (d + 1) ch = Some r \<Longrightarrow> no_nul r" for r
    by (rule no_nul_elems) (use CJSON.IH v in blast)
  have m: "render_members f (d + 1) ch = Some r \<Longrightarrow> no_nul r" for r
    by (rule no_nul_members) (use CJSON.IH v in blast)
  show ?case
    using CJSON.prems(2) t e m by (auto simp: render.simps Let_def split: if_splits)
qed

definition val_ok :: "CJSON \<Rightarrow> bool" where
  "val_ok c \<longleftrightarrow> (\<forall>p. pb_ok p \<longrightarrow>
     pw (print_value c p) (vpost p (render (pformat p) (pdepth p) c)) (fpost p (render (pformat p) (pdepth p) c)))"

lemma moved_static: "moved p s q \<Longrightarrow> pb_ok q \<and> pformat q = pformat p \<and> poffset q = poffset p + length s"
  by (auto simp: moved_def same_def)

text \<open>Chaining a value: then move behind it.\<close>

lemma pw_value_then:
  assumes c: "val_ok c" "valid_json c" and q: "moved p s q" "pdepth q = pdepth p"
    and f: "f = pformat p" "d = pdepth p"
    and ok: "\<And>t q'. render f d c = Some t \<Longrightarrow> moved p (s @ t) q' \<Longrightarrow> pdepth q' = pdepth p \<Longrightarrow> pw (g q') Q R"
    and no: "\<And>r. fpost q (render f d c) r \<Longrightarrow> R r"
  shows "pw (and_then (print_value c q) (\<lambda>p. updated p g)) Q R"
proof (rule pw_and_then, rule pw_mono)
  have st: "pb_ok q" "pformat q = f" "pdepth q = d" using moved_static [OF q(1)] q(2) f by auto
  show "pw (print_value c q) (vpost q (render f d c)) (fpost q (render f d c))"
    using c(1) st by (auto simp: val_ok_def)
  fix q1 assume "vpost q (render f d c) q1"
  then obtain t where t: "render f d c = Some t" "ended q t q1" "pdepth q1 = pdepth q"
    by (auto simp: vpost_def)
  show "pw (updated q1 g) Q R"
    by (rule pw_updated [OF t(2) no_nul_render [OF c(2) t(1)]], rule ok [OF t(1)])
      (use t q moved_trans [OF q(1)] in auto)
qed (rule no)

lemma pw_key_then:
  assumes q: "moved p s q" "pdepth q = pdepth p"
    and ok: "\<And>q'. moved p (s @ quoted x) q' \<Longrightarrow> pdepth q' = pdepth p \<Longrightarrow> pw (g q') Q R"
    and no: "\<And>r. fpost q (Some (quoted x)) r \<Longrightarrow> R r"
  shows "pw (and_then (print_string_ptr x q) (\<lambda>p. updated p g)) Q R"
proof (rule pw_and_then, rule pw_mono)
  show "pw (print_string_ptr x q) (vpost q (Some (quoted x))) (fpost q (Some (quoted x)))"
    using moved_static [OF q(1)] by (intro pw_string_ptr) auto
  fix q1 assume "vpost q (Some (quoted x)) q1"
  then have t: "ended q (quoted x) q1" "pdepth q1 = pdepth q"
    by (auto simp: vpost_def)
  show "pw (updated q1 g) Q R"
    by (rule pw_updated [OF t(1)], simp, rule ok)
      (use t q moved_trans [OF q(1)] in auto)
qed (rule no)

text \<open>Chaining a separator.\<close>

lemma pw_sep_then:
  assumes q: "moved p s q" "pdepth q = pdepth p"
    and e: "\<And>q'. same q q' \<Longrightarrow> pdepth q' = pdepth q \<Longrightarrow> E q' = emit (t @ z) (length t) q' g"
    and n: "length t + length z \<le> n + 1" "length t \<le> n"
    and ok: "\<And>q'. moved p (s @ t) q' \<Longrightarrow> pdepth q' = pdepth p \<Longrightarrow> pw (g q') Q (fpost p ro)"
    and no: "\<And>u. ro = Some u \<Longrightarrow> length s + n \<le> length u + 1"
  shows "pw (ensured q n E) Q (fpost p ro)"
proof (rule pw_ensured)
  show "pb_ok q" using moved_static [OF q(1)] by blast
  fix q1 assume g: "grown q n q1"
  have "E q1 = emit (t @ z) (length t) q1 g" using e grown_facts [OF g] by blast
  then show "pw (E q1) Q (fpost p ro)"
    using pw_emit_moved [OF g n, of g Q "fpost p ro"] ok q moved_trans [OF q(1)] by auto
next
  fix r assume "failed q r" "\<And>N. poffset q + n + 1 \<le> N \<Longrightarrow> \<not> easy q N"
  then show "fpost p ro r" by (rule fpost_ensured [where n = n, OF q(1)]) (use no in auto)
qed

lemma lpost_trans: "moved p s q \<Longrightarrow> pdepth q = pdepth p \<Longrightarrow> lpost q (Some t) r \<Longrightarrow> lpost p (Some (s @ t)) r"
  by (auto simp: lpost_def intro: moved_trans)

definition elems_printed :: "CJSON list \<Rightarrow> bool" where
  "elems_printed cs \<longleftrightarrow> (\<forall>p. pb_ok p \<longrightarrow>
     pw (print_elems cs p) (lpost p (render_elems (pformat p) (pdepth p) cs))
       (fpost p (render_elems (pformat p) (pdepth p) cs)))"

lemma elems_printed_step:
  assumes c: "val_ok c" "valid_json c" and cs: "elems_printed cs"
  shows "elems_printed (c # cs)"
  unfolding elems_printed_def
proof (intro allI impI)
  fix p assume p: "pb_ok p"
  define f d where "f = pformat p" and "d = pdepth p"
  define sep where "sep = (if cs \<noteq> [] then elem_sep f else [])"
  have ro: "render_elems f d (c # cs) = (case render f d c of None \<Rightarrow> None | Some s \<Rightarrow>
      map_option (\<lambda>r. s @ sep @ r) (render_elems f d cs))"
    by (simp add: render_elems.simps sep_def split: option.split)
  note next_val = pw_value_then [OF c moved_refl [OF p] refl f_def d_def]
  have tail: "pw (print_elems cs q) (lpost p (render_elems f d (c # cs))) (fpost p (render_elems f d (c # cs)))"
    if q: "moved p (s @ sep) q" "pdepth q = pdepth p" and s: "render f d c = Some s" for s q
  proof (rule pw_mono)
    have st: "pb_ok q" "pformat q = f" "pdepth q = d" using moved_static [OF q(1)] q(2) by (auto simp: f_def d_def)
    show "pw (print_elems cs q) (lpost q (render_elems f d cs)) (fpost q (render_elems f d cs))"
      using cs st by (auto simp: elems_printed_def)
    fix r
    show "lpost q (render_elems f d cs) r \<Longrightarrow> lpost p (render_elems f d (c # cs)) r"
      using lpost_trans [OF q] by (auto simp: lpost_def ro s)
    show "fpost q (render_elems f d cs) r \<Longrightarrow> fpost p (render_elems f d (c # cs)) r"
      by (rule fpost_later [OF q(1)]) (auto simp: ro s)
  qed
  show "pw (print_elems (c # cs) p) (lpost p (render_elems f d (c # cs))) (fpost p (render_elems f d (c # cs)))"
    unfolding print_elems.simps
  proof (rule next_val)
    fix s q assume s: "render f d c = Some s" and q: "moved p ([] @ s) q" "pdepth q = pdepth p"
    have fq: "pformat q = f" using moved_static [OF q(1)] by (simp add: f_def)
    show "pw (if cs \<noteq> [] then let len = if pformat q then 2 else 1 in
       ensured q (len + 1) (\<lambda>p. emit (elem_sep (pformat p) @ [NUL]) len p (\<lambda>p. print_elems cs p))
       else print_elems cs q) (lpost p (render_elems f d (c # cs))) (fpost p (render_elems f d (c # cs)))"
    proof (cases "cs = []")
      case True
      then show ?thesis using tail [of s q] q s by (simp add: sep_def)
    next
      case False
      have "pw (let len = if pformat q then 2 else 1 in ensured q (len + 1) (\<lambda>p.
          emit (elem_sep (pformat p) @ [NUL]) len p (\<lambda>p. print_elems cs p)))
          (lpost p (render_elems f d (c # cs))) (fpost p (render_elems f d (c # cs)))"
        unfolding Let_def fq
      proof (rule pw_sep_then [OF q(1,2)])
        show "emit (elem_sep (pformat q') @ [NUL]) (if f then 2 else 1) q' (\<lambda>p. print_elems cs p) =
            emit (elem_sep f @ [NUL]) (length (elem_sep f)) q' (print_elems cs)"
          if "same q q'" for q'
          using that fq by (simp add: same_def elem_sep_def numeral_2_eq_2)
        show "pw (print_elems cs q') (lpost p (render_elems f d (c # cs))) (fpost p (render_elems f d (c # cs)))"
          if "moved p (([] @ s) @ elem_sep f) q'" "pdepth q' = pdepth p" for q'
          using tail [of s q'] that s False by (simp add: sep_def)
      qed (use False s in \<open>auto simp: ro sep_def elem_sep_def split: option.splits\<close>)
      then show ?thesis using False by simp
    qed
  next
    fix r assume "fpost p (render f d c) r"
    then show "fpost p (render_elems f d (c # cs)) r"
      by (rule fpost_later [OF moved_refl [OF p]]) (auto simp: ro split: option.splits)
  qed
qed

definition members_printed :: "CJSON list \<Rightarrow> bool" where
  "members_printed cs \<longleftrightarrow> (\<forall>p. pb_ok p \<longrightarrow>
     pw (print_members cs p) (lpost p (render_members (pformat p) (pdepth p) cs))
       (fpost p (render_members (pformat p) (pdepth p) cs)))"

text \<open>The indentation before a member.\<close>

lemma pw_indent:
  assumes p: "pb_ok p" and i: "i = (if pformat p then tabs (pdepth p) else [])"
    and no: "\<And>u. ro = Some u \<Longrightarrow> length i \<le> length u"
  shows "pw (if pformat p then ensured p (pdepth p) (\<lambda>p. emit (tabs (pdepth p)) (pdepth p) p (Pr True)) else Pr True p)
    (\<lambda>q. moved p i q \<and> pdepth q = pdepth p) (fpost p ro)"
proof (cases "pformat p")
  case True
  have "pw (ensured p (pdepth p) (\<lambda>p. emit (tabs (pdepth p)) (pdepth p) p (Pr True)))
      (\<lambda>q. moved p i q \<and> pdepth q = pdepth p) (fpost p ro)"
  proof (rule pw_sep_then [OF moved_refl [OF p] refl, where t = i and z = "[]"])
    show "emit (tabs (pdepth q')) (pdepth q') q' (Pr True) = emit (i @ []) (length i) q' (Pr True)"
      if "pdepth q' = pdepth p" for q'
      using that True i by (simp add: tabs_def)
  qed (use True i no in \<open>force simp: tabs_def\<close>)+
  then show ?thesis using True by simp
next
  case False
  then show ?thesis using moved_refl [OF p] i by simp
qed

lemma members_printed_step:
  assumes c: "val_ok c" "valid_json c" and cs: "members_printed cs"
  shows "members_printed (c # cs)"
  unfolding members_printed_def
proof (intro allI impI)
  fix p assume p: "pb_ok p"
  define f d where "f = pformat p" and "d = pdepth p"
  define i k m where "i = (if f then tabs d else [])" and "k = quoted (jstring (info c)) @ key_sep f"
    and "m = member_sep f (cs \<noteq> [])"
  define ro where "ro = render_members f d (c # cs)"
  define x where "x = quoted (jstring (info c))"
  have ro: "ro = (case render f d c of None \<Rightarrow> None | Some s \<Rightarrow>
      map_option (\<lambda>r. i @ x @ key_sep f @ s @ m @ r) (render_members f d cs))"
    by (simp add: render_members.simps i_def x_def m_def ro_def split: option.split)
  have tail: "pw (print_members cs q) (lpost p ro) (fpost p ro)"
    if q: "moved p ((((i @ x) @ key_sep f) @ s) @ m) q" "pdepth q = pdepth p" and s: "render f d c = Some s" for s q
  proof (rule pw_mono)
    have st: "pb_ok q" "pformat q = f" "pdepth q = d" using moved_static [OF q(1)] q(2) by (auto simp: f_def d_def)
    show "pw (print_members cs q) (lpost q (render_members f d cs)) (fpost q (render_members f d cs))"
      using cs st by (auto simp: members_printed_def)
    fix r
    show "lpost q (render_members f d cs) r \<Longrightarrow> lpost p ro r"
      using lpost_trans [OF q] by (auto simp: lpost_def ro s)
    show "fpost q (render_members f d cs) r \<Longrightarrow> fpost p ro r"
      by (rule fpost_later [OF q(1)]) (auto simp: ro s)
  qed
  have rlen: "\<exists>s r. render f d c = Some s \<and> u = i @ x @ key_sep f @ s @ m @ r" if "ro = Some u" for u
    using that by (auto simp: ro split: option.splits)
  define g3 where "g3 = (\<lambda>p. let len = (if pformat p then 1 else 0) + (if cs \<noteq> [] then 1 else 0) in
     ensured p (len + 1) (\<lambda>p. emit (member_sep (pformat p) (cs \<noteq> []) @ [NUL]) len p (\<lambda>p. print_members cs p)))"
  define g2 where "g2 = (\<lambda>p. and_then (print_value c p) (\<lambda>p. updated p g3))"
  define g1 where "g1 = (\<lambda>p. let len = (if pformat p then 2 else 1) in
     ensured p len (\<lambda>p. emit (key_sep (pformat p)) len p g2))"
  have s3: "pw (g3 q) (lpost p ro) (fpost p ro)"
    if q: "moved p (((i @ x) @ key_sep f) @ s) q" "pdepth q = pdepth p" and s: "render f d c = Some s" for s q
    unfolding g3_def Let_def
  proof (rule pw_sep_then [OF q])
    have fq: "pformat q = f" using moved_static [OF q(1)] by (simp add: f_def)
    show "emit (member_sep (pformat q') (cs \<noteq> []) @ [NUL])
        ((if pformat q then 1 else 0) + (if cs \<noteq> [] then 1 else 0)) q' (\<lambda>p. print_members cs p) =
        emit (m @ [NUL]) (length m) q' (print_members cs)" if "same q q'" for q'
      using that fq by (simp add: same_def m_def member_sep_def)
    show "pw (print_members cs q') (lpost p ro) (fpost p ro)"
      if "moved p ((((i @ x) @ key_sep f) @ s) @ m) q'" "pdepth q' = pdepth p" for q'
      by (rule tail [OF that s])
    show "length m + length [NUL] \<le> (if pformat q then 1 else 0) + (if cs \<noteq> [] then 1 else 0) + 1 + 1"
      "length m \<le> (if pformat q then 1 else 0) + (if cs \<noteq> [] then 1 else 0) + 1"
      by (simp_all add: fq m_def member_sep_def)
    show "length (((i @ x) @ key_sep f) @ s) + ((if pformat q then 1 else 0) + (if cs \<noteq> [] then 1 else 0) + 1)
        \<le> length u + 1" if "ro = Some u" for u
      using rlen [OF that] s by (auto simp: fq m_def member_sep_def)
  qed
  have s2: "pw (g2 q) (lpost p ro) (fpost p ro)"
    if q: "moved p ((i @ x) @ key_sep f) q" "pdepth q = pdepth p" for q
    unfolding g2_def
  proof (rule pw_value_then [OF c q f_def d_def])
    show "pw (g3 q') (lpost p ro) (fpost p ro)"
      if "render f d c = Some s" "moved p (((i @ x) @ key_sep f) @ s) q'" "pdepth q' = pdepth p" for s q'
      using s3 that by blast
    show "fpost p ro r" if "fpost q (render f d c) r" for r
      by (rule fpost_later [OF q(1) that]) (use rlen in fastforce)
  qed
  have s1: "pw (g1 q) (lpost p ro) (fpost p ro)"
    if q: "moved p (i @ x) q" "pdepth q = pdepth p" for q
    unfolding g1_def Let_def
  proof (rule pw_sep_then [OF q, where t = "key_sep f" and z = "[]"])
    have fq: "pformat q = f" using moved_static [OF q(1)] by (simp add: f_def)
    show "emit (key_sep (pformat q')) (if pformat q then 2 else 1) q' g2 =
        emit (key_sep f @ []) (length (key_sep f)) q' g2" if "same q q'" for q'
      using that fq by (simp add: same_def key_sep_def numeral_2_eq_2)
    show "pw (g2 q') (lpost p ro) (fpost p ro)"
      if "moved p ((i @ x) @ key_sep f) q'" "pdepth q' = pdepth p" for q'
      by (rule s2 [OF that])
    show "length (i @ x) + (if pformat q then 2 else 1) \<le> length u + 1" if "ro = Some u" for u
      using rlen [OF that] by (auto simp: fq key_sep_def)
  qed (use moved_static [OF q(1)] in \<open>auto simp: f_def key_sep_def\<close>)
  have "pw (print_members (c # cs) p) (lpost p ro) (fpost p ro)"
    unfolding print_members.simps g3_def [symmetric] g2_def [symmetric] g1_def [symmetric]
  proof (rule pw_and_then, rule pw_mono, rule pw_indent [OF p, where i = i and ro = ro])
    show "i = (if pformat p then tabs (pdepth p) else [])" by (simp add: i_def f_def d_def)
    show "ro = Some u \<Longrightarrow> length i \<le> length u" for u using rlen by auto
    fix p1 assume p1: "moved p i p1 \<and> pdepth p1 = pdepth p"
    show "pw (and_then (print_string_ptr (jstring (info c)) p1) (\<lambda>p. updated p g1)) (lpost p ro) (fpost p ro)"
    proof (rule pw_key_then [OF p1 [THEN conjunct1] p1 [THEN conjunct2]])
      show "pw (g1 q') (lpost p ro) (fpost p ro)"
        if "moved p (i @ quoted (jstring (info c))) q'" "pdepth q' = pdepth p" for q'
        using s1 that by (simp add: x_def)
      show "fpost p ro r" if "fpost p1 (Some (quoted (jstring (info c)))) r" for r
        by (rule fpost_later [OF p1 [THEN conjunct1] that]) (use rlen in \<open>fastforce simp: x_def\<close>)
    qed
  qed
  then show "pw (print_members (c # cs) p) (lpost p (render_members (pformat p) (pdepth p) (c # cs)))
    (fpost p (render_members (pformat p) (pdepth p) (c # cs)))"
    by (simp add: ro_def f_def d_def)
qed

text \<open>The closing bracket, and the whole of \<open>print_array\<close> and \<open>print_object\<close> around their loops.\<close>

lemma pw_close:
  assumes q: "moved p s q" "pdepth q = pdepth p + 1" and ro: "ro = Some (s @ t)"
    and e: "\<And>q'. same q q' \<Longrightarrow> pdepth q' = pdepth q \<Longrightarrow>
      E q' = emit (t @ [NUL]) 0 q' (\<lambda>p. Pr True (shallower p))"
    and n: "length t \<le> n" "n \<le> length t + 1"
  shows "pw (ensured q n E) (vpost p ro) (fpost p ro)"
proof (rule pw_ensured)
  show "pb_ok q" using moved_static [OF q(1)] by blast
  fix q1 assume g: "grown q n q1"
  have "E q1 = emit (t @ [NUL]) 0 q1 (\<lambda>p. Pr True (shallower p))" using e grown_facts [OF g] by blast
  moreover have "pw (emit (t @ [NUL]) 0 q1 (\<lambda>p. Pr True (shallower p))) (vpost p ro) (fpost p ro)"
    by (rule pw_emit_ended [OF g n(1)])
      (auto simp: vpost_def shallower_def ro q(2) intro: moved_ended [OF q(1)])
  ultimately show "pw (E q1) (vpost p ro) (fpost p ro)" by simp
next
  fix r assume "failed q r" "\<And>N. poffset q + n + 1 \<le> N \<Longrightarrow> \<not> easy q N"
  then show "fpost p ro r" by (rule fpost_ensured [where n = n, OF q(1)]) (use n ro in auto)
qed

lemma pw_deeper:
  assumes l: "\<And>p. pb_ok p \<Longrightarrow> pw (loop p) (lpost p (R (pformat p) (pdepth p))) (fpost p (R (pformat p) (pdepth p)))"
    and q: "moved p s q" "pdepth q = pdepth p"
    and ok: "\<And>u q'. R (pformat p) (pdepth p + 1) = Some u \<Longrightarrow> moved p (s @ u) q' \<Longrightarrow>
      pdepth q' = pdepth p + 1 \<Longrightarrow> pw (g q') Q (fpost p ro)"
    and no: "\<And>u. ro = Some u \<Longrightarrow> \<exists>v. R (pformat p) (pdepth p + 1) = Some v \<and> length s + length v \<le> length u"
  shows "pw (and_then (loop (deeper q)) g) Q (fpost p ro)"
proof (rule pw_and_then, rule pw_mono)
  have d: "moved p s (deeper q)" "pdepth (deeper q) = pdepth p + 1" "pformat (deeper q) = pformat p"
    using q moved_static [OF q(1)] by (simp_all add: deeper_def)
  show "pw (loop (deeper q)) (lpost (deeper q) (R (pformat p) (pdepth p + 1)))
      (fpost (deeper q) (R (pformat p) (pdepth p + 1)))"
    using l [of "deeper q"] d moved_static [OF d(1)] by simp
  fix r
  show "pw (g r) Q (fpost p ro)" if "lpost (deeper q) (R (pformat p) (pdepth p + 1)) r"
  proof -
    note l' = that
    obtain u where u: "R (pformat p) (pdepth p + 1) = Some u" "moved (deeper q) u r" "pdepth r = pdepth p + 1"
      using l' unfolding lpost_def d(2) by blast
    then show ?thesis using ok moved_trans [OF d(1)] by blast
  qed
  show "fpost p ro r" if "fpost (deeper q) (R (pformat p) (pdepth p + 1)) r"
    by (rule fpost_later [OF d(1) that]) (rule no)
qed

lemma pw_array:
  assumes p: "pb_ok p" and ch: "elems_printed ch"
    and ro: "ro = map_option (\<lambda>s. ''['' @ s @ '']'') (render_elems (pformat p) (pdepth p + 1) ch)"
  shows "pw (print_array (\<lambda>p. print_elems ch p) p) (vpost p ro) (fpost p ro)"
  unfolding print_array_def
proof (rule pw_sep_then [OF moved_refl [OF p] refl, where t = "''[''" and z = "[]"])
  fix q assume q: "moved p ([] @ ''['') q" "pdepth q = pdepth p"
  show "pw (and_then (print_elems ch (deeper q)) (\<lambda>p. ensured p 2 (\<lambda>p. emit ('']'' @ [NUL]) 0 p
      (\<lambda>p. Pr True (shallower p))))) (vpost p ro) (fpost p ro)"
  proof (rule pw_deeper [where R = "\<lambda>f d. render_elems f d ch", OF _ q])
    fix u q' assume u: "render_elems (pformat p) (pdepth p + 1) ch = Some u"
      and q': "moved p (([] @ ''['') @ u) q'" "pdepth q' = pdepth p + 1"
    show "pw (ensured q' 2 (\<lambda>p. emit ('']'' @ [NUL]) 0 p (\<lambda>p. Pr True (shallower p)))) (vpost p ro) (fpost p ro)"
      by (rule pw_close [OF q', where t = "'']''"]) (use u in \<open>simp_all add: ro\<close>)
  qed (use ch in \<open>auto simp: elems_printed_def ro\<close>)
qed (auto simp: ro)

lemma pw_object:
  assumes p: "pb_ok p" and ch: "members_printed ch" and f: "f = pformat p"
    and ro: "ro = map_option (\<lambda>s. ''{'' @ (if f then [CHR 0x0A] else []) @ s @
      (if f then tabs (pdepth p) else []) @ ''}'') (render_members f (pdepth p + 1) ch)"
  shows "pw (print_object (\<lambda>p. print_members ch p) p) (vpost p ro) (fpost p ro)"
  unfolding print_object_def Let_def
proof (rule pw_sep_then [OF moved_refl [OF p] refl, where t = "''{'' @ (if f then [CHR 0x0A] else [])" and z = "[]"])
  fix q assume q: "moved p ([] @ ''{'' @ (if f then [CHR 0x0A] else [])) q" "pdepth q = pdepth p"
  show "pw (and_then (print_members ch (deeper q)) (\<lambda>p.
      ensured p (if pformat p then pdepth p + 1 else 2) (\<lambda>p.
      emit ((if pformat p then tabs (pdepth p - 1) else []) @ ''}'' @ [NUL]) 0 p (\<lambda>p.
      Pr True (shallower p))))) (vpost p ro) (fpost p ro)"
  proof (rule pw_deeper [where R = "\<lambda>f d. render_members f d ch", OF _ q])
    fix u q' assume u: "render_members (pformat p) (pdepth p + 1) ch = Some u"
      and q': "moved p (([] @ ''{'' @ (if f then [CHR 0x0A] else [])) @ u) q'" "pdepth q' = pdepth p + 1"
    have fq: "pformat q' = f" using moved_static [OF q'(1)] f by simp
    show "pw (ensured q' (if pformat q' then pdepth q' + 1 else 2) (\<lambda>p.
      emit ((if pformat p then tabs (pdepth p - 1) else []) @ ''}'' @ [NUL]) 0 p (\<lambda>p.
      Pr True (shallower p)))) (vpost p ro) (fpost p ro)"
      by (rule pw_close [OF q', where t = "(if f then tabs (pdepth p) else []) @ ''}''"])
        (use q'(2) fq u in \<open>auto simp: ro f same_def tabs_def\<close>)
  qed (use ch f in \<open>auto simp: members_printed_def ro\<close>)
qed (auto simp: ro f same_def numeral_2_eq_2)

lemma printed_lists:
  assumes "\<forall>c \<in> set cs. val_ok c \<and> valid_json c"
  shows "elems_printed cs" "members_printed cs"
  using assms
  by (induction cs)
    (simp_all add: elems_printed_step members_printed_step,
     auto simp: elems_printed_def members_printed_def print_elems.simps print_members.simps
       render_elems.simps render_members.simps lpost_def moved_refl)

lemma val_ok: "valid_json c \<Longrightarrow> val_ok c"
proof (induction c)
  case (CJSON n ch)
  have v: "valid_dbl (valuedouble n)" "in_int32 (valueint n)" "\<forall>c \<in> set ch. valid_json c"
    using CJSON.prems by (simp_all add: valid_json.simps)
  note l = printed_lists [of ch]
  have l': "elems_printed ch" "members_printed ch" using l v(3) CJSON.IH by blast+
  show ?case
    unfolding val_ok_def
  proof (intro allI impI)
    fix p assume p: "pb_ok p"
    define ro where "ro = render (pformat p) (pdepth p) (CJSON n ch)"
    have none: "ro = None \<Longrightarrow> pw (Pr False p) (vpost p ro) (fpost p ro)"
      using p by (auto simp: fpost_def failed_def pb_ok_def)
    show "pw (print_value (CJSON n ch) p) (vpost p (render (pformat p) (pdepth p) (CJSON n ch)))
        (fpost p (render (pformat p) (pdepth p) (CJSON n ch)))"
      unfolding ro_def [symmetric] print_value.simps Let_def
      using none pw_word [OF p] pw_number [OF p v(1,2) refl] pw_string_ptr [OF p refl]
        pw_array [OF p l'(1) refl] pw_object [OF p l'(2) refl refl] pw_text [OF p]
      by (auto simp: ro_def render.simps Let_def split: option.split)
  qed
qed

end
