(* ===== verification/JPrintApi.thy ===== *)
theory JPrintApi
  imports JPrintSafe
begin

text \<open>
  The entry points of the printer: \<open>print\<close>, \<open>cJSON_PrintBuffered\<close> and
  \<open>cJSON_PrintPreallocated\<close> give the text of the tree, or nothing, and account for memory.
\<close>

section \<open>The three starting buffers\<close>

definition print_fits :: "bool \<Rightarrow> CJSON \<Rightarrow> hooks \<Rightarrow> bool" where
  "print_fits fmt it h \<longleftrightarrow> (\<forall>k. avail h k) \<and>
     (\<exists>s. render fmt 0 it = Some s \<and> int (length s) + 2 \<le> INT_MAX div 2)"

lemma new_buffer_simps [simp]:
  "pbuf (new_buffer n fmt h h') = Some (fresh_mem h n)" "plength (new_buffer n fmt h h') = n"
  "poffset (new_buffer n fmt h h') = 0" "pdepth (new_buffer n fmt h h') = 0"
  "noalloc (new_buffer n fmt h h') = False" "pformat (new_buffer n fmt h h') = fmt"
  "phk (new_buffer n fmt h h') = h'"
  by (simp_all add: new_buffer_def)

lemma new_buffer_ok: "0 < n \<or> has_realloc h' \<Longrightarrow> pb_ok (new_buffer n fmt h h')"
  by (auto simp: pb_ok_def bytes_def fresh_mem_def)

text \<open>The text has been written from the start of the buffer, or the call has failed.\<close>

lemma print_value_new:
  assumes "valid_json it" "0 < n \<or> has_realloc h'"
  shows "pw (print_value it (new_buffer n fmt h h'))
     (\<lambda>p. \<exists>s r. render fmt 0 it = Some s \<and> no_nul s \<and> pbuf p = Some (s @ NUL # r) \<and>
        plength p = length s + 1 + length r \<and>
        update_offset p = Some (p\<lparr>poffset := length s\<rparr>) \<and> live (phk p) = live h' \<and>
        avail (phk p) = avail h' \<and> has_realloc (phk p) = has_realloc h')
     (\<lambda>p. live (phk p) = live h' - (if pbuf p = None then 1 else 0) \<and>
        \<not> print_fits fmt it h')"
proof (rule pw_mono)
  let ?p = "new_buffer n fmt h h'"
  have "val_ok it" by (rule val_ok [OF assms(1)])
  then show "pw (print_value it ?p) (vpost ?p (render fmt 0 it)) (fpost ?p (render fmt 0 it))"
    using new_buffer_ok [OF assms(2), of fmt h] by (force simp: val_ok_def)
  fix p
  show "\<exists>s r. render fmt 0 it = Some s \<and> no_nul s \<and> pbuf p = Some (s @ NUL # r) \<and>
        plength p = length s + 1 + length r \<and>
        update_offset p = Some (p\<lparr>poffset := length s\<rparr>) \<and> live (phk p) = live h' \<and>
        avail (phk p) = avail h' \<and> has_realloc (phk p) = has_realloc h'"
    if v: "vpost ?p (render fmt 0 it) p"
  proof -
    obtain s where s: "render fmt 0 it = Some s" "ended ?p s p" using v by (auto simp: vpost_def)
    note ns = no_nul_render [OF assms(1) s(1)]
    show ?thesis
      using s ns ended_facts(2) [OF s(2)] update_offset_ended [OF s(2) ns]
      by (auto simp: written_def ended_def same_def)
  qed
  show "live (phk p) = live h' - (if pbuf p = None then 1 else 0) \<and> \<not> print_fits fmt it h'"
    if "fpost ?p (render fmt 0 it) p"
    using that by (force simp: fpost_def failed_def print_fits_def easy_def)
qed

section \<open>\<open>print\<close>\<close>

lemma finish_print_ok:
  assumes "pbuf p = Some (s @ NUL # r)" "poffset p = length s" "plength p = length s + 1 + length r"
  shows "case finish_print p of
      Text (Some out) h \<Rightarrow> out = s @ [NUL] \<and> live h = live (phk p)
    | Text None h \<Rightarrow> live h = live (phk p) - 1 \<and> (\<exists>k. \<not> avail (phk p) k)
    | PrintCrash \<Rightarrow> False"
  using assms
  by (auto simp: finish_print_def Let_def print_failed_def deallocate_def allocate_def put_def
      fresh_mem_def)

definition print_outcome :: "bool \<Rightarrow> CJSON \<Rightarrow> hooks \<Rightarrow> print_res \<Rightarrow> bool" where
  "print_outcome fmt it h res =
     (case res of
        Text (Some out) h' \<Rightarrow>
          (case render fmt 0 it of
             None \<Rightarrow> False
           | Some s \<Rightarrow> take (length s + 1) out = s @ [NUL] \<and> live h' = live h + 1)
      | Text None h' \<Rightarrow> live h' = live h \<and> \<not> print_fits fmt it h
      | PrintCrash \<Rightarrow> False)"

lemma print_text:
  assumes it: "valid_json it"
  shows "print_outcome fmt it h (print_json (Some it) fmt h)"
proof (cases "avail h (calls h)")
  case False
  then show ?thesis
    by (auto simp: print_json_def allocate_def print_outcome_def print_fits_def)
next
  case True
  define h' where "h' = h\<lparr>calls := calls h + 1, live := live h + 1\<rparr>"
  have a: "allocate h = (True, h')" using True by (simp add: allocate_def h'_def)
  have fits: "print_fits fmt it h' = print_fits fmt it h" by (simp add: print_fits_def h'_def)
  note pv = print_value_new [OF it, of 256 h' fmt h, unfolded fits]
  show ?thesis
  proof (cases "print_value it (new_buffer 256 fmt h h')")
    case PrFault
    then show ?thesis using pv by simp
  next
    case (Pr ok p)
    show ?thesis
    proof (cases ok)
      case False
      then show ?thesis
        using Pr pv by (auto simp: print_json_def a print_failed_def print_outcome_def deallocate_def h'_def)
    next
      case True
      then obtain s r where p: "render fmt 0 it = Some s" "pbuf p = Some (s @ NUL # r)"
        "plength p = length s + 1 + length r" "update_offset p = Some (p\<lparr>poffset := length s\<rparr>)"
        "live (phk p) = live h'" "avail (phk p) = avail h'"
        using Pr pv by auto
      have e: "print_json (Some it) fmt h = finish_print (p\<lparr>poffset := length s\<rparr>)"
        using Pr True p(4) by (simp add: print_json_def a)
      have "case finish_print (p\<lparr>poffset := length s\<rparr>) of
          Text (Some out) h2 \<Rightarrow> out = s @ [NUL] \<and> live h2 = live h'
        | Text None h2 \<Rightarrow> live h2 = live h' - 1 \<and> (\<exists>k. \<not> avail h' k)
        | PrintCrash \<Rightarrow> False"
        using finish_print_ok [of "p\<lparr>poffset := length s\<rparr>" s r] p
        by (auto split: print_res.splits option.splits)
      then show ?thesis
        unfolding e
        by (auto simp: print_outcome_def p(1) h'_def print_fits_def split: print_res.splits option.splits)
    qed
  qed
qed

text \<open>
  C4: printing a tree gives exactly its text, or nothing. Whatever hooks are set and whichever
  allocations fail, \<open>print\<close> stays inside its block; a returned block holds the text that
  \<open>render\<close> gives with its NUL and is the only block that is live afterwards; \<open>NULL\<close> leaves no
  block behind, and is returned only when an allocation fails, the text is longer than a
  gigabyte, or the tree has no text.
\<close>

theorem print_gives_text:
  assumes "valid_json it"
  shows "print_outcome fmt it h (print_json (Some it) fmt h)"
  by (rule print_text [OF assms])

definition example_tree :: CJSON where
  "example_tree = CJSON (node0\<lparr>jtype := cJSON_Array\<rparr>)
     [CJSON (node0\<lparr>jtype := cJSON_String, valuestring := Some (''a'' @ [CHR 0x0A, CHR 0x01, NUL])\<rparr>) [],
      CJSON (node0\<lparr>jtype := cJSON_Number, valueint := 7, valuedouble := Fin False 7 0\<rparr>) []]"

lemma example_tree_valid: "valid_json example_tree"
  by (simp add: example_tree_def valid_json.simps node0_def dzero_def c_ints)

theorem print_gives_text_witness:
  "print_outcome True example_tree example_hooks (print_json (Some example_tree) True example_hooks)"
  by (rule print_gives_text [OF example_tree_valid])

section \<open>\<open>cJSON_PrintBuffered\<close>\<close>

text \<open>
  the same holds of \<open>cJSON_PrintBuffered\<close> with any positive size, and with size 0 when the
  hooks have a \<open>realloc\<close>; the block may be longer than the text.
\<close>

theorem print_buffered_gives_text:
  assumes it: "valid_json it" and n: "0 < prebuffer \<or> prebuffer = 0 \<and> has_realloc h"
  shows "print_outcome fmt it h (cJSON_PrintBuffered (Some it) prebuffer fmt h)"
proof (cases "avail h (calls h)")
  case False
  then show ?thesis
    using n by (auto simp: cJSON_PrintBuffered_def allocate_def print_outcome_def print_fits_def)
next
  case True
  define h' where "h' = h\<lparr>calls := calls h + 1, live := live h + 1\<rparr>"
  have a: "allocate h = (True, h')" using True by (simp add: allocate_def h'_def)
  have fits: "print_fits fmt it h' = print_fits fmt it h" by (simp add: print_fits_def h'_def)
  have n': "0 < nat prebuffer \<or> has_realloc h'" using n by (auto simp: h'_def)
  note pv = print_value_new [OF it n', of fmt h, unfolded fits]
  show ?thesis
    using pv n
    by (cases "print_value it (new_buffer (nat prebuffer) fmt h h')")
      (auto simp: pw_def cJSON_PrintBuffered_def a print_failed_def print_outcome_def deallocate_def h'_def
        split: if_splits)
qed

theorem print_buffered_gives_text_witness:
  "print_outcome False example_tree example_hooks (cJSON_PrintBuffered (Some example_tree) 3 False example_hooks)"
  by (rule print_buffered_gives_text [OF example_tree_valid]) simp

text \<open>
  with size 0 and hooks without \<open>realloc\<close> it does not: \<open>ensure\<close> copies \<open>offset + 1\<close> bytes
  out of a block that has none, for a literal as for an array or an object.
\<close>

theorem print_buffered_zero_faults:
  assumes "jtype n AND 0xFF \<in> {cJSON_NULL, cJSON_False, cJSON_True, cJSON_Array, cJSON_Object}"
    and "\<not> has_realloc h" "\<forall>k. avail h k"
  shows "cJSON_PrintBuffered (Some (CJSON n ch)) 0 fmt h = PrintCrash"
proof -
  define h' where "h' = h\<lparr>calls := calls h + 1, live := live h + 1\<rparr>"
  have a: "allocate h = (True, h')" using assms(3) by (simp add: allocate_def h'_def)
  have "ensure (new_buffer 0 fmt h h') k = EFault" if "k < 100" for k
    using that assms(2,3)
    by (simp add: ensure_def INT_MAX_def grow_manual_def allocate_def h'_def fresh_mem_def)
  then show ?thesis
    using assms(1)
    by (auto simp: cJSON_PrintBuffered_def a print_value.simps Let_def print_word_def ensured_def
        print_array_def print_object_def json_types)
qed

theorem print_buffered_zero_faults_witness:
  "cJSON_PrintBuffered (Some (CJSON (node0\<lparr>jtype := cJSON_True\<rparr>) [])) 0 False
     (example_hooks\<lparr>has_realloc := False\<rparr>) = PrintCrash"
  by (rule print_buffered_zero_faults) (simp_all add: example_hooks_def json_types)

section \<open>\<open>cJSON_PrintPreallocated\<close>\<close>

text \<open>
  C26: printing into a buffer of the caller never leaves the buffer and never frees it; true
  means that the buffer holds the text with its NUL. One byte more than the text and its NUL
  is always enough, where the header asks for five.
\<close>

theorem print_preallocated_spec:
  assumes it: "valid_json it" and len: "length buf = nat len" "0 \<le> len"
  shows "\<exists>ok out. cJSON_PrintPreallocated (Some it) (Some buf) len fmt h = Some (ok, Some out) \<and>
     length out = length buf \<and>
     (ok \<longrightarrow> (\<exists>s r. render fmt 0 it = Some s \<and> out = s @ NUL # r)) \<and>
     (\<forall>s. render fmt 0 it = Some s \<and> int (length s) + 2 \<le> min len (INT_MAX div 2) \<longrightarrow> ok)"
proof -
  define p where "p = \<lparr>pbuf = Some buf, plength = nat len, poffset = 0, pdepth = 0, noalloc = True,
      pformat = fmt, phk = h\<rparr>"
  have p: "pb_ok p" "pformat p = fmt" "pdepth p = 0" "noalloc p" "plength p = nat len" "poffset p = 0"
    using len by (auto simp: p_def pb_ok_def bytes_def)
  have pv: "pw (print_value it p) (vpost p (render fmt 0 it)) (fpost p (render fmt 0 it))"
    using val_ok [OF it] p by (force simp: val_ok_def)
  have e: "cJSON_PrintPreallocated (Some it) (Some buf) len fmt h =
      (case print_value it p of PrFault \<Rightarrow> None | Pr ok p \<Rightarrow> Some (ok, pbuf p))"
    using len by (simp add: cJSON_PrintPreallocated_def p_def)
  show ?thesis
  proof (cases "print_value it p")
    case PrFault
    then show ?thesis using pv by simp
  next
    case (Pr ok q)
    have "pbuf q \<noteq> None \<and> plength q = nat len \<and> length (bytes q) = plength q \<and>
        (ok \<longrightarrow> (\<exists>s r. render fmt 0 it = Some s \<and> pbuf q = Some (s @ NUL # r))) \<and>
        (\<forall>s. render fmt 0 it = Some s \<and> int (length s) + 2 \<le> min len (INT_MAX div 2) \<longrightarrow> ok)"
    proof (cases ok)
      case True
      then obtain s where s: "render fmt 0 it = Some s" "ended p s q"
        using Pr pv by (auto simp: vpost_def)
      show ?thesis
        using True s p ended_facts(2) [OF s(2)] by (auto simp: written_def ended_def same_def pb_ok_def bytes_def)
    next
      case False
      then have f: "fpost p (render fmt 0 it) q" using Pr pv by simp
      show ?thesis
        using False f p by (fastforce simp: fpost_def failed_def same_def easy_def)
    qed
    then show ?thesis
      using len by (auto simp: e Pr bytes_def)
  qed
qed

theorem print_preallocated_spec_witness:
  "\<exists>ok out. cJSON_PrintPreallocated (Some example_tree) (Some (replicate 40 NUL)) 40 False example_hooks =
       Some (ok, Some out) \<and> length out = 40 \<and>
     (ok \<longrightarrow> (\<exists>s r. render False 0 example_tree = Some s \<and> out = s @ NUL # r)) \<and>
     (\<forall>s. render False 0 example_tree = Some s \<and> int (length s) + 2 \<le> min 40 (INT_MAX div 2) \<longrightarrow> ok)"
  using print_preallocated_spec [OF example_tree_valid, of "replicate 40 NUL" 40 False example_hooks]
  by (simp only: length_replicate) simp

end
