(* ===== verification/JTree.thy ===== *)
theory JTree
  imports JPrintApi
begin

text \<open>
  Building and reading trees (\<^verbatim>\<open>cJSON.c\<close>): constructors, adding to arrays and objects, lookup.
  An object the code changes in place is handed back; a list of children is the chain of
  \<open>next\<close> pointers (\<open>JLinks\<close> has the pointers). Every operation accounts for the blocks it
  allocates, whichever allocation fails.
\<close>

section \<open>Constructors\<close>

definition created :: "(node \<Rightarrow> node) \<Rightarrow> hooks \<Rightarrow> CJSON option \<times> hooks" where
  "created f h = (case cJSON_New_Item h of (None, h) \<Rightarrow> (None, h) | (Some it, h) \<Rightarrow> (Some (set_info f it), h))"

definition cJSON_CreateNull :: "hooks \<Rightarrow> CJSON option \<times> hooks" where
  "cJSON_CreateNull = created (\<lambda>x. x\<lparr>jtype := cJSON_NULL\<rparr>)"

definition cJSON_CreateTrue :: "hooks \<Rightarrow> CJSON option \<times> hooks" where
  "cJSON_CreateTrue = created (\<lambda>x. x\<lparr>jtype := cJSON_True\<rparr>)"

definition cJSON_CreateFalse :: "hooks \<Rightarrow> CJSON option \<times> hooks" where
  "cJSON_CreateFalse = created (\<lambda>x. x\<lparr>jtype := cJSON_False\<rparr>)"

definition cJSON_CreateBool :: "bool \<Rightarrow> hooks \<Rightarrow> CJSON option \<times> hooks" where
  "cJSON_CreateBool b = created (\<lambda>x. x\<lparr>jtype := (if b then cJSON_True else cJSON_False)\<rparr>)"

definition cJSON_CreateArray :: "hooks \<Rightarrow> CJSON option \<times> hooks" where
  "cJSON_CreateArray = created (\<lambda>x. x\<lparr>jtype := cJSON_Array\<rparr>)"

definition cJSON_CreateObject :: "hooks \<Rightarrow> CJSON option \<times> hooks" where
  "cJSON_CreateObject = created (\<lambda>x. x\<lparr>jtype := cJSON_Object\<rparr>)"

text \<open>\<open>None\<close> is the undefined conversion of NaN, reached only when there is an item to set.\<close>

definition cJSON_CreateNumber :: "dbl \<Rightarrow> hooks \<Rightarrow> (CJSON option \<times> hooks) option" where
  "cJSON_CreateNumber d h =
     (case cJSON_New_Item h of
        (None, h) \<Rightarrow> Some (None, h)
      | (Some it, h) \<Rightarrow>
          (case saturate d of
             None \<Rightarrow> None
           | Some i \<Rightarrow>
               Some (Some (set_info (\<lambda>x. x\<lparr>jtype := cJSON_Number, valuedouble := d, valueint := i\<rparr>) it), h)))"

definition create_text :: "int32 \<Rightarrow> string option \<Rightarrow> hooks \<Rightarrow> CJSON option \<times> hooks" where
  "create_text t s h =
     (case created (\<lambda>x. x\<lparr>jtype := t\<rparr>) h of
        (None, h) \<Rightarrow> (None, h)
      | (Some it, h) \<Rightarrow>
          (case cJSON_strdup s h of
             (None, h) \<Rightarrow> (None, cJSON_Delete [it] h)
           | (Some c, h) \<Rightarrow> (Some (set_info (\<lambda>x. x\<lparr>valuestring := Some c\<rparr>) it), h)))"

definition cJSON_CreateString :: "string option \<Rightarrow> hooks \<Rightarrow> CJSON option \<times> hooks" where
  "cJSON_CreateString = create_text cJSON_String"

definition cJSON_CreateRaw :: "string option \<Rightarrow> hooks \<Rightarrow> CJSON option \<times> hooks" where
  "cJSON_CreateRaw = create_text cJSON_Raw"

definition cJSON_CreateStringReference :: "string option \<Rightarrow> hooks \<Rightarrow> CJSON option \<times> hooks" where
  "cJSON_CreateStringReference s =
     created (\<lambda>x. x\<lparr>jtype := cJSON_String OR cJSON_IsReference, valuestring := s\<rparr>)"

definition created_with :: "int32 \<Rightarrow> CJSON list \<Rightarrow> hooks \<Rightarrow> CJSON option \<times> hooks" where
  "created_with t ch h =
     (case created (\<lambda>x. x\<lparr>jtype := t OR cJSON_IsReference\<rparr>) h of
        (None, h) \<Rightarrow> (None, h) | (Some it, h) \<Rightarrow> (Some (CJSON (info it) ch), h))"

definition cJSON_CreateObjectReference :: "CJSON list \<Rightarrow> hooks \<Rightarrow> CJSON option \<times> hooks" where
  "cJSON_CreateObjectReference = created_with cJSON_Object"

definition cJSON_CreateArrayReference :: "CJSON list \<Rightarrow> hooks \<Rightarrow> CJSON option \<times> hooks" where
  "cJSON_CreateArrayReference = created_with cJSON_Array"

text \<open>
  Arrays: the four functions are one, but for the constructor of an element, which may be
  undefined (\<open>None\<close>) on a NaN. Reading past the given elements is \<open>None\<close> too.
\<close>

fun array_loop :: "('a \<Rightarrow> hooks \<Rightarrow> (CJSON option \<times> hooks) option) \<Rightarrow> 'a list \<Rightarrow> CJSON list \<Rightarrow> hooks \<Rightarrow>
    (bool \<times> CJSON list \<times> hooks) option" where
  "array_loop mk [] acc h = Some (True, acc, h)"
| "array_loop mk (n # ns) acc h =
     (case mk n h of
        None \<Rightarrow> None
      | Some (None, h) \<Rightarrow> Some (False, acc, h)
      | Some (Some it, h) \<Rightarrow> array_loop mk ns (acc @ [it]) h)"

definition create_array :: "('a \<Rightarrow> hooks \<Rightarrow> (CJSON option \<times> hooks) option) \<Rightarrow> 'a list option \<Rightarrow> int \<Rightarrow> hooks \<Rightarrow>
    (CJSON option \<times> hooks) option" where
  "create_array mk elems count h =
     (case elems of
        None \<Rightarrow> Some (None, h)
      | Some ns \<Rightarrow>
          if count < 0 then Some (None, h)
          else case cJSON_CreateArray h of
              (None, h) \<Rightarrow> Some (None, h)
            | (Some a, h) \<Rightarrow>
                if length ns < nat count then None
                else case array_loop mk (take (nat count) ns) [] h of
                    None \<Rightarrow> None
                  | Some (ok, items, h) \<Rightarrow>
                      if ok then Some (Some (CJSON (info a) items), h)
                      else Some (None, cJSON_Delete [CJSON (info a) items] h))"

definition cJSON_CreateIntArray :: "int list option \<Rightarrow> int \<Rightarrow> hooks \<Rightarrow> (CJSON option \<times> hooks) option" where
  "cJSON_CreateIntArray = create_array (\<lambda>n. cJSON_CreateNumber (dbl_of_int n))"

text \<open>A \<^verbatim>\<open>float\<close> is given as the \<^verbatim>\<open>double\<close> of the same value.\<close>

definition cJSON_CreateFloatArray :: "dbl list option \<Rightarrow> int \<Rightarrow> hooks \<Rightarrow> (CJSON option \<times> hooks) option" where
  "cJSON_CreateFloatArray = create_array cJSON_CreateNumber"

definition cJSON_CreateDoubleArray :: "dbl list option \<Rightarrow> int \<Rightarrow> hooks \<Rightarrow> (CJSON option \<times> hooks) option" where
  "cJSON_CreateDoubleArray = create_array cJSON_CreateNumber"

definition cJSON_CreateStringArray :: "string option list option \<Rightarrow> int \<Rightarrow> hooks \<Rightarrow> (CJSON option \<times> hooks) option" where
  "cJSON_CreateStringArray = create_array (\<lambda>s h. Some (cJSON_CreateString s h))"

section \<open>Adding\<close>

text \<open>Two trees that are separate arguments share no item, so \<open>array == item\<close> is false here.\<close>

definition add_item_to_array :: "CJSON option \<Rightarrow> CJSON option \<Rightarrow> bool \<times> CJSON option" where
  "add_item_to_array array item =
     (case (array, item) of
        (Some a, Some it) \<Rightarrow> (True, Some (CJSON (info a) (child a @ [it])))
      | _ \<Rightarrow> (False, array))"

definition cJSON_AddItemToArray :: "CJSON option \<Rightarrow> CJSON option \<Rightarrow> bool \<times> CJSON option" where
  "cJSON_AddItemToArray = add_item_to_array"

text \<open>The result: success, the object, and the hooks. The item has moved into the object or is as before.\<close>

definition add_item_to_object ::
    "CJSON option \<Rightarrow> string option \<Rightarrow> CJSON option \<Rightarrow> hooks \<Rightarrow> bool \<Rightarrow> bool \<times> CJSON option \<times> hooks" where
  "add_item_to_object object key item h constant_key =
     (case (object, key, item) of
        (Some ob, Some k, Some it) \<Rightarrow>
          (case (if constant_key then (Some k, h) else cJSON_strdup (Some k) h) of
             (None, h1) \<Rightarrow> (False, object, h1)
           | (Some new_key, h1) \<Rightarrow>
               let new_type = (if constant_key then jtype (info it) OR cJSON_StringIsConst
                               else jtype (info it) AND NOT cJSON_StringIsConst);
                   h2 = (if \<not> has_const_key (info it) \<and> jstring (info it) \<noteq> None then deallocate h1 else h1);
                   it' = set_info (\<lambda>x. x\<lparr>jstring := Some new_key, jtype := new_type\<rparr>) it;
                   (ok, ob') = add_item_to_array (Some ob) (Some it')
               in (ok, ob', h2))
      | _ \<Rightarrow> (False, object, h))"

definition cJSON_AddItemToObject ::
    "CJSON option \<Rightarrow> string option \<Rightarrow> CJSON option \<Rightarrow> hooks \<Rightarrow> bool \<times> CJSON option \<times> hooks" where
  "cJSON_AddItemToObject object key item h = add_item_to_object object key item h False"

definition cJSON_AddItemToObjectCS ::
    "CJSON option \<Rightarrow> string option \<Rightarrow> CJSON option \<Rightarrow> hooks \<Rightarrow> bool \<times> CJSON option \<times> hooks" where
  "cJSON_AddItemToObjectCS object key item h = add_item_to_object object key item h True"

text \<open>A reference copies the item and shares its text and children.\<close>

definition create_reference :: "CJSON option \<Rightarrow> hooks \<Rightarrow> CJSON option \<times> hooks" where
  "create_reference item h =
     (case item of
        None \<Rightarrow> (None, h)
      | Some it \<Rightarrow>
          (case cJSON_New_Item h of
             (None, h) \<Rightarrow> (None, h)
           | (Some _, h) \<Rightarrow>
               (Some (set_info (\<lambda>x. x\<lparr>jstring := None, jtype := jtype x OR cJSON_IsReference\<rparr>) it), h)))"

definition cJSON_AddItemReferenceToArray ::
    "CJSON option \<Rightarrow> CJSON option \<Rightarrow> hooks \<Rightarrow> bool \<times> CJSON option \<times> hooks" where
  "cJSON_AddItemReferenceToArray array item h =
     (if array = None then (False, array, h)
      else case create_reference item h of (r, h) \<Rightarrow>
        (case add_item_to_array array r of (ok, a) \<Rightarrow> (ok, a, h)))"

definition cJSON_AddItemReferenceToObject ::
    "CJSON option \<Rightarrow> string option \<Rightarrow> CJSON option \<Rightarrow> hooks \<Rightarrow> bool \<times> CJSON option \<times> hooks" where
  "cJSON_AddItemReferenceToObject object key item h =
     (if object = None \<or> key = None then (False, object, h)
      else case create_reference item h of (r, h) \<Rightarrow> add_item_to_object object key r h False)"

text \<open>The \<open>cJSON_Add...ToObject\<close> family: create, add, delete when adding fails. The result says whether a pointer is returned.\<close>

definition add_created ::
    "CJSON option \<Rightarrow> string option \<Rightarrow> CJSON option \<times> hooks \<Rightarrow> bool \<times> CJSON option \<times> hooks" where
  "add_created object name c =
     (case c of (item, h) \<Rightarrow>
        (case add_item_to_object object name item h False of
           (True, ob, h) \<Rightarrow> (True, ob, h)
         | (False, ob, h) \<Rightarrow> (False, ob, cJSON_Delete (case item of None \<Rightarrow> [] | Some it \<Rightarrow> [it]) h)))"

definition cJSON_AddNullToObject ::
    "CJSON option \<Rightarrow> string option \<Rightarrow> hooks \<Rightarrow> bool \<times> CJSON option \<times> hooks" where
  "cJSON_AddNullToObject object name h = add_created object name (cJSON_CreateNull h)"
definition cJSON_AddTrueToObject ::
    "CJSON option \<Rightarrow> string option \<Rightarrow> hooks \<Rightarrow> bool \<times> CJSON option \<times> hooks" where
  "cJSON_AddTrueToObject object name h = add_created object name (cJSON_CreateTrue h)"
definition cJSON_AddFalseToObject ::
    "CJSON option \<Rightarrow> string option \<Rightarrow> hooks \<Rightarrow> bool \<times> CJSON option \<times> hooks" where
  "cJSON_AddFalseToObject object name h = add_created object name (cJSON_CreateFalse h)"
definition cJSON_AddBoolToObject ::
    "CJSON option \<Rightarrow> string option \<Rightarrow> bool \<Rightarrow> hooks \<Rightarrow> bool \<times> CJSON option \<times> hooks" where
  "cJSON_AddBoolToObject object name b h = add_created object name (cJSON_CreateBool b h)"
definition cJSON_AddStringToObject ::
    "CJSON option \<Rightarrow> string option \<Rightarrow> string option \<Rightarrow> hooks \<Rightarrow> bool \<times> CJSON option \<times> hooks" where
  "cJSON_AddStringToObject object name s h = add_created object name (cJSON_CreateString s h)"
definition cJSON_AddRawToObject ::
    "CJSON option \<Rightarrow> string option \<Rightarrow> string option \<Rightarrow> hooks \<Rightarrow> bool \<times> CJSON option \<times> hooks" where
  "cJSON_AddRawToObject object name raw h = add_created object name (cJSON_CreateRaw raw h)"
definition cJSON_AddObjectToObject ::
    "CJSON option \<Rightarrow> string option \<Rightarrow> hooks \<Rightarrow> bool \<times> CJSON option \<times> hooks" where
  "cJSON_AddObjectToObject object name h = add_created object name (cJSON_CreateObject h)"
definition cJSON_AddArrayToObject ::
    "CJSON option \<Rightarrow> string option \<Rightarrow> hooks \<Rightarrow> bool \<times> CJSON option \<times> hooks" where
  "cJSON_AddArrayToObject object name h = add_created object name (cJSON_CreateArray h)"
definition cJSON_AddNumberToObject ::
    "CJSON option \<Rightarrow> string option \<Rightarrow> dbl \<Rightarrow> hooks \<Rightarrow> (bool \<times> CJSON option \<times> hooks) option" where
  "cJSON_AddNumberToObject object name d h = map_option (add_created object name) (cJSON_CreateNumber d h)"

section \<open>Lookup\<close>

definition c_tolower :: "char \<Rightarrow> nat" where
  "c_tolower c = (if 65 \<le> byte c \<and> byte c \<le> 90 then byte c + 32 else byte c)"

text \<open>The loop, over strings that end in NUL.\<close>

fun ci_loop :: "string \<Rightarrow> string \<Rightarrow> int" where
  "ci_loop (c # s) (d # t) =
     (if c_tolower c = c_tolower d then if c = NUL then 0 else ci_loop s t
      else int (c_tolower c) - int (c_tolower d))"
| "ci_loop _ _ = 0"

definition case_insensitive_strcmp :: "string option \<Rightarrow> string option \<Rightarrow> int" where
  "case_insensitive_strcmp s t =
     (case (s, t) of
        (Some a, Some b) \<Rightarrow> ci_loop (cstr a @ [NUL]) (cstr b @ [NUL])
      | _ \<Rightarrow> 1)"

fun find_sensitive :: "string \<Rightarrow> CJSON list \<Rightarrow> CJSON option" where
  "find_sensitive name [] = None"
| "find_sensitive name (c # cs) =
     (case jstring (info c) of
        None \<Rightarrow> Some c
      | Some k \<Rightarrow> if cstr name \<noteq> cstr k then find_sensitive name cs else Some c)"

fun find_insensitive :: "string \<Rightarrow> CJSON list \<Rightarrow> CJSON option" where
  "find_insensitive name [] = None"
| "find_insensitive name (c # cs) =
     (if case_insensitive_strcmp (Some name) (jstring (info c)) \<noteq> 0 then find_insensitive name cs else Some c)"

definition get_object_item :: "CJSON option \<Rightarrow> string option \<Rightarrow> bool \<Rightarrow> CJSON option" where
  "get_object_item object name case_sensitive =
     (case (object, name) of
        (Some ob, Some n) \<Rightarrow>
          (case (if case_sensitive then find_sensitive n (child ob) else find_insensitive n (child ob)) of
             None \<Rightarrow> None
           | Some c \<Rightarrow> if jstring (info c) = None then None else Some c)
      | _ \<Rightarrow> None)"

definition cJSON_GetObjectItem :: "CJSON option \<Rightarrow> string option \<Rightarrow> CJSON option" where
  "cJSON_GetObjectItem object name = get_object_item object name False"
definition cJSON_GetObjectItemCaseSensitive :: "CJSON option \<Rightarrow> string option \<Rightarrow> CJSON option" where
  "cJSON_GetObjectItemCaseSensitive object name = get_object_item object name True"
definition cJSON_HasObjectItem :: "CJSON option \<Rightarrow> string option \<Rightarrow> bool" where
  "cJSON_HasObjectItem object name \<longleftrightarrow> cJSON_GetObjectItem object name \<noteq> None"

section \<open>Names\<close>

lemma c_tolower_nul [simp]: "c_tolower NUL = 0" "c_tolower c = 0 \<longleftrightarrow> c = NUL" "0 = c_tolower c \<longleftrightarrow> c = NUL"
proof -
  have "byte c = 0 \<longleftrightarrow> c = NUL" using of_char_eq_iff [of c NUL, where 'a = nat] by simp
  then show "c_tolower NUL = 0" "c_tolower c = 0 \<longleftrightarrow> c = NUL" "0 = c_tolower c \<longleftrightarrow> c = NUL"
    by (auto simp: c_tolower_def)
qed

lemma ci_loop_zero:
  "no_nul s \<Longrightarrow> no_nul t \<Longrightarrow>
    ci_loop (s @ [NUL]) (t @ [NUL]) = 0 \<longleftrightarrow> map c_tolower s = map c_tolower t"
proof (induction s arbitrary: t)
  case Nil
  then show ?case by (cases t) auto
next
  case (Cons c s)
  then show ?case by (cases t) auto
qed

definition same_name :: "bool \<Rightarrow> string \<Rightarrow> string \<Rightarrow> bool" where
  "same_name case_sensitive n k \<longleftrightarrow>
     (if case_sensitive then cstr n = cstr k else map c_tolower (cstr n) = map c_tolower (cstr k))"

lemma case_insensitive_strcmp_zero:
  "case_insensitive_strcmp (Some n) (Some k) = 0 \<longleftrightarrow> same_name False n k"
  by (simp add: case_insensitive_strcmp_def same_name_def ci_loop_zero)

definition all_named :: "CJSON list \<Rightarrow> bool" where
  "all_named cs \<longleftrightarrow> (\<forall>c \<in> set cs. jstring (info c) \<noteq> None)"

fun find_name :: "bool \<Rightarrow> string \<Rightarrow> CJSON list \<Rightarrow> CJSON option" where
  "find_name b n [] = None"
| "find_name b n (c # cs) =
     (case jstring (info c) of None \<Rightarrow> find_name b n cs
      | Some k \<Rightarrow> if same_name b n k then Some c else find_name b n cs)"

lemma find_name_append:
  "find_name b n (xs @ ys) = (case find_name b n xs of None \<Rightarrow> find_name b n ys | Some c \<Rightarrow> Some c)"
  by (induction xs) (auto split: option.split)

lemma find_name_some: "find_name b n cs = Some c \<Longrightarrow> c \<in> set cs \<and> jstring (info c) \<noteq> None"
  by (induction cs) (auto split: option.splits if_splits)

lemma get_object_item_eq:
  "all_named (child ob) \<or> \<not> b \<Longrightarrow> get_object_item (Some ob) (Some n) b = find_name b n (child ob)"
proof -
  have "find_sensitive n cs = find_name True n cs" if "all_named cs" for cs
    using that by (induction cs) (auto simp: all_named_def same_name_def)
  moreover have "find_insensitive n cs = find_name False n cs" for cs
  proof (induction cs)
    case (Cons c cs)
    then show ?case
      using case_insensitive_strcmp_zero [of n]
      by (cases "jstring (info c)") (auto simp: case_insensitive_strcmp_def)
  qed simp
  ultimately show "all_named (child ob) \<or> \<not> b \<Longrightarrow> get_object_item (Some ob) (Some n) b = find_name b n (child ob)"
    by (cases b) (auto simp: get_object_item_def split: option.split dest: find_name_some)
qed

section \<open>Accounting\<close>

lemma blocks_set_info: "blocks (set_info f it) = node_blocks (f (info it)) +
    (if is_reference (f (info it)) then 0 else blocks_list (child it))"
  by (cases it) (simp add: set_info_def)

lemma created_cases:
  "(\<exists>h'. created f h = (None, h') \<and> live h' = live h) \<or>
   (\<exists>h'. created f h = (Some (CJSON (f node0) []), h') \<and> live h' = live h + 1)"
  by (auto simp: created_def cJSON_New_Item_def allocate_def set_info_def)

lemma strdup_cases:
  "(\<exists>h'. cJSON_strdup s h = (None, h') \<and> live h' = live h) \<or>
   (\<exists>c h'. s \<noteq> None \<and> c = cstr (the s) \<and> cJSON_strdup s h = (Some c, h') \<and> live h' = live h + 1)"
  by (auto simp: cJSON_strdup_def allocate_def split: option.split)

definition opt_blocks :: "CJSON option \<Rightarrow> nat" where
  "opt_blocks it = (case it of None \<Rightarrow> 0 | Some i \<Rightarrow> blocks i)"

lemma key_flags [simp]:
  "(w OR cJSON_StringIsConst) AND cJSON_IsReference = w AND cJSON_IsReference"
  "(w AND NOT cJSON_StringIsConst) AND cJSON_IsReference = w AND cJSON_IsReference"
  "(w OR cJSON_StringIsConst) AND cJSON_StringIsConst = cJSON_StringIsConst"
  "(w AND NOT cJSON_StringIsConst) AND cJSON_StringIsConst = 0"
  "cJSON_StringIsConst \<noteq> 0"
proof -
  have a: "NOT (0x200 :: int32) AND 0x100 = 0x100" "NOT (0x200 :: int32) AND 0x200 = 0" by simp_all
  show "(w OR cJSON_StringIsConst) AND cJSON_IsReference = w AND cJSON_IsReference"
    by (simp add: json_types word_ao_dist)
  show "(w AND NOT cJSON_StringIsConst) AND cJSON_IsReference = w AND cJSON_IsReference"
    unfolding and.assoc json_types a ..
  show "(w OR cJSON_StringIsConst) AND cJSON_StringIsConst = cJSON_StringIsConst"
    by (simp add: json_types)
  show "(w AND NOT cJSON_StringIsConst) AND cJSON_StringIsConst = 0"
    unfolding and.assoc json_types a by simp
  show "cJSON_StringIsConst \<noteq> 0" by (simp add: json_types)
qed

lemma add_item_cases:
  assumes "add_item_to_object ob key item h cst = (ok, ob', h')" "\<forall>o1. ob = Some o1 \<longrightarrow> \<not> is_reference (info o1)"
  shows "if ok then live h' + int (opt_blocks ob) + int (opt_blocks item) = live h + int (opt_blocks ob')
         else ob' = ob \<and> live h' = live h"
proof -
  have flag: "is_reference (x\<lparr>jstring := k, jtype := jtype x OR cJSON_StringIsConst\<rparr>) = is_reference x"
    "is_reference (x\<lparr>jstring := k, jtype := jtype x AND NOT cJSON_StringIsConst\<rparr>) = is_reference x"
    "has_const_key (x\<lparr>jstring := k, jtype := jtype x OR cJSON_StringIsConst\<rparr>)"
    "\<not> has_const_key (x\<lparr>jstring := k, jtype := jtype x AND NOT cJSON_StringIsConst\<rparr>)" for x k
    by (simp_all add: is_reference_def has_const_key_def key_flags)
  show ?thesis
  proof (cases "ob = None \<or> key = None \<or> item = None")
    case True
    then show ?thesis using assms by (auto simp: add_item_to_object_def split: option.splits)
  next
    case False
    then obtain o1 k it where e: "ob = Some o1" "key = Some k" "item = Some it" by auto
    have nb: "node_blocks (x\<lparr>jstring := Some n, jtype := jtype x OR cJSON_StringIsConst\<rparr>) + (if \<not> has_const_key x \<and> jstring x \<noteq> None then 1 else 0) = node_blocks x"
      "node_blocks (x\<lparr>jstring := Some n, jtype := jtype x AND NOT cJSON_StringIsConst\<rparr>) + (if \<not> has_const_key x \<and> jstring x \<noteq> None then 1 else 0) = node_blocks x + 1" for x n
      by (auto simp: node_blocks_def flag)
    have b: "blocks (set_info f it) + node_blocks (info it) = blocks it + node_blocks (f (info it))"
      if "is_reference (f (info it)) = is_reference (info it)" for f
      using that by (cases it) (simp add: blocks_set_info)
    have r: "\<not> is_reference (info o1)" using assms(2) e by simp
    then have o: "blocks o1 = node_blocks (info o1) + blocks_list (child o1)" by (cases o1) simp
    show ?thesis
    proof (cases cst)
      case True
      then show ?thesis
        using assms(1) nb(1) [of "info it" k] b [of "\<lambda>x. x\<lparr>jstring := Some k, jtype := jtype (info it) OR cJSON_StringIsConst\<rparr>"]
          flag [of "info it"] r
        by (auto simp: e add_item_to_object_def Let_def add_item_to_array_def o opt_blocks_def deallocate_def)
    next
      case False
      then show ?thesis
        using assms(1) nb(2) [of "info it" "cstr k"]
          b [of "\<lambda>x. x\<lparr>jstring := Some (cstr k), jtype := jtype (info it) AND NOT cJSON_StringIsConst\<rparr>"]
          flag [of "info it"] r
          strdup_cases [of "Some k" h]
        by (auto simp: e add_item_to_object_def Let_def add_item_to_array_def o opt_blocks_def deallocate_def)
    qed
  qed
qed

text \<open>What a constructor gives: an item whose blocks are the new ones, or nothing.\<close>

definition accounted :: "hooks \<Rightarrow> CJSON option \<times> hooks \<Rightarrow> bool" where
  "accounted h r \<longleftrightarrow> live (snd r) = live h + int (opt_blocks (fst r))"

lemma not_reference [simp]:
  "\<not> is_reference (x\<lparr>jtype := cJSON_NULL\<rparr>)" "\<not> is_reference (x\<lparr>jtype := cJSON_True\<rparr>)"
  "\<not> is_reference (x\<lparr>jtype := cJSON_False\<rparr>)" "\<not> is_reference (x\<lparr>jtype := cJSON_Array\<rparr>)"
  "\<not> is_reference (x\<lparr>jtype := cJSON_Object\<rparr>)" "\<not> is_reference (x\<lparr>jtype := cJSON_String\<rparr>)"
  "\<not> is_reference (x\<lparr>jtype := cJSON_Raw\<rparr>)" "\<not> is_reference (x\<lparr>jtype := cJSON_Number\<rparr>)"
  by (simp_all add: is_reference_def json_types)

lemma created_accounted:
  "valuestring (f node0) = None \<Longrightarrow> jstring (f node0) = None \<Longrightarrow> accounted h (created f h)"
  using created_cases [of f h] by (auto simp: accounted_def opt_blocks_def node_blocks_def)

lemma create_text_accounted:
  "t \<in> {cJSON_String, cJSON_Raw} \<Longrightarrow> accounted h (create_text t s h)"
proof -
  assume t: "t \<in> {cJSON_String, cJSON_Raw}"
  define n where "n = node0\<lparr>jtype := t\<rparr>"
  have n: "\<not> is_reference n" "\<not> is_reference (n\<lparr>valuestring := Some c\<rparr>)" "jstring n = None" "valuestring n = None" for c
    using t by (auto simp: n_def is_reference_def json_types node0_def)
  consider h1 where "created (\<lambda>x. x\<lparr>jtype := t\<rparr>) h = (None, h1)" "live h1 = live h"
    | h1 where "created (\<lambda>x. x\<lparr>jtype := t\<rparr>) h = (Some (CJSON n []), h1)" "live h1 = live h + 1"
    using created_cases [of "\<lambda>x. x\<lparr>jtype := t\<rparr>" h] by (auto simp: n_def)
  then show ?thesis
  proof cases
    case 1
    then show ?thesis by (simp add: create_text_def accounted_def opt_blocks_def)
  next
    case (2 h1)
    then show ?thesis
      using strdup_cases [of s h1] n
      by (auto simp: create_text_def accounted_def opt_blocks_def set_info_def node_blocks_def)
  qed
qed

lemma created_simps [simp]: "valuestring node0 = None" "jstring node0 = None"
  by (simp_all add: node0_def)

lemma constructors_accounted:
  "accounted h (cJSON_CreateNull h)" "accounted h (cJSON_CreateTrue h)" "accounted h (cJSON_CreateFalse h)"
  "accounted h (cJSON_CreateBool b h)" "accounted h (cJSON_CreateArray h)" "accounted h (cJSON_CreateObject h)"
  "accounted h (cJSON_CreateString s h)" "accounted h (cJSON_CreateRaw s h)"
  "cJSON_CreateNumber d h = Some r \<Longrightarrow> accounted h r"
proof -
  show "accounted h (cJSON_CreateString s h)" "accounted h (cJSON_CreateRaw s h)"
    by (simp_all add: cJSON_CreateString_def cJSON_CreateRaw_def create_text_accounted)
  show "cJSON_CreateNumber d h = Some r \<Longrightarrow> accounted h r"
    by (auto simp: cJSON_CreateNumber_def cJSON_New_Item_def allocate_def accounted_def opt_blocks_def
        set_info_def node_blocks_def split: option.splits if_splits)
qed (simp_all add: cJSON_CreateNull_def cJSON_CreateTrue_def cJSON_CreateFalse_def cJSON_CreateBool_def
    cJSON_CreateArray_def cJSON_CreateObject_def created_accounted)

lemma array_loop_live:
  assumes "\<And>n h r. mk n h = Some r \<Longrightarrow> accounted h r"
  shows "array_loop mk ns acc h = Some (ok, items, h') \<Longrightarrow>
    live h' + int (blocks_list acc) = live h + int (blocks_list items) \<and>
    (ok \<longrightarrow> length items = length acc + length ns)"
proof (induction ns arbitrary: acc h)
  case (Cons n ns)
  obtain r h1 where r: "mk n h = Some (r, h1)" using Cons.prems by (auto split: option.splits)
  show ?case using Cons assms [OF r] r by (cases r) (fastforce simp: accounted_def opt_blocks_def)+
qed simp

lemma create_array_accounted:
  assumes "\<And>n h r. mk n h = Some r \<Longrightarrow> accounted h r" "create_array mk elems count h = Some r"
  shows "accounted h r"
proof -
  consider "r = (None, h)"
    | h1 where "cJSON_CreateArray h = (None, h1)" "r = (None, h1)"
    | a h1 ns ok items h2 where "cJSON_CreateArray h = (Some a, h1)" "array_loop mk ns [] h1 = Some (ok, items, h2)"
      "r = (if ok then (Some (CJSON (info a) items), h2) else (None, cJSON_Delete [CJSON (info a) items] h2))"
    using assms(2) by (auto simp: create_array_def split: option.splits prod.splits if_splits)
  then show ?thesis
  proof cases
    case (2 h1)
    then show ?thesis
      using created_cases [of "\<lambda>x. x\<lparr>jtype := cJSON_Array\<rparr>" h] by (auto simp: cJSON_CreateArray_def accounted_def opt_blocks_def)
  next
    case (3 a h1 ns ok items h2)
    have a: "live h1 = live h + 1" "info a = node0\<lparr>jtype := cJSON_Array\<rparr>"
      using 3(1) created_cases [of "\<lambda>x. x\<lparr>jtype := cJSON_Array\<rparr>" h] by (auto simp: cJSON_CreateArray_def)
    have l: "live h2 = live h1 + int (blocks_list items)"
      using array_loop_live [of mk, OF assms(1) 3(2)] by simp
    have "blocks (CJSON (info a) items) = 1 + blocks_list items" by (simp add: a node_blocks_def)
    then show ?thesis using 3(3) a(1) l by (simp add: accounted_def opt_blocks_def)
  qed (simp add: accounted_def opt_blocks_def)
qed

text \<open>Creating an array leaks nothing whichever allocation fails.\<close>

lemma arrays_accounted:
  "cJSON_CreateIntArray is k h = Some r \<Longrightarrow> accounted h r" "cJSON_CreateFloatArray fs k h = Some r \<Longrightarrow> accounted h r"
  "cJSON_CreateDoubleArray ds k h = Some r \<Longrightarrow> accounted h r" "cJSON_CreateStringArray ss k h = Some r \<Longrightarrow> accounted h r"
  unfolding cJSON_CreateIntArray_def cJSON_CreateFloatArray_def cJSON_CreateDoubleArray_def cJSON_CreateStringArray_def
  by (erule create_array_accounted [rotated]; auto intro: constructors_accounted)+

lemma add_created_live:
  assumes "add_created ob key c = (ok, ob', h')" "accounted h c"
    and "\<forall>o1. ob = Some o1 \<longrightarrow> \<not> is_reference (info o1)"
  shows "live h' + int (opt_blocks ob) = live h + int (opt_blocks ob') \<and> (\<not> ok \<longrightarrow> ob' = ob)"
proof -
  obtain item h1 where c: "c = (item, h1)" by (cases c)
  obtain ok1 ob1 h2 where a: "add_item_to_object ob key item h1 False = (ok1, ob1, h2)"
    by (cases "add_item_to_object ob key item h1 False") auto
  have "live h1 = live h + int (opt_blocks item)" using assms(2) by (simp add: accounted_def c)
  moreover have "add_created ob key c = (if ok1 then (True, ob1, h2)
      else (False, ob1, cJSON_Delete (case item of None \<Rightarrow> [] | Some it \<Rightarrow> [it]) h2))"
    by (simp add: add_created_def c a split: bool.split)
  ultimately show ?thesis
    using add_item_cases [OF a assms(3)] assms(1)
    by (cases item) (auto simp: opt_blocks_def split: if_splits)
qed

lemmas add_ops_def = cJSON_AddNullToObject_def cJSON_AddTrueToObject_def cJSON_AddFalseToObject_def
  cJSON_AddBoolToObject_def cJSON_AddStringToObject_def cJSON_AddRawToObject_def
  cJSON_AddObjectToObject_def cJSON_AddArrayToObject_def

text \<open>A reference is one block, without key or children of its own.\<close>

lemma create_reference_cases:
  "(\<exists>h1. create_reference item h = (None, h1) \<and> live h1 = live h \<and> (item = None \<or> \<not> avail h (calls h))) \<or>
   (\<exists>r h1. create_reference item h = (Some r, h1) \<and> blocks r = 1 \<and>
      live h1 = live h + 1 \<and> item \<noteq> None \<and> avail h (calls h))"
proof -
  have "is_reference (x\<lparr>jstring := None, jtype := jtype x OR cJSON_IsReference\<rparr>)" for x
    by (simp add: is_reference_def json_types word_ao_dist)
  then have "blocks (set_info (\<lambda>x. x\<lparr>jstring := None, jtype := jtype x OR cJSON_IsReference\<rparr>) it) = 1" for it
    by (simp add: blocks_set_info node_blocks_def)
  then show ?thesis
    by (auto simp: create_reference_def cJSON_New_Item_def allocate_def split: option.split)
qed

lemma reference_to_object:
  assumes "cJSON_AddItemReferenceToObject ob key item h = (ok, ob', h')"
    and "\<forall>o1. ob = Some o1 \<longrightarrow> \<not> is_reference (info o1)"
  shows "live h' - live h = int (opt_blocks ob') - int (opt_blocks ob) +
      (if \<not> ok \<and> ob \<noteq> None \<and> key \<noteq> None \<and> item \<noteq> None \<and> avail h (calls h) then 1 else 0) \<and>
    (\<not> ok \<longrightarrow> ob' = ob)"
proof (cases "ob = None \<or> key = None")
  case False
  obtain r h1 where c: "create_reference item h = (r, h1)"
      "(r = None \<and> live h1 = live h \<and> (item = None \<or> \<not> avail h (calls h))) \<or>
       (opt_blocks r = 1 \<and> r \<noteq> None \<and> live h1 = live h + 1 \<and> item \<noteq> None \<and> avail h (calls h))"
    using create_reference_cases [of item h] by (auto simp: opt_blocks_def)
  have a: "add_item_to_object ob key r h1 False = (ok, ob', h')"
    using assms(1) False c(1) by (simp add: cJSON_AddItemReferenceToObject_def)
  have "ok \<Longrightarrow> r \<noteq> None" using a by (auto simp: add_item_to_object_def split: option.splits)
  moreover have "opt_blocks None = 0" by (simp add: opt_blocks_def)
  ultimately show ?thesis
    using add_item_cases [OF a assms(2)] c(2) False by (cases ok) auto
qed (use assms(1) in \<open>auto simp: cJSON_AddItemReferenceToObject_def\<close>)

lemma reference_to_array:
  assumes "cJSON_AddItemReferenceToArray ob item h = (ok, ob', h')"
    and "\<forall>o1. ob = Some o1 \<longrightarrow> \<not> is_reference (info o1)"
  shows "live h' - live h = int (opt_blocks ob') - int (opt_blocks ob) \<and> (\<not> ok \<longrightarrow> ob' = ob)"
proof (cases ob)
  case (Some o1)
  have "blocks o1 = node_blocks (info o1) + blocks_list (child o1)"
    using assms(2) Some by (cases o1) simp
  then show ?thesis
    using assms create_reference_cases [of item h] Some
    by (cases "create_reference item h")
      (auto simp: cJSON_AddItemReferenceToArray_def add_item_to_array_def opt_blocks_def)
qed (use assms(1) in \<open>auto simp: cJSON_AddItemReferenceToArray_def\<close>)

section \<open>Properties\<close>

text \<open>
  C31: what adding to an object leaves behind, whichever allocation fails, when the object is
  not itself a reference to another one: each of the nine \<open>cJSON_Add...ToObject\<close> calls that
  create an item, and adding a reference to an array, leave as many blocks live as the object
  has gained, and leave the object as it was when they fail. Adding a reference to an object
  does too, but for one case: when the reference has been allocated and the copy of the key
  fails, its block is lost.
\<close>

theorem adding_accounts:
  assumes ob: "\<forall>o1. ob = Some o1 \<longrightarrow> \<not> is_reference (info o1)"
    and r: "(ok, ob', h') \<in> {cJSON_AddNullToObject ob k h, cJSON_AddTrueToObject ob k h,
       cJSON_AddFalseToObject ob k h, cJSON_AddBoolToObject ob k b h, cJSON_AddStringToObject ob k s h,
       cJSON_AddRawToObject ob k s h, cJSON_AddObjectToObject ob k h, cJSON_AddArrayToObject ob k h,
       cJSON_AddItemReferenceToArray ob it h} \<and> lost = (0 :: int) \<or>
       cJSON_AddNumberToObject ob k d h = Some (ok, ob', h') \<and> lost = 0 \<or>
       cJSON_AddItemReferenceToObject ob k it h = (ok, ob', h') \<and>
         lost = (if \<not> ok \<and> ob \<noteq> None \<and> k \<noteq> None \<and> it \<noteq> None \<and> avail h (calls h) then 1 else 0)"
  shows "live h' - live h = int (opt_blocks ob') - int (opt_blocks ob) + lost \<and> (\<not> ok \<longrightarrow> ob' = ob)"
proof -
  define P where "P = (\<lambda>r. \<exists>c. accounted h c \<and> r = add_created ob k c)"
  have P: "accounted h c \<Longrightarrow> P (add_created ob k c)" for c unfolding P_def by blast
  have "P (ok, ob', h') \<and> lost = 0 \<or> cJSON_AddItemReferenceToArray ob it h = (ok, ob', h') \<and> lost = 0 \<or>
      cJSON_AddItemReferenceToObject ob k it h = (ok, ob', h') \<and>
        lost = (if \<not> ok \<and> ob \<noteq> None \<and> k \<noteq> None \<and> it \<noteq> None \<and> avail h (calls h) then 1 else 0)"
    using r
  proof (elim disjE conjE insertE emptyE)
    assume "cJSON_AddNumberToObject ob k d h = Some (ok, ob', h')" "lost = 0"
    then show ?thesis
      unfolding cJSON_AddNumberToObject_def map_option_eq_Some by (metis P constructors_accounted(9))
  qed (simp_all only: add_ops_def simp_thms, ((rule disjI1)?, intro P constructors_accounted)+)
  moreover have ?thesis if p: "P (ok, ob', h')" "lost = 0"
  proof -
    obtain c where "accounted h c" "add_created ob k c = (ok, ob', h')" using p(1) unfolding P_def by metis
    then show ?thesis using add_created_live [OF _ _ ob, of k c ok ob' h' h] p(2) by auto
  qed
  ultimately show ?thesis using reference_to_array [OF _ ob] reference_to_object [OF _ ob] by fastforce
qed

definition empty_object :: CJSON where
  "empty_object = CJSON (node0\<lparr>jtype := cJSON_Object\<rparr>) []"

theorem adding_accounts_witness:
  "(\<exists>ok ob' h'. cJSON_AddStringToObject (Some empty_object) (Some ''k'') (Some ''v'')
       (example_hooks\<lparr>avail := (\<lambda>n. n \<noteq> 2)\<rparr>) = (ok, ob', h') \<and> \<not> ok \<and> live h' = 0 \<and> ob' = Some empty_object) \<and>
   (\<exists>ob' h'. cJSON_AddItemReferenceToObject (Some empty_object) (Some ''k'') (Some empty_object)
       (example_hooks\<lparr>avail := (\<lambda>n. n \<noteq> 1)\<rparr>) = (False, ob', h') \<and> live h' = 1 \<and> ob' = Some empty_object)"
proof (rule conjI)
  define h where "h = example_hooks\<lparr>avail := (\<lambda>n. n \<noteq> 2)\<rparr>"
  obtain ok ob' h' where r: "cJSON_AddStringToObject (Some empty_object) (Some ''k'') (Some ''v'') h = (ok, ob', h')"
    by (cases "cJSON_AddStringToObject (Some empty_object) (Some ''k'') (Some ''v'') h") auto
  have "\<not> ok"
    using r by (auto simp: cJSON_AddStringToObject_def cJSON_CreateString_def create_text_def created_def
        cJSON_New_Item_def allocate_def cJSON_strdup_def add_created_def add_item_to_object_def h_def
        example_hooks_def)
  moreover have "live h' - live h = int (opt_blocks ob') - int (opt_blocks (Some empty_object)) + 0 \<and>
      (\<not> ok \<longrightarrow> ob' = Some empty_object)"
    by (rule adding_accounts [where k = "Some ''k''" and s = "Some ''v''"]) (use r in \<open>auto simp: empty_object_def\<close>)
  ultimately have "\<not> ok \<and> live h' = 0 \<and> ob' = Some empty_object" by (simp add: h_def example_hooks_def)
  then show "\<exists>ok ob' h'. cJSON_AddStringToObject (Some empty_object) (Some ''k'') (Some ''v'')
       (example_hooks\<lparr>avail := (\<lambda>n. n \<noteq> 2)\<rparr>) = (ok, ob', h') \<and> \<not> ok \<and> live h' = 0 \<and> ob' = Some empty_object"
    using r unfolding h_def by blast
next
  define h where "h = example_hooks\<lparr>avail := (\<lambda>n. n \<noteq> 1)\<rparr>"
  obtain ob' h' where r: "cJSON_AddItemReferenceToObject (Some empty_object) (Some ''k'') (Some empty_object) h = (False, ob', h')"
    by (auto simp: cJSON_AddItemReferenceToObject_def create_reference_def cJSON_New_Item_def allocate_def
        cJSON_strdup_def add_item_to_object_def h_def example_hooks_def)
  have "live h' - live h = int (opt_blocks ob') - int (opt_blocks (Some empty_object)) + 1 \<and>
      (\<not> False \<longrightarrow> ob' = Some empty_object)"
    by (rule adding_accounts [where k = "Some ''k''" and it = "Some empty_object"])
      (use r in \<open>auto simp: empty_object_def h_def example_hooks_def\<close>)
  then show "\<exists>ob' h'. cJSON_AddItemReferenceToObject (Some empty_object) (Some ''k'') (Some empty_object)
       (example_hooks\<lparr>avail := (\<lambda>n. n \<noteq> 1)\<rparr>) = (False, ob', h') \<and> live h' = 1 \<and> ob' = Some empty_object"
    using r by (auto simp: h_def example_hooks_def)
qed

text \<open>
  what has been added under a name is found under it: a lookup after a successful add
  gives what it gave before, or else, when the names agree (up to case unless the lookup is
  case sensitive), the new item with its own values and children.
\<close>

theorem added_item_found:
  assumes "add_item_to_object (Some ob) (Some k) (Some it) h cst = (True, Some ob', h')"
    and "all_named (child ob)"
  shows "\<exists>it'. get_object_item (Some ob') (Some n) cs =
      (case get_object_item (Some ob) (Some n) cs of
         Some c \<Rightarrow> Some c | None \<Rightarrow> if same_name cs n k then Some it' else None) \<and>
     child ob' = child ob @ [it'] \<and> info ob' = info ob \<and> child it' = child it \<and>
     valuestring (info it') = valuestring (info it) \<and> valueint (info it') = valueint (info it) \<and>
     valuedouble (info it') = valuedouble (info it)"
proof -
  have "\<exists>nk t. cstr nk = cstr k \<and>
      ob' = CJSON (info ob) (child ob @ [set_info (\<lambda>x. x\<lparr>jstring := Some nk, jtype := t\<rparr>) it])"
  proof (cases cst)
    case True
    then show ?thesis using assms(1)
      by (intro exI [of _ k] exI [of _ "jtype (info it) OR cJSON_StringIsConst"])
        (auto simp: add_item_to_object_def add_item_to_array_def Let_def split: option.splits prod.splits if_splits)
  next
    case False
    then show ?thesis using assms(1)
      by (intro exI [of _ "cstr k"] exI [of _ "jtype (info it) AND NOT cJSON_StringIsConst"])
        (auto simp: add_item_to_object_def add_item_to_array_def Let_def cJSON_strdup_def allocate_def
          split: option.splits prod.splits if_splits)
  qed
  then obtain nk t where nk: "cstr nk = cstr k"
    and ob': "ob' = CJSON (info ob) (child ob @ [set_info (\<lambda>x. x\<lparr>jstring := Some nk, jtype := t\<rparr>) it])"
    by blast
  define it' where "it' = set_info (\<lambda>x. x\<lparr>jstring := Some nk, jtype := t\<rparr>) it"
  have nm: "all_named (child ob')" using assms(2) by (auto simp: ob' all_named_def set_info_def)
  have "get_object_item (Some ob') (Some n) cs =
      (case get_object_item (Some ob) (Some n) cs of
         Some c \<Rightarrow> Some c | None \<Rightarrow> if same_name cs n k then Some it' else None)"
    using get_object_item_eq [of ob' cs n] get_object_item_eq [of ob cs n] nm assms(2) nk
    by (simp add: ob' find_name_append it'_def set_info_def same_name_def split: option.split)
  then show ?thesis by (intro exI [of _ it']) (simp add: ob' it'_def set_info_def)
qed

theorem added_item_found_witness:
  "\<exists>ob' h' it'. cJSON_AddItemToObject (Some empty_object) (Some ''Bias'') (Some example_tree) example_hooks =
      (True, Some ob', h') \<and> cJSON_GetObjectItem (Some ob') (Some ''bias'') = Some it' \<and> child it' = child example_tree"
proof -
  obtain ob' h' where a: "add_item_to_object (Some empty_object) (Some ''Bias'') (Some example_tree) example_hooks False =
      (True, Some ob', h')"
    by (simp add: add_item_to_object_def cJSON_strdup_def allocate_def example_hooks_def add_item_to_array_def Let_def)
  have "get_object_item (Some empty_object) (Some ''bias'') False = None"
    by (simp add: get_object_item_def empty_object_def)
  moreover have "same_name False ''bias'' ''Bias''" by (simp add: same_name_def cstr_def c_tolower_def)
  ultimately show ?thesis
    using added_item_found [OF a, of "''bias''" False] a
    by (auto simp: cJSON_AddItemToObject_def cJSON_GetObjectItem_def all_named_def empty_object_def)
qed

end
