(* ===== verification/BinLift.thy ===== *)
theory BinLift
  imports JTree JPrintApi
begin

text \<open>
  The bin-lift message of \<^verbatim>\<open>sg-comm.c\<close>: the tree \<open>assemble_binlift_message\<close> builds through
  the cJSON interface, and the text clients receive. \<open>None\<close> is a crash; a \<open>NULL\<close> message is
  \<open>Some (None, _)\<close>.
\<close>

section \<open>Model\<close>

definition delete_opt :: "CJSON option \<Rightarrow> hooks \<Rightarrow> hooks" where
  "delete_opt item h = cJSON_Delete (case item of None \<Rightarrow> [] | Some it \<Rightarrow> [it]) h"

text \<open>\<open>char esn_str[48]\<close> and the \<open>sprintf\<close> into it.\<close>

definition sprintf_esn :: "string \<Rightarrow> string option" where
  "sprintf_esn esn = (let s = ''sargas-'' @ cstr esn in if length s < 48 then Some s else None)"

definition assemble_binlift_message :: "int32 \<Rightarrow> string \<Rightarrow> hooks \<Rightarrow> (string option \<times> hooks) option" where
  "assemble_binlift_message bin_count esn h =
     (case cJSON_CreateObject h of (root, h) \<Rightarrow>
      (case cJSON_AddNumberToObject root (Some ''refid'') (dbl_of_int (sint bin_count)) h of
         None \<Rightarrow> None
       | Some (_, root, h) \<Rightarrow>
      (case sprintf_esn esn of
         None \<Rightarrow> None
       | Some esn_str \<Rightarrow>
      (case cJSON_AddStringToObject root (Some ''id'') (Some esn_str) h of (_, root, h) \<Rightarrow>
      (case cJSON_AddStringToObject root (Some ''messagetype'') (Some ''BINLIFT'') h of (_, root, h) \<Rightarrow>
      (case cJSON_CreateObject h of (lift, h) \<Rightarrow>
      (case cJSON_AddNumberToObject lift (Some ''liftid'') (dbl_of_int (sint bin_count)) h of
         None \<Rightarrow> None
       | Some (_, lift, h) \<Rightarrow>
      (case cJSON_CreateArray h of (tags, h) \<Rightarrow>
      (case cJSON_AddItemToObject lift (Some ''tags'') tags h of (_, lift, h) \<Rightarrow>
      (case cJSON_AddItemToObject root (Some ''lift'') lift h of (_, root, h) \<Rightarrow>
      (case cJSON_PrintUnformatted root h of
         PrintCrash \<Rightarrow> None
       | Text json_str h \<Rightarrow> Some (json_str, delete_opt root h))))))))))))"

section \<open>Numbers that are integers\<close>

lemma int32_exact: "\<bar>sint (w :: int32)\<bar> < 2 ^ 53" "in_int32 (sint (w :: int32))"
  using sint_range_size [of w] by (auto simp: word_size in_int32_def INT_MAX_def INT_MIN_def)

section \<open>With memory\<close>

abbreviation plenty :: "hooks \<Rightarrow> bool" where
  "plenty h \<equiv> \<forall>k. avail h k"

text \<open>The hooks after \<open>n\<close> allocations of which \<open>m\<close> blocks stay.\<close>

definition taken :: "nat \<Rightarrow> int \<Rightarrow> hooks \<Rightarrow> hooks" where
  "taken n m h = h\<lparr>calls := calls h + n, live := live h + m\<rparr>"

lemma taken_simps [simp]:
  "avail (taken n m h) = avail h" "live (taken n m h) = live h + m" "calls (taken n m h) = calls h + n"
  "taken n m (taken n' m' h) = taken (n + n') (m + m') h" "has_realloc (taken n m h) = has_realloc h"
  by (simp_all add: taken_def ac_simps)

lemma allocate_plenty: "plenty h \<Longrightarrow> allocate h = (True, taken 1 1 h)"
  by (simp add: allocate_def taken_def)

definition number_item :: "int \<Rightarrow> string \<Rightarrow> CJSON" where
  "number_item i k = CJSON (node0\<lparr>jtype := cJSON_Number, valuedouble := dbl_of_int i, valueint := i, jstring := Some k\<rparr>) []"

definition string_item :: "string \<Rightarrow> string \<Rightarrow> CJSON" where
  "string_item s k = CJSON (node0\<lparr>jtype := cJSON_String, valuestring := Some s, jstring := Some k\<rparr>) []"

lemma create_plenty:
  assumes "plenty h"
  shows "cJSON_CreateObject h = (Some (CJSON (node0\<lparr>jtype := cJSON_Object\<rparr>) []), taken 1 1 h)"
    and "cJSON_CreateArray h = (Some (CJSON (node0\<lparr>jtype := cJSON_Array\<rparr>) []), taken 1 1 h)"
  using assms by (simp_all add: cJSON_CreateObject_def cJSON_CreateArray_def created_def cJSON_New_Item_def
      allocate_plenty set_info_def)

lemma add_plenty:
  assumes "plenty h" "jstring (info it) = None"
  shows "add_item_to_object (Some ob) (Some k) (Some it) h False =
    (True, Some (CJSON (info ob) (child ob @
       [CJSON ((info it)\<lparr>jstring := Some (cstr k), jtype := jtype (info it) AND NOT cJSON_StringIsConst\<rparr>) (child it)])),
     taken 1 1 h)"
  using assms
  by (simp add: add_item_to_object_def cJSON_strdup_def allocate_plenty add_item_to_array_def set_info_def)

lemma not_const [simp]:
  "cJSON_Number AND NOT cJSON_StringIsConst = cJSON_Number"
  "cJSON_String AND NOT cJSON_StringIsConst = cJSON_String"
  "cJSON_Object AND NOT cJSON_StringIsConst = cJSON_Object"
  "cJSON_Array AND NOT cJSON_StringIsConst = cJSON_Array"
  by (simp_all add: json_types)

lemma add_number_plenty:
  assumes "plenty h" "in_int32 i"
  shows "cJSON_AddNumberToObject (Some ob) (Some k) (dbl_of_int i) h =
    Some (True, Some (CJSON (info ob) (child ob @ [number_item i (cstr k)])), taken 2 2 h)"
  using assms
  by (simp add: cJSON_AddNumberToObject_def cJSON_CreateNumber_def cJSON_New_Item_def allocate_plenty
      saturate_int set_info_def add_created_def add_plenty number_item_def node0_def
      numeral_2_eq_2)

lemma add_string_plenty:
  assumes "plenty h"
  shows "cJSON_AddStringToObject (Some ob) (Some k) (Some s) h =
    (True, Some (CJSON (info ob) (child ob @ [string_item (cstr s) (cstr k)])), taken 3 3 h)"
  using assms
  by (simp add: cJSON_AddStringToObject_def cJSON_CreateString_def create_text_def created_def
      cJSON_New_Item_def allocate_plenty cJSON_strdup_def set_info_def add_created_def add_plenty
      string_item_def node0_def numeral_3_eq_3)

lemma add_item_plenty:
  assumes "plenty h" "jstring (info it) = None"
  shows "cJSON_AddItemToObject (Some ob) (Some k) (Some it) h =
    (True, Some (CJSON (info ob) (child ob @
       [CJSON ((info it)\<lparr>jstring := Some (cstr k), jtype := jtype (info it) AND NOT cJSON_StringIsConst\<rparr>) (child it)])),
     taken 1 1 h)"
  using add_plenty [OF assms] by (simp add: cJSON_AddItemToObject_def)

section \<open>The text\<close>

definition lift_tree :: "int \<Rightarrow> string \<Rightarrow> CJSON" where
  "lift_tree i esn = CJSON (node0\<lparr>jtype := cJSON_Object\<rparr>)
     [number_item i ''refid'', string_item (''sargas-'' @ esn) ''id'',
      string_item ''BINLIFT'' ''messagetype'',
      CJSON (node0\<lparr>jtype := cJSON_Object, jstring := Some ''lift''\<rparr>)
        [number_item i ''liftid'', CJSON (node0\<lparr>jtype := cJSON_Array, jstring := Some ''tags''\<rparr>) []]]"

definition binlift_text :: "int \<Rightarrow> string \<Rightarrow> string" where
  "binlift_text i esn = ''{\"refid\":'' @ show_int i @ '',\"id\":\"sargas-'' @ escape esn @
     ''\",\"messagetype\":\"BINLIFT\",\"lift\":{\"liftid\":'' @ show_int i @ '',\"tags\":[]}}''"

lemma escape_append: "escape (s @ t) = escape s @ escape t"
  by (simp add: escape_def)

lemma quoted_plain:
  "no_nul s \<Longrightarrow> quoted (Some s) = CHR 0x22 # escape s @ [CHR 0x22]"
  by (simp add: quoted_def)

lemma escape_words:
  "escape ''refid'' = ''refid''" "escape ''id'' = ''id''" "escape ''messagetype'' = ''messagetype''"
  "escape ''BINLIFT'' = ''BINLIFT''" "escape ''lift'' = ''lift''" "escape ''liftid'' = ''liftid''"
  "escape ''tags'' = ''tags''" "escape ''sargas-'' = ''sargas-''"
  by code_simp+

lemma escape_sargas: "escape (''sargas-'' @ esn) = ''sargas-'' @ escape esn"
  using escape_append [of "''sargas-''" esn] unfolding escape_words .

lemma render_lift_tree:
  assumes "in_int32 i" "no_nul esn"
  shows "render False 0 (lift_tree i esn) = Some (binlift_text i esn)"
  using number_text_int [OF assms(1)] assms(2)
  by (simp add: lift_tree_def number_item_def string_item_def node0_def render.simps render_elems.simps
      render_members.simps json_types Let_def quoted_plain escape_words escape_sargas [simplified]
      key_sep_def member_sep_def binlift_text_def)

lemma cstr_words:
  "cstr ''refid'' = ''refid''" "cstr ''id'' = ''id''" "cstr ''messagetype'' = ''messagetype''"
  "cstr ''BINLIFT'' = ''BINLIFT''" "cstr ''lift'' = ''lift''" "cstr ''liftid'' = ''liftid''"
  "cstr ''tags'' = ''tags''"
  by (simp_all add: cstr_def)

lemma build_lift_tree:
  assumes "plenty h" "length (cstr esn) \<le> 40"
  shows "assemble_binlift_message bc esn h =
      (case cJSON_PrintUnformatted (Some (lift_tree (sint bc) (cstr esn))) (taken 15 15 h) of
         PrintCrash \<Rightarrow> None
       | Text json_str h2 \<Rightarrow> Some (json_str, delete_opt (Some (lift_tree (sint bc) (cstr esn))) h2))"
proof -
  define s where "s = ''sargas-'' @ cstr esn"
  have e: "sprintf_esn esn = Some s" using assms(2) by (simp add: sprintf_esn_def s_def Let_def)
  have c: "cstr s = s" unfolding s_def by (rule cstr_id) simp
  have tree: "lift_tree (sint bc) (cstr esn) = CJSON (node0\<lparr>jtype := cJSON_Object\<rparr>)
     [number_item (sint bc) ''refid'', string_item s ''id'', string_item ''BINLIFT'' ''messagetype'',
      CJSON (node0\<lparr>jtype := cJSON_Object, jstring := Some ''lift''\<rparr>)
        [number_item (sint bc) ''liftid'', CJSON (node0\<lparr>jtype := cJSON_Array, jstring := Some ''tags''\<rparr>) []]]"
    by (simp add: lift_tree_def s_def)
  show ?thesis
    using assms(1) unfolding tree
    by (simp add: assemble_binlift_message_def create_plenty add_number_plenty add_string_plenty
        int32_exact(2) e c add_item_plenty cstr_words [simplified] node0_def split: print_res.split)
qed

lemma blocks_lift_tree: "blocks (lift_tree i esn) = 15"
  by (simp add: lift_tree_def number_item_def string_item_def node_blocks_def node0_def is_reference_def
      has_const_key_def json_types)

lemma valid_lift_tree: "in_int32 i \<Longrightarrow> valid_json (lift_tree i esn)"
proof -
  assume i: "in_int32 i"
  then have "\<bar>i\<bar> < 2 ^ 53" by (auto simp: in_int32_def INT_MAX_def INT_MIN_def)
  then show ?thesis
    using i by (simp add: lift_tree_def number_item_def string_item_def valid_json.simps node0_def
        valid_dbl_int dzero_def in_int32_def INT_MAX_def INT_MIN_def)
qed

lemma length_escape_le: "length (escape s) \<le> 6 * length s"
proof -
  have "sum_list (map esc_extra s) \<le> 5 * length s"
    by (induction s) (auto simp: esc_extra_def)
  then show ?thesis by (simp add: length_escape)
qed

lemma assemble_binlift:
  assumes mem: "plenty h" and esn: "length (cstr esn) \<le> 40"
  shows "\<exists>out h'. assemble_binlift_message bc esn h = Some (Some out, h') \<and>
     cstr out = binlift_text (sint bc) (cstr esn) \<and>
     live h' = live h + 1"
proof -
  let ?t = "lift_tree (sint bc) (cstr esn)" and ?s = "binlift_text (sint bc) (cstr esn)"
  have r: "render False 0 ?t = Some ?s" by (simp add: render_lift_tree int32_exact)
  have s: "no_nul ?s" by (rule no_nul_render [OF valid_lift_tree [OF int32_exact(2)] r])
  have "length ?s < 400"
    using length_show_int [OF int32_exact(2), of bc] length_escape_le [of "cstr esn"] esn
    by (simp add: binlift_text_def)
  then have "print_fits False ?t (taken 15 15 h)" using mem r by (simp add: print_fits_def INT_MAX_def)
  moreover have "print_outcome False ?t (taken 15 15 h) (cJSON_PrintUnformatted (Some ?t) (taken 15 15 h))"
    unfolding cJSON_PrintUnformatted_def by (rule print_text) (rule valid_lift_tree [OF int32_exact(2)])
  ultimately obtain out h2 where p: "cJSON_PrintUnformatted (Some ?t) (taken 15 15 h) = Text (Some out) h2"
    "take (length ?s + 1) out = ?s @ [NUL]" "live h2 = live h + 16"
    using r by (auto simp: print_outcome_def split: print_res.splits option.splits)
  have "out = ?s @ NUL # drop (length ?s + 1) out"
    using append_take_drop_id [of "length ?s + 1" out] unfolding p(2) by simp
  then have "cstr out = ?s" using cstr_no_nul [OF s] by metis
  then show ?thesis
    using p(1,3) by (simp add: build_lift_tree [OF mem esn] delete_opt_def blocks_list_def blocks_lift_tree)
qed

text \<open>
  C28: the message clients get for a bin lift: with memory available and a serial number of at
  most 40 characters it is exactly this text, the count appearing twice and the serial number
  escaped; the block of the message is the only one left.
\<close>

theorem binlift_message_text:
  assumes mem: "plenty h" and esn: "length (cstr esn) \<le> 40"
  shows "\<exists>out h'. assemble_binlift_message bc esn h = Some (Some out, h') \<and>
     cstr out = ''{\"refid\":'' @ show_int (sint bc) @ '',\"id\":\"sargas-'' @ escape (cstr esn) @
       ''\",\"messagetype\":\"BINLIFT\",\"lift\":{\"liftid\":'' @ show_int (sint bc) @ '',\"tags\":[]}}'' \<and>
     live h' = live h + 1"
  using assemble_binlift [OF assms] by (simp add: binlift_text_def)

theorem binlift_message_text_witness:
  "\<exists>out h'. assemble_binlift_message 5 ''46'' example_hooks = Some (Some out, h') \<and>
     cstr out = ''{\"refid\":5,\"id\":\"sargas-46\",\"messagetype\":\"BINLIFT\",\"lift\":{\"liftid\":5,\"tags\":[]}}''"
proof -
  have e: "escape (cstr ''46'') = ''46''" by code_simp
  have n: "show_int (sint (5 :: int32)) = ''5''" by code_simp
  have "plenty example_hooks" "length (cstr ''46'') \<le> 40" by (simp_all add: example_hooks_def cstr_def)
  from binlift_message_text [OF this, of 5] show ?thesis unfolding e n by auto
qed

section \<open>Without memory\<close>

text \<open>Whatever fails, the trees stay well formed, and the printer never faults on them.\<close>

definition opt_valid :: "CJSON option \<Rightarrow> bool" where
  "opt_valid ob \<longleftrightarrow> (case ob of None \<Rightarrow> True | Some it \<Rightarrow> valid_json it)"

lemma opt_valid_simps [simp]: "opt_valid None" "opt_valid (Some it) = valid_json it"
  by (simp_all add: opt_valid_def)

lemma valid_children:
  "valid_json (CJSON (n\<lparr>jstring := k, jtype := t\<rparr>) ch) = valid_json (CJSON n ch)"
  "valid_json (CJSON (info it) (child it @ cs)) \<longleftrightarrow> valid_json it \<and> (\<forall>c \<in> set cs. valid_json c)"
  by (auto simp: valid_json.simps) (cases it, auto simp: valid_json.simps)+

lemma add_item_valid:
  "opt_valid ob \<Longrightarrow> opt_valid item \<Longrightarrow> opt_valid (fst (snd (add_item_to_object ob key item h c)))"
  by (cases item)
    (auto simp: add_item_to_object_def add_item_to_array_def Let_def set_info_def valid_children
      split: option.split prod.split)

lemma add_created_valid:
  "opt_valid ob \<Longrightarrow> opt_valid (fst c) \<Longrightarrow> opt_valid (fst (snd (add_created ob key c)))"
  using add_item_valid [of ob "fst c" key "snd c" False]
  by (auto simp: add_created_def split: prod.split bool.split)

lemma created_valid:
  assumes "\<And>x. valuedouble (f x) = valuedouble x \<and> valueint (f x) = valueint x"
  shows "opt_valid (fst (created f h))"
  using assms [of node0]
  by (auto simp: created_def cJSON_New_Item_def set_info_def valid_json.simps node0_def dzero_def
      in_int32_def INT_MAX_def INT_MIN_def split: prod.split bool.split)

lemma create_valid:
  "opt_valid (fst (cJSON_CreateObject h))" "opt_valid (fst (cJSON_CreateArray h))"
  by (simp_all add: cJSON_CreateObject_def cJSON_CreateArray_def created_valid)

lemma create_string_valid: "opt_valid (fst (cJSON_CreateString s h))"
  using created_cases [of "\<lambda>x. x\<lparr>jtype := cJSON_String\<rparr>" h]
  by (auto simp: cJSON_CreateString_def create_text_def set_info_def valid_json.simps node0_def dzero_def
      in_int32_def INT_MAX_def INT_MIN_def split: prod.split option.split)

lemma add_number_valid:
  assumes "opt_valid ob" "in_int32 i"
  shows "\<exists>ok ob' h'. cJSON_AddNumberToObject ob key (dbl_of_int i) h = Some (ok, ob', h') \<and> opt_valid ob'"
proof -
  have i: "\<bar>i\<bar> < 2 ^ 53" using assms(2) by (auto simp: in_int32_def INT_MAX_def INT_MIN_def)
  have "\<exists>c. cJSON_CreateNumber (dbl_of_int i) h = Some c \<and> opt_valid (fst c)"
    using assms(2) valid_dbl_int [OF i]
    by (cases "avail h (calls h)")
      (simp_all add: cJSON_CreateNumber_def cJSON_New_Item_def allocate_def saturate_int set_info_def valid_json.simps)
  then obtain c where "cJSON_CreateNumber (dbl_of_int i) h = Some c" "opt_valid (fst c)" by blast
  then show ?thesis
    using add_created_valid [OF assms(1), of c key]
    by (cases "add_created ob key c") (auto simp: cJSON_AddNumberToObject_def)
qed

lemma add_string_valid:
  "opt_valid ob \<Longrightarrow> opt_valid (fst (snd (cJSON_AddStringToObject ob key s h)))"
  by (simp add: cJSON_AddStringToObject_def add_created_valid create_string_valid)

lemma print_json_total:
  assumes "opt_valid ob"
  shows "\<exists>t h'. print_json ob fmt h = Text t h'"
proof (cases ob)
  case None
  then show ?thesis
    by (auto simp: print_json_def print_failed_def split: prod.split bool.split option.split)
next
  case (Some it)
  then have "print_outcome fmt it h (print_json ob fmt h)" using assms by (simp add: print_text)
  then show ?thesis by (cases "print_json ob fmt h") (auto simp: print_outcome_def)
qed

lemma print_valid: "opt_valid ob \<Longrightarrow> \<exists>t h'. cJSON_PrintUnformatted ob h = Text t h'"
  by (simp add: cJSON_PrintUnformatted_def print_json_total)

lemma assemble_total:
  assumes "length (cstr esn) \<le> 40"
  shows "\<exists>m h'. assemble_binlift_message bc esn h = Some (m, h')"
proof -
  let ?n = "dbl_of_int (sint bc)"
  note i = int32_exact(2) [of bc]
  obtain root h1 where 1: "cJSON_CreateObject h = (root, h1)" "opt_valid root"
    using create_valid(1) [of h] by (cases "cJSON_CreateObject h") auto
  obtain ok2 root2 h2 where 2: "cJSON_AddNumberToObject root (Some ''refid'') ?n h1 = Some (ok2, root2, h2)"
    "opt_valid root2" using add_number_valid [OF 1(2) i] by blast
  define s where "s = ''sargas-'' @ cstr esn"
  have s: "sprintf_esn esn = Some s" using assms by (simp add: sprintf_esn_def s_def Let_def)
  obtain ok3 root3 h3 where 3: "cJSON_AddStringToObject root2 (Some ''id'') (Some s) h2 = (ok3, root3, h3)"
    "opt_valid root3"
    using add_string_valid [OF 2(2), of "Some ''id''" "Some s" h2]
    by (cases "cJSON_AddStringToObject root2 (Some ''id'') (Some s) h2") auto
  obtain ok4 root4 h4 where 4: "cJSON_AddStringToObject root3 (Some ''messagetype'') (Some ''BINLIFT'') h3 = (ok4, root4, h4)"
    "opt_valid root4"
    using add_string_valid [OF 3(2), of "Some ''messagetype''" "Some ''BINLIFT''" h3]
    by (cases "cJSON_AddStringToObject root3 (Some ''messagetype'') (Some ''BINLIFT'') h3") auto
  obtain lift h5 where 5: "cJSON_CreateObject h4 = (lift, h5)" "opt_valid lift"
    using create_valid(1) [of h4] by (cases "cJSON_CreateObject h4") auto
  obtain ok6 lift6 h6 where 6: "cJSON_AddNumberToObject lift (Some ''liftid'') ?n h5 = Some (ok6, lift6, h6)"
    "opt_valid lift6" using add_number_valid [OF 5(2) i] by blast
  obtain tags h7 where 7: "cJSON_CreateArray h6 = (tags, h7)" "opt_valid tags"
    using create_valid(2) [of h6] by (cases "cJSON_CreateArray h6") auto
  obtain ok8 lift8 h8 where 8: "cJSON_AddItemToObject lift6 (Some ''tags'') tags h7 = (ok8, lift8, h8)"
    "opt_valid lift8"
    using add_item_valid [OF 6(2) 7(2), of "Some ''tags''" h7 False]
    by (cases "cJSON_AddItemToObject lift6 (Some ''tags'') tags h7") (auto simp: cJSON_AddItemToObject_def)
  obtain ok9 root9 h9 where 9: "cJSON_AddItemToObject root4 (Some ''lift'') lift8 h8 = (ok9, root9, h9)"
    "opt_valid root9"
    using add_item_valid [OF 4(2) 8(2), of "Some ''lift''" h8 False]
    by (cases "cJSON_AddItemToObject root4 (Some ''lift'') lift8 h8") (auto simp: cJSON_AddItemToObject_def)
  obtain t h10 where 10: "cJSON_PrintUnformatted root9 h9 = Text t h10" using print_valid [OF 9(2)] by blast
  show ?thesis
    unfolding assemble_binlift_message_def 1(1) prod.case 2(1) option.case s 3(1) 4(1) 5(1) 6(1) 7(1) 8(1) 9(1) 10
      print_res.case by blast
qed

end
