(* ===== verification/Storage.thy ===== *)
theory Storage
  imports Prelude "HOL-Library.Sublist"
begin

text \<open>
  The files of \<^verbatim>\<open>main.c\<close>: the stdio calls the program makes, over a file system whose
  every call may fail, the bin count's file, the serial number's file, the configuration
  file. A stream keeps the bytes it has not read yet and the bytes it has buffered and not
  stored; every stream that is written is written from the start of its file. The target
  stores an \<open>int\<close> in four bytes, least significant first.
\<close>

section \<open>Files\<close>

text \<open>
  The \<open>k\<close>-th library call does what it is asked when \<open>io k = None\<close>, and fails after at most
  \<open>n\<close> bytes when \<open>io k = Some n\<close>.
\<close>

record filesys =
  files :: "string \<Rightarrow> string option"
  io :: "nat \<Rightarrow> nat option"
  io_calls :: nat

record stream =
  f_name :: string
  f_rest :: string
  f_out :: string

definition tick :: "filesys \<Rightarrow> nat option \<times> filesys" where
  "tick s = (io s (io_calls s), s\<lparr>io_calls := io_calls s + 1\<rparr>)"

text \<open>\<open>fopen\<close> of an existing file (\<^verbatim>\<open>"r"\<close>, \<^verbatim>\<open>"rb"\<close>, \<^verbatim>\<open>"rb+"\<close>), and of a new or emptied one.\<close>

definition f_open :: "string \<Rightarrow> filesys \<Rightarrow> stream option \<times> filesys" where
  "f_open name s =
     (case tick s of
        (Some _, s) \<Rightarrow> (None, s)
      | (None, s) \<Rightarrow>
          (case files s name of
             None \<Rightarrow> (None, s)
           | Some d \<Rightarrow> (Some \<lparr>f_name = name, f_rest = d, f_out = []\<rparr>, s)))"

definition f_create :: "string \<Rightarrow> filesys \<Rightarrow> stream option \<times> filesys" where
  "f_create name s =
     (case tick s of
        (Some _, s) \<Rightarrow> (None, s)
      | (None, s) \<Rightarrow> (Some \<lparr>f_name = name, f_rest = [], f_out = []\<rparr>, s\<lparr>files := (files s)(name \<mapsto> [])\<rparr>))"

text \<open>\<open>fseek\<close> to the start, \<open>fwrite\<close> into the buffer, \<open>fread\<close>; \<open>fread\<close> also gives \<open>ferror\<close>.\<close>

definition f_rewind :: "filesys \<Rightarrow> bool \<times> filesys" where
  "f_rewind s = (case tick s of (r, s) \<Rightarrow> (r = None, s))"

definition f_write :: "string \<Rightarrow> stream \<Rightarrow> filesys \<Rightarrow> nat \<times> stream \<times> filesys" where
  "f_write d fp s =
     (case tick s of (r, s) \<Rightarrow>
        let n = (case r of None \<Rightarrow> length d | Some k \<Rightarrow> min k (length d - 1))
        in (n, fp\<lparr>f_out := f_out fp @ take n d\<rparr>, s))"

definition f_read :: "nat \<Rightarrow> stream \<Rightarrow> filesys \<Rightarrow> string \<times> bool \<times> stream \<times> filesys" where
  "f_read n fp s =
     (case tick s of (r, s) \<Rightarrow>
        let m = (case r of None \<Rightarrow> n | Some k \<Rightarrow> min k n)
        in (take m (f_rest fp), r \<noteq> None, fp\<lparr>f_rest := drop m (f_rest fp)\<rparr>, s))"

text \<open>\<open>fclose\<close> stores what is buffered, or as much as it can; no caller looks at its result.\<close>

definition f_close :: "stream \<Rightarrow> filesys \<Rightarrow> filesys" where
  "f_close fp s =
     (case tick s of (r, s) \<Rightarrow>
        let d = (case r of None \<Rightarrow> f_out fp | Some k \<Rightarrow> take k (f_out fp))
        in s\<lparr>files := (files s)(f_name fp := map_option (\<lambda>old. d @ drop (length d) old) (files s (f_name fp)))\<rparr>)"

section \<open>The bin count\<close>

definition int_bytes :: "int32 \<Rightarrow> string" where
  "int_bytes v = map (\<lambda>i. char_of (unat v div 256 ^ i)) [0..<4]"

fun bytes_nat :: "string \<Rightarrow> nat" where
  "bytes_nat [] = 0"
| "bytes_nat (c # cs) = byte c + 256 * bytes_nat cs"

definition bytes_int :: "string \<Rightarrow> int32" where
  "bytes_int cs = of_nat (bytes_nat cs)"

definition write_value :: "stream \<Rightarrow> int32 \<Rightarrow> filesys \<Rightarrow> bool \<times> filesys" where
  "write_value fp v s =
     (case f_rewind s of
        (False, s) \<Rightarrow> (False, f_close fp s)
      | (True, s) \<Rightarrow>
          (case f_write (int_bytes v) fp s of
             (n, fp, s) \<Rightarrow> if n < 4 then (False, f_close fp s) else (True, f_close fp s)))"

definition write_bincount_to_file :: "string \<Rightarrow> int32 \<Rightarrow> filesys \<Rightarrow> bool \<times> filesys" where
  "write_bincount_to_file name v s =
     (case f_open name s of
        (Some fp, s) \<Rightarrow> write_value fp v s
      | (None, s) \<Rightarrow>
          (case f_create name s of
             (None, s) \<Rightarrow> (False, s)
           | (Some fp, s) \<Rightarrow> write_value fp v s))"

text \<open>A short \<open>fread\<close> has already overwritten the first bytes of \<open>*value\<close>.\<close>

definition read_bincount_from_file :: "string \<Rightarrow> int32 \<Rightarrow> filesys \<Rightarrow> bool \<times> int32 \<times> filesys" where
  "read_bincount_from_file name v s =
     (case f_open name s of
        (None, s) \<Rightarrow> (False, v, s)
      | (Some fp, s) \<Rightarrow>
          (case f_read 4 fp s of
             (d, _, fp, s) \<Rightarrow>
               let v' = bytes_int (d @ drop (length d) (int_bytes v))
               in if length d < 4 then (False, v', f_close fp s) else (True, v', f_close fp s)))"

section \<open>The serial number\<close>

text \<open>What \<open>fgets\<close> gives with room for \<open>n\<close> characters, and the string functions.\<close>

definition next_line :: "nat \<Rightarrow> string \<Rightarrow> string" where
  "next_line n d =
     (let l = takeWhile (\<lambda>c. c \<noteq> CHR 0x0A) (take n d)
      in if length l < length (take n d) then l @ [CHR 0x0A] else l)"

fun strstr :: "string \<Rightarrow> string \<Rightarrow> bool" where
  "strstr [] t \<longleftrightarrow> t = []"
| "strstr (c # s) t \<longleftrightarrow> take (length t) (c # s) = t \<or> strstr s t"

definition strchr :: "string \<Rightarrow> char \<Rightarrow> string option" where
  "strchr s c = (case dropWhile (\<lambda>d. d \<noteq> c) s of [] \<Rightarrow> None | r \<Rightarrow> Some r)"

definition QUOTE :: char where "QUOTE = CHR 0x27"

definition esn_of_line :: "string \<Rightarrow> string option" where
  "esn_of_line line =
     (if strstr (cstr line) ''option esn'' then
        (case strchr (cstr line) QUOTE of
           None \<Rightarrow> None
         | Some p \<Rightarrow>
             (case strchr (tl p) QUOTE of
                None \<Rightarrow> None
              | Some e \<Rightarrow> Some (take (length (tl p) - length e) (tl p))))
      else None)"

text \<open>\<open>strncpy\<close> of \<open>len\<close> characters and the NUL behind them, into the caller's array.\<close>

definition put_esn :: "string \<Rightarrow> nat \<Rightarrow> string \<Rightarrow> string" where
  "put_esn esn esn_size v =
     (let len = (if esn_size \<le> length v then esn_size - 1 else length v)
      in take len v @ [NUL] @ drop (len + 1) esn)"

lemma length_next_line: "d \<noteq> [] \<Longrightarrow> 0 < n \<Longrightarrow> 0 < length (next_line n d)"
  by (cases d; cases n) (auto simp: next_line_def Let_def)

function esn_loop :: "stream \<Rightarrow> string \<Rightarrow> nat \<Rightarrow> filesys \<Rightarrow> int \<times> string \<times> filesys" where
  "esn_loop fp esn esn_size s =
     (case tick s of
        (Some _, s) \<Rightarrow> (-2, esn, f_close fp s)
      | (None, s) \<Rightarrow>
          if f_rest fp = [] then (-2, esn, f_close fp s)
          else let line = next_line 255 (f_rest fp);
                   fp1 = fp\<lparr>f_rest := drop (length line) (f_rest fp)\<rparr>
               in (case esn_of_line line of
                     Some v \<Rightarrow> (0, put_esn esn esn_size v, f_close fp1 s)
                   | None \<Rightarrow> esn_loop fp1 esn esn_size s))"
  by pat_completeness auto
termination
  by (relation "measure (\<lambda>(fp, _, _, _). length (f_rest fp))") (auto intro!: diff_less dest: length_next_line [of _ 255])

declare esn_loop.simps [simp del]

text \<open>The array has \<open>esn_size\<close> bytes, at least one.\<close>

definition read_esn_from_file :: "string \<Rightarrow> string \<Rightarrow> nat \<Rightarrow> filesys \<Rightarrow> int \<times> string \<times> filesys" where
  "read_esn_from_file name esn esn_size s =
     (case f_open name s of
        (None, s) \<Rightarrow> (-1, esn, s)
      | (Some fp, s) \<Rightarrow> esn_loop fp esn esn_size s)"

section \<open>The configuration file\<close>

text \<open>\<open>stat\<close>, then \<open>fread\<close> of that many bytes; the result is the status and the buffer.\<close>

definition f_stat :: "string \<Rightarrow> filesys \<Rightarrow> nat option \<times> filesys" where
  "f_stat name s =
     (case tick s of (r, s) \<Rightarrow> (if r = None then map_option length (files s name) else None, s))"

definition read_json_from_file ::
    "string option \<Rightarrow> string option \<Rightarrow> nat \<Rightarrow> filesys \<Rightarrow> int \<times> string option \<times> filesys" where
  "read_json_from_file filename buffer buffer_size s =
     (case (filename, buffer) of
        (Some name, Some b) \<Rightarrow>
          if buffer_size = 0 then (0, buffer, s)
          else (case f_stat name s of
            (None, s) \<Rightarrow> (0, buffer, s)
          | (Some sz, s) \<Rightarrow>
              if buffer_size \<le> sz then (0, buffer, s)
              else (case f_open name s of
                (None, s) \<Rightarrow> (0, buffer, s)
              | (Some fp, s) \<Rightarrow>
                  (case f_read sz fp s of
                     (d, err, fp, s) \<Rightarrow>
                       if length d < sz \<and> err then (0, Some (d @ drop (length d) b), f_close fp s)
                       else (1, Some (d @ [NUL] @ drop (length d + 1) b), f_close fp s))))
      | _ \<Rightarrow> (0, buffer, s))"

definition write_json_to_file :: "string option \<Rightarrow> string option \<Rightarrow> filesys \<Rightarrow> int \<times> filesys" where
  "write_json_to_file filename json_str s =
     (case (filename, json_str) of
        (Some name, Some j) \<Rightarrow>
          (case f_create name s of
             (None, s) \<Rightarrow> (-1, s)
           | (Some fp, s) \<Rightarrow>
               (case f_write (cstr j) fp s of
                  (n, fp, s) \<Rightarrow>
                    if n < length (cstr j) then (-1, f_close fp s) else (0, f_close fp s)))
      | _ \<Rightarrow> (-1, s))"

section \<open>Working storage\<close>

definition works :: "filesys \<Rightarrow> bool" where
  "works s \<longleftrightarrow> (\<forall>k \<ge> io_calls s. io s k = None)"

lemma tick_works: "works s \<Longrightarrow> tick s = (None, s\<lparr>io_calls := io_calls s + 1\<rparr>)"
  by (simp add: works_def tick_def)

lemma works_next [simp]: "works s \<Longrightarrow> io_calls s \<le> n \<Longrightarrow> works (s\<lparr>io_calls := n\<rparr>)"
  "works (s\<lparr>files := m\<rparr>) = works s"
  by (simp_all add: works_def)

lemma byte_char_of [simp]: "byte (char_of n) = n mod 256"
  by (simp add: of_char_of)

lemma length_int_bytes [simp]: "length (int_bytes v) = 4"
  by (simp add: int_bytes_def)

lemma bytes_nat_upt: "bytes_nat (map (\<lambda>i. char_of (n div 256 ^ i)) [0..<k]) = n mod 256 ^ k"
proof (induction k arbitrary: n)
  case (Suc k)
  have "map (\<lambda>i. char_of (n div 256 ^ i)) [0..<Suc k] =
      char_of n # map (\<lambda>i. char_of (n div 256 div 256 ^ i) :: char) [0..<k]"
    by (simp add: map_upt_Suc div_mult2_eq del: upt_Suc)
  then show ?case using Suc [of "n div 256"] by (simp add: mod_mult2_eq del: upt_Suc)
qed simp

lemma bytes_int_bytes [simp]: "bytes_int (int_bytes v) = v"
  using unsigned_less [of v, where 'a = nat]
  by (simp add: bytes_int_def int_bytes_def bytes_nat_upt del: upt_Suc)

text \<open>Closing, in a working system and in any other.\<close>

lemma f_close_simps [simp]:
  "io (f_close fp s) = io s"
  "io_calls (f_close fp s) = io_calls s + 1"
  "n \<noteq> f_name fp \<Longrightarrow> files (f_close fp s) n = files s n"
  by (simp_all add: f_close_def tick_def Let_def)

lemma works_close [simp]: "works s \<Longrightarrow> works (f_close fp s)"
  by (simp add: works_def)

lemma f_close_works:
  "works s \<Longrightarrow> files (f_close fp s) (f_name fp) =
     map_option (\<lambda>old. f_out fp @ drop (length (f_out fp)) old) (files s (f_name fp))"
  by (simp add: f_close_def tick_works Let_def)

lemma f_close_any:
  "\<exists>k. files (f_close fp s) (f_name fp) =
     map_option (\<lambda>old. take k (f_out fp) @ drop (length (take k (f_out fp))) old) (files s (f_name fp))"
proof (cases "io s (io_calls s)")
  case None
  then show ?thesis by (intro exI [of _ "length (f_out fp)"]) (simp add: f_close_def tick_def Let_def)
next
  case (Some k)
  then show ?thesis by (intro exI [of _ k]) (simp add: f_close_def tick_def Let_def)
qed

section \<open>What is stored\<close>

text \<open>The first four bytes of the count's file.\<close>

definition stored_count :: "string \<Rightarrow> filesys \<Rightarrow> int32 option" where
  "stored_count name s =
     (case files s name of
        None \<Rightarrow> None
      | Some d \<Rightarrow> if length d < 4 then None else Some (bytes_int (take 4 d)))"

lemma write_value_works:
  assumes s: "works s" and d: "files s (f_name fp) = Some d" and o: "f_out fp = []"
  shows "\<exists>s'. write_value fp v s = (True, s') \<and> works s' \<and> stored_count (f_name fp) s' = Some v"
proof -
  define s2 where "s2 = s\<lparr>io_calls := io_calls s + 2\<rparr>"
  define fp2 where "fp2 = fp\<lparr>f_out := int_bytes v\<rparr>"
  have s2: "works s2" using s by (simp add: s2_def)
  have "write_value fp v s = (True, f_close fp2 s2)"
    using s o by (simp add: write_value_def f_rewind_def tick_works f_write_def Let_def s2_def fp2_def)
  moreover have "files (f_close fp2 s2) (f_name fp) = Some (int_bytes v @ drop 4 d)"
    using f_close_works [OF s2, of fp2] d by (simp add: s2_def fp2_def)
  ultimately show ?thesis using s2 by (simp add: stored_count_def)
qed

lemma write_bincount_works:
  assumes "works s"
  shows "\<exists>s'. write_bincount_to_file name v s = (True, s') \<and> works s' \<and> stored_count name s' = Some v"
proof (cases "files s name")
  case None
  then show ?thesis
    using assms write_value_works
      [of "s\<lparr>io_calls := io_calls s + 2, files := (files s)(name \<mapsto> [])\<rparr>" "\<lparr>f_name = name, f_rest = [], f_out = []\<rparr>" "[]" v]
    by (simp add: write_bincount_to_file_def f_open_def f_create_def tick_works)
next
  case (Some d)
  then show ?thesis
    using assms write_value_works [of "s\<lparr>io_calls := io_calls s + 1\<rparr>" "\<lparr>f_name = name, f_rest = d, f_out = []\<rparr>" d v]
    by (simp add: write_bincount_to_file_def f_open_def tick_works)
qed

lemma read_bincount_works:
  assumes "works s"
  shows "\<exists>ok v' s'. read_bincount_from_file name v s = (ok, v', s') \<and> works s' \<and>
     stored_count name s' = stored_count name s \<and>
     (case stored_count name s of None \<Rightarrow> \<not> ok | Some w \<Rightarrow> ok \<and> v' = w)"
proof (cases "files s name")
  case None
  then show ?thesis
    using assms by (simp add: read_bincount_from_file_def f_open_def tick_works stored_count_def exI [of _ False])
next
  case (Some d)
  define fp where "fp = \<lparr>f_name = name, f_rest = drop 4 d, f_out = []\<rparr>"
  define s2 where "s2 = s\<lparr>io_calls := io_calls s + 2\<rparr>"
  have s2: "works s2" using assms by (simp add: s2_def)
  have f: "files (f_close fp s2) name = Some d"
    using f_close_works [OF s2, of fp] Some by (simp add: s2_def fp_def)
  have "read_bincount_from_file name v s = (let v' = bytes_int (take 4 d @ drop (length (take 4 d)) (int_bytes v))
      in (4 \<le> length d, v', f_close fp s2))"
    using Some assms
    by (simp add: read_bincount_from_file_def f_open_def tick_works f_read_def Let_def s2_def fp_def min_def)
  then show ?thesis
    using Some f s2 by (simp add: Let_def stored_count_def min_def)
qed

section \<open>A store for a count\<close>

text \<open>
  What the rest of the program relies on: a count that has been saved is the one that is
  loaded, whatever happens in between.
\<close>

locale counter_store =
  fixes save :: "'v \<Rightarrow> 's \<Rightarrow> bool \<times> 's"
    and load :: "'v \<Rightarrow> 's \<Rightarrow> bool \<times> 'v \<times> 's"
    and good :: "'s \<Rightarrow> bool"
    and stored :: "'s \<Rightarrow> 'v option"
  assumes save_law: "good s \<Longrightarrow> fst (save v s) \<and> good (snd (save v s)) \<and> stored (snd (save v s)) = Some v"
    and load_law: "good s \<Longrightarrow> good (snd (snd (load v s))) \<and> stored (snd (snd (load v s))) = stored s \<and>
      (case stored s of None \<Rightarrow> \<not> fst (load v s) | Some w \<Rightarrow> fst (load v s) \<and> fst (snd (load v s)) = w)"
begin

lemma save_load:
  assumes "good s"
  shows "load w (snd (save v s)) = (True, v, snd (snd (load w (snd (save v s)))))"
  using save_law [OF assms, of v] load_law [of "snd (save v s)" w] by (simp add: prod_eq_iff)

lemma save_then:
  assumes "good s" "save v s = (b, s')"
  shows "b \<and> good s' \<and> stored s' = Some v"
  using save_law [OF assms(1), of v] assms(2) by simp

lemma load_then:
  assumes "good s" "stored s = Some w" "load v s = (b, v', s')"
  shows "b \<and> v' = w \<and> good s' \<and> stored s' = Some w"
  using load_law [OF assms(1), of v] assms(2,3) by simp

lemma load_first:
  assumes "good s" "stored s = None" "load v s = (b, v', s')"
  shows "\<not> b \<and> good s'"
  using load_law [OF assms(1), of v] assms(2,3) by simp

end

interpretation count_file: counter_store "write_bincount_to_file name" "read_bincount_from_file name" works "stored_count name"
proof
  fix s v
  assume s: "works s"
  show "fst (write_bincount_to_file name v s) \<and> works (snd (write_bincount_to_file name v s)) \<and>
      stored_count name (snd (write_bincount_to_file name v s)) = Some v"
    using write_bincount_works [OF s, of name v] by auto
  show "works (snd (snd (read_bincount_from_file name v s))) \<and>
      stored_count name (snd (snd (read_bincount_from_file name v s))) = stored_count name s \<and>
      (case stored_count name s of None \<Rightarrow> \<not> fst (read_bincount_from_file name v s)
       | Some w \<Rightarrow> fst (read_bincount_from_file name v s) \<and> fst (snd (read_bincount_from_file name v s)) = w)"
    using read_bincount_works [OF s, of name v] by (auto split: option.splits)
qed

section \<open>Writing when calls fail\<close>

lemma f_open_cases:
  "f_open name s = (r, s') \<Longrightarrow> files s' = files s \<and> io s' = io s \<and>
     (r = None \<or> (\<exists>d. files s name = Some d \<and> r = Some \<lparr>f_name = name, f_rest = d, f_out = []\<rparr>))"
  by (auto simp: f_open_def tick_def split: option.splits if_splits)

lemma f_create_cases:
  "f_create name s = (r, s') \<Longrightarrow> io s' = io s \<and>
     (r = None \<and> files s' = files s \<or>
      r = Some \<lparr>f_name = name, f_rest = [], f_out = []\<rparr> \<and> files s' = (files s)(name \<mapsto> []))"
  by (auto simp: f_create_def tick_def split: option.splits)

definition torn :: "string \<Rightarrow> string option \<Rightarrow> string option \<Rightarrow> bool" where
  "torn new old res \<longleftrightarrow> (\<exists>k \<le> length new. res = map_option (\<lambda>d. take k new @ drop k d) old)"

lemma torn_close:
  assumes "\<exists>k. f_out fp = take k new"
  shows "torn new (files s (f_name fp)) (files (f_close fp s) (f_name fp))"
proof -
  obtain k where k: "f_out fp = take k new" using assms by blast
  obtain j where j: "files (f_close fp s) (f_name fp) =
     map_option (\<lambda>old. take j (f_out fp) @ drop (length (take j (f_out fp))) old) (files s (f_name fp))"
    using f_close_any by blast
  have "take j (f_out fp) = take (min j (min k (length new))) new" by (simp add: k min_def)
  then show ?thesis
    unfolding torn_def j by (intro exI [of _ "min j (min k (length new))"]) simp
qed

lemma write_value_any:
  assumes "write_value fp v s = (ok, s')" "f_out fp = []"
  shows "(\<forall>n. n \<noteq> f_name fp \<longrightarrow> files s' n = files s n) \<and>
     torn (int_bytes v) (files s (f_name fp)) (files s' (f_name fp)) \<and>
     (ok \<and> io s (io_calls s' - 1) = None \<and> files s (f_name fp) \<noteq> None \<longrightarrow> stored_count (f_name fp) s' = Some v)"
proof -
  obtain b s1 where r: "f_rewind s = (b, s1)" "files s1 = files s" "io s1 = io s"
    by (auto simp: f_rewind_def tick_def)
  obtain n fp1 s2 where w: "f_write (int_bytes v) fp s1 = (n, fp1, s2)" "files s2 = files s" "io s2 = io s"
    and fp1: "fp1 = fp\<lparr>f_out := take n (int_bytes v)\<rparr>"
    using r assms(2) by (auto simp: f_write_def tick_def Let_def)
  define fp' where "fp' = (if b then fp1 else fp)"
  define s0 where "s0 = (if b then s2 else s1)"
  have s': "s' = f_close fp' s0" and ok: "ok \<longleftrightarrow> b \<and> \<not> n < 4"
    using assms(1) r(1) w(1) by (auto simp: write_value_def fp'_def s0_def split: bool.splits if_splits)
  have f: "f_name fp' = f_name fp" "files s0 = files s" "io s0 = io s" "\<exists>k. f_out fp' = take k (int_bytes v)"
    using r w fp1 assms(2) by (auto simp: fp'_def s0_def intro: exI [of _ 0])
  have "stored_count (f_name fp) s' = Some v"
    if "ok" "io s (io_calls s' - 1) = None" "files s (f_name fp) = Some d" for d
  proof -
    have "f_out fp' = int_bytes v" using that(1) ok fp1 by (simp add: fp'_def)
    then have "files s' (f_name fp) = Some (int_bytes v @ drop 4 d)"
      using that f by (simp add: s' f_close_def tick_def Let_def)
    then show ?thesis by (simp add: stored_count_def)
  qed
  then show ?thesis
    using torn_close [OF f(4), of s0] f by (auto simp: s')
qed

text \<open>
  C32: what can happen to the count's file, whichever calls fail: \<open>write_bincount_to_file\<close>
  touches no other file; the file ends up as the old one, or an emptied one, with some
  prefix of the four bytes written over it; and success together with a working \<open>fclose\<close>
  means that the count is stored.
\<close>

theorem write_bincount_any:
  assumes "write_bincount_to_file name v s = (ok, s')"
  shows "(\<forall>n. n \<noteq> name \<longrightarrow> files s' n = files s n) \<and>
     (torn (int_bytes v) (files s name) (files s' name) \<or> torn (int_bytes v) (Some []) (files s' name)) \<and>
     (ok \<and> io s (io_calls s' - 1) = None \<longrightarrow> stored_count name s' = Some v)"
proof -
  have refl: "torn (int_bytes v) x x" for x by (cases x) (auto simp: torn_def intro: exI [of _ 0])
  obtain r s1 where o: "f_open name s = (r, s1)" by (cases "f_open name s")
  note oc = f_open_cases [OF o]
  show ?thesis
  proof (cases r)
    case (Some fp)
    then have "write_value fp v s1 = (ok, s')" using assms o by (simp add: write_bincount_to_file_def)
    from write_value_any [OF this] oc Some show ?thesis by auto
  next
    case None
    obtain r2 s2 where c: "f_create name s1 = (r2, s2)" by (cases "f_create name s1")
    note cc = f_create_cases [OF c]
    show ?thesis
    proof (cases r2)
      case None
      then show ?thesis using assms o \<open>r = None\<close> c cc oc refl
        by (auto simp: write_bincount_to_file_def)
    next
      case (Some fp)
      then have "write_value fp v s2 = (ok, s')"
        using assms o \<open>r = None\<close> c by (simp add: write_bincount_to_file_def)
      from write_value_any [OF this] oc cc Some show ?thesis by auto
    qed
  qed
qed

definition example_fs :: filesys where
  "example_fs = \<lparr>files = [''binrecord.bin'' \<mapsto> int_bytes 7], io = (\<lambda>k. if k = 3 then Some 2 else None), io_calls = 0\<rparr>"

text \<open>A full disk at \<open>fclose\<close>: two bytes are stored, and the call reports success.\<close>

theorem write_bincount_any_witness:
  "\<exists>s'. write_bincount_to_file ''binrecord.bin'' 256 example_fs = (True, s') \<and>
     (\<forall>n. n \<noteq> ''binrecord.bin'' \<longrightarrow> files s' n = files example_fs n)"
proof -
  obtain ok s' where w: "write_bincount_to_file ''binrecord.bin'' 256 example_fs = (ok, s')"
    by (cases "write_bincount_to_file ''binrecord.bin'' 256 example_fs")
  have io: "io example_fs (Suc 0) = None" "io example_fs 2 = None" by (simp_all add: example_fs_def)
  have o: "f_open ''binrecord.bin'' example_fs =
      (Some \<lparr>f_name = ''binrecord.bin'', f_rest = int_bytes 7, f_out = []\<rparr>, example_fs\<lparr>io_calls := Suc 0\<rparr>)"
    by (simp add: f_open_def tick_def example_fs_def)
  have r: "f_rewind (example_fs\<lparr>io_calls := Suc 0\<rparr>) = (True, example_fs\<lparr>io_calls := 2\<rparr>)"
    by (simp add: f_rewind_def tick_def io)
  have f: "f_write d fp (example_fs\<lparr>io_calls := 2\<rparr>) =
      (length d, fp\<lparr>f_out := f_out fp @ d\<rparr>, example_fs\<lparr>io_calls := 3\<rparr>)" for d fp
    by (simp add: f_write_def tick_def io Let_def)
  have "fst (write_bincount_to_file ''binrecord.bin'' 256 example_fs)"
    by (simp add: write_bincount_to_file_def o write_value_def r f)
  then have ok by (simp add: w)
  then show ?thesis using w conjunct1 [OF write_bincount_any [OF w]] by (intro exI [of _ s']) simp
qed

section \<open>The serial number\<close>

text \<open>The lines as \<open>fgets\<close> cuts them, and the first one that holds the option.\<close>

function file_lines :: "string \<Rightarrow> string list" where
  "file_lines d =
     (if d = [] then [] else next_line 255 d # file_lines (drop (length (next_line 255 d)) d))"
  by pat_completeness auto
termination by (relation "measure length") (auto intro!: diff_less dest: length_next_line [of _ 255])

declare file_lines.simps [simp del]

definition esn_line :: "string \<Rightarrow> string \<Rightarrow> bool" where
  "esn_line line v \<longleftrightarrow> sublist ''option esn'' (cstr line) \<and>
     (\<exists>pre post. cstr line = pre @ [QUOTE] @ v @ [QUOTE] @ post \<and> QUOTE \<notin> set pre \<and> QUOTE \<notin> set v)"

lemma strstr_sublist: "strstr s t = sublist t s"
proof (induction s t rule: strstr.induct)
  case (2 c s t)
  have "prefix t (c # s) \<longleftrightarrow> take (length t) (c # s) = t"
    by (metis append_eq_conv_conj prefix_def take_is_prefix)
  then show ?case using 2 by (auto simp: sublist_Cons_right)
qed simp

lemma strchr_some: "strchr s c = Some r \<longleftrightarrow> (\<exists>pre r'. s = pre @ c # r' \<and> c \<notin> set pre \<and> r = c # r')"
proof
  assume "strchr s c = Some r"
  then have r: "dropWhile (\<lambda>d. d \<noteq> c) s = r" "r \<noteq> []" by (auto simp: strchr_def split: list.splits)
  then have "hd r = c" using hd_dropWhile [of "\<lambda>d. d \<noteq> c" s] by auto
  moreover have "s = takeWhile (\<lambda>d. d \<noteq> c) s @ r" using r by (simp flip: r(1))
  ultimately show "\<exists>pre r'. s = pre @ c # r' \<and> c \<notin> set pre \<and> r = c # r'"
    using r(2) by (metis list.collapse set_takeWhileD)
next
  assume "\<exists>pre r'. s = pre @ c # r' \<and> c \<notin> set pre \<and> r = c # r'"
  then show "strchr s c = Some r" by (auto simp: strchr_def dropWhile_append)
qed

lemma esn_of_line_iff: "esn_of_line line = Some v \<longleftrightarrow> esn_line line v"
proof
  assume "esn_of_line line = Some v"
  then obtain p e where "sublist ''option esn'' (cstr line)" "strchr (cstr line) QUOTE = Some p"
    "strchr (tl p) QUOTE = Some e" "v = take (length (tl p) - length e) (tl p)"
    by (auto simp: esn_of_line_def strstr_sublist split: if_splits option.splits)
  then show "esn_line line v" unfolding strchr_some esn_line_def by fastforce
next
  assume "esn_line line v"
  then obtain pre post where l: "sublist ''option esn'' (cstr line)"
    "cstr line = pre @ QUOTE # v @ QUOTE # post" "QUOTE \<notin> set pre" "QUOTE \<notin> set v"
    by (auto simp: esn_line_def)
  have "strchr (cstr line) QUOTE = Some (QUOTE # v @ QUOTE # post)"
    "strchr (v @ QUOTE # post) QUOTE = Some (QUOTE # post)"
    using l by (auto simp: strchr_some)
  then show "esn_of_line line = Some v"
    using l(1) by (simp add: esn_of_line_def strstr_sublist)
qed

definition first_esn :: "string list \<Rightarrow> string \<Rightarrow> bool" where
  "first_esn lines v \<longleftrightarrow>
     (\<exists>ls l ls'. lines = ls @ l # ls' \<and> (\<forall>x \<in> set ls. \<forall>v. \<not> esn_line x v) \<and> esn_line l v)"

lemma first_esn_hit: "esn_line l v \<Longrightarrow> first_esn (l # ls) v"
  unfolding first_esn_def by (rule exI [of _ "[]"]) auto

lemma first_esn_single: "first_esn [l] v = esn_line l v"
  by (auto simp: first_esn_def Cons_eq_append_conv)

lemma first_esn_skip:
  assumes "\<forall>v. \<not> esn_line l v" "first_esn ls v"
  shows "first_esn (l # ls) v"
proof -
  obtain a b c where "ls = a @ b # c" "\<forall>x \<in> set a. \<forall>v. \<not> esn_line x v" "esn_line b v"
    using assms(2) unfolding first_esn_def by blast
  then show ?thesis unfolding first_esn_def using assms(1) by (intro exI [of _ "l # a"]) auto
qed

text \<open>
  reading the serial number, on a working system: the result is the value between the
  first two quotes of the first line (of at most 255 characters) that contains
  \<^verbatim>\<open>option esn\<close> and has two quotes, cut to the caller's array; without such a line it is
  \<^verbatim>\<open>-2\<close> and without the file \<^verbatim>\<open>-1\<close>, and the array is as before. The array keeps its size.
\<close>

theorem read_esn_spec:
  assumes s: "works s" and esn: "esn \<noteq> []"
    and r: "read_esn_from_file name esn (length esn) s = (r, esn', s')"
  shows "length esn' = length esn \<and>
    (case files s name of
       None \<Rightarrow> r = -1 \<and> esn' = esn
     | Some d \<Rightarrow>
         (r = -2 \<and> esn' = esn \<and> (\<forall>l \<in> set (file_lines d). \<forall>v. \<not> esn_line l v)) \<or>
         (\<exists>v. r = 0 \<and> first_esn (file_lines d) v \<and> cstr esn' = take (length esn - 1) v))"
proof (cases "files s name")
  case None
  then show ?thesis using s r by (auto simp: read_esn_from_file_def f_open_def tick_works)
next
  case (Some d)
  have cstr_put: "length (put_esn esn (length esn) v) = length esn \<and>
      cstr (put_esn esn (length esn) v) = take (length esn - 1) v" if "esn_line l v" "esn \<noteq> []" for l v esn
  proof -
    have "no_nul v" using that(1) no_nul_cstr [of l] unfolding esn_line_def by (metis no_nul_simps(3))
    then have "no_nul (take n v)" for n by (auto simp: no_nul_def dest: in_set_takeD)
    then show ?thesis using that(2) by (auto simp: put_esn_def Let_def)
  qed
  have "length esn' = length esn \<and>
      ((r = -2 \<and> esn' = esn \<and> (\<forall>l \<in> set (file_lines (f_rest fp)). \<forall>v. \<not> esn_line l v)) \<or>
       (\<exists>v. r = 0 \<and> first_esn (file_lines (f_rest fp)) v \<and> cstr esn' = take (length esn - 1) v))"
    if "esn_loop fp esn (length esn) s = (r, esn', s')" "works s" "esn \<noteq> []" for fp esn s
    using that
  proof (induction fp esn "length esn" s rule: esn_loop.induct)
    case (1 fp esn s)
    have t: "tick s = (None, s\<lparr>io_calls := io_calls s + 1\<rparr>)" using 1 by (simp add: tick_works)
    show ?case
    proof (cases "f_rest fp = []")
      case True
      then show ?thesis using 1 t by (auto simp: esn_loop.simps [of fp] file_lines.simps [of "[]"])
    next
      case False
      define line where "line = next_line 255 (f_rest fp)"
      define fp1 where "fp1 = fp\<lparr>f_rest := drop (length line) (f_rest fp)\<rparr>"
      have lines: "file_lines (f_rest fp) = line # file_lines (f_rest fp1)"
        using False by (simp add: file_lines.simps [of "f_rest fp"] line_def fp1_def)
      have e: "(case esn_of_line line of
          Some v \<Rightarrow> (0, put_esn esn (length esn) v, f_close fp1 (s\<lparr>io_calls := io_calls s + 1\<rparr>))
        | None \<Rightarrow> esn_loop fp1 esn (length esn) (s\<lparr>io_calls := io_calls s + 1\<rparr>)) = (r, esn', s')"
        using "1.prems"(1) t False unfolding line_def fp1_def by (simp add: esn_loop.simps [of fp] Let_def cong: option.case_cong)
      show ?thesis
      proof (cases "esn_of_line line")
        case (Some v)
        then have "esn_line line v" by (simp add: esn_of_line_iff)
        then show ?thesis
          using e Some cstr_put [of line v esn] "1.prems"(3) unfolding lines
          by (auto intro: first_esn_hit)
      next
        case None
        then have no: "\<not> esn_line line v" for v using esn_of_line_iff [of line v] by simp
        have "esn_loop fp1 esn (length esn) (s\<lparr>io_calls := io_calls s + 1\<rparr>) = (r, esn', s')"
          using e None by simp
        with "1.hyps" [OF t [symmetric] refl False line_def fp1_def None] "1.prems"(2,3)
        have IH: "length esn' = length esn \<and>
          ((r = -2 \<and> esn' = esn \<and> (\<forall>l \<in> set (file_lines (f_rest fp1)). \<forall>v. \<not> esn_line l v)) \<or>
           (\<exists>v. r = 0 \<and> first_esn (file_lines (f_rest fp1)) v \<and> cstr esn' = take (length esn - 1) v))"
          by simp
        then show ?thesis unfolding lines using no by (auto intro: first_esn_skip)
      qed
    qed
  qed
  from this [of "\<lparr>f_name = name, f_rest = d, f_out = []\<rparr>" esn "s\<lparr>io_calls := io_calls s + 1\<rparr>"] r s Some esn
  show ?thesis by (simp add: read_esn_from_file_def f_open_def tick_works)
qed

definition esn_text :: string where
  "esn_text = ''option esn '' @ [QUOTE] @ ''42'' @ [QUOTE]"

theorem read_esn_spec_witness:
  "\<exists>esn' s'. read_esn_from_file ''esn'' [NUL, NUL] 2
       \<lparr>files = [''esn'' \<mapsto> esn_text], io = (\<lambda>_. None), io_calls = 0\<rparr> = (0, esn', s') \<and> cstr esn' = ''4''"
proof -
  define s where "s = \<lparr>files = [''esn'' \<mapsto> esn_text], io = (\<lambda>_. None :: nat option), io_calls = 0\<rparr>"
  obtain r esn' s' where r: "read_esn_from_file ''esn'' [NUL, NUL] (length [NUL, NUL]) s = (r, esn', s')"
    by (cases "read_esn_from_file ''esn'' [NUL, NUL] (length [NUL, NUL]) s")
  have line: "esn_line esn_text ''42''"
    unfolding esn_of_line_iff [symmetric]
    by code_simp
  have lines: "file_lines esn_text = [esn_text]"
    by code_simp
  have "v = ''42''" if "esn_line esn_text v" for v
    using that line unfolding esn_of_line_iff [symmetric] by simp
  moreover have "works s" "files s ''esn'' = Some esn_text" by (simp_all add: s_def works_def)
  with read_esn_spec [OF _ _ r] have "(\<forall>v. \<not> esn_line esn_text v) \<or>
      (\<exists>v. r = 0 \<and> esn_line esn_text v \<and> cstr esn' = take 1 v)"
    by (simp add: lines first_esn_single) blast
  ultimately have "r = 0 \<and> cstr esn' = take 1 ''42''" using line by metis
  then show ?thesis using r unfolding s_def by (intro exI [of _ esn'] exI [of _ s']) (simp add: numeral_2_eq_2)
qed

section \<open>The configuration file\<close>

text \<open>
  a configuration that has been written is read back as it was: on a working system a
  text shorter than the buffer comes back as the C string in it, and a longer one is refused
  and leaves the buffer alone.
\<close>

theorem json_file_roundtrip:
  assumes s: "works s" and b: "length b = n" and w: "write_json_to_file (Some name) (Some j) s = (r, s1)"
    and rd: "read_json_from_file (Some name) (Some b) n s1 = (ok, b', s2)"
  shows "r = 0 \<and> files s2 name = Some (cstr j) \<and>
    (if length (cstr j) < n then ok = 1 \<and> (\<exists>c. b' = Some c \<and> length c = n \<and> cstr c = cstr j)
     else ok = 0 \<and> b' = Some b)"
proof -
  define t where "t = cstr j"
  define fp where "fp = \<lparr>f_name = name, f_rest = [], f_out = t\<rparr>"
  define s0 where "s0 = s\<lparr>files := (files s)(name \<mapsto> []), io_calls := io_calls s + 2\<rparr>"
  have s0: "works s0" using s by (simp add: s0_def)
  have w1: "r = 0 \<and> s1 = f_close fp s0"
    using w s by (auto simp: write_json_to_file_def f_create_def tick_works f_write_def Let_def t_def fp_def s0_def)
  then have s1: "works s1" "files s1 name = Some t"
    using s0 f_close_works [OF s0, of fp] by (simp_all add: fp_def s0_def)
  have t: "no_nul t" by (simp add: t_def)
  define fp2 where "fp2 = \<lparr>f_name = name, f_rest = [], f_out = []\<rparr>"
  define s3 where "s3 = s1\<lparr>io_calls := Suc (Suc (Suc (io_calls s1)))\<rparr>"
  have s3: "works s3" using s1 by (simp add: s3_def)
  have cl: "files (f_close fp2 s3) name = Some t"
    using f_close_works [OF s3, of fp2] s1 by (simp add: fp2_def s3_def)
  show ?thesis
  proof (cases "length t < n")
    case True
    have "read_json_from_file (Some name) (Some b) n s1 =
        (1, Some (t @ [NUL] @ drop (length t + 1) b), f_close fp2 s3)"
      using True s1
      by (simp add: read_json_from_file_def f_stat_def f_open_def f_read_def tick_works Let_def fp2_def s3_def)
    then show ?thesis using rd w1 True cl b t by (auto simp: t_def [symmetric])
  next
    case False
    then have "read_json_from_file (Some name) (Some b) n s1 =
        (0, Some b, if n = 0 then s1 else s1\<lparr>io_calls := io_calls s1 + 1\<rparr>)"
      using s1 by (simp add: read_json_from_file_def f_stat_def tick_works)
    then show ?thesis using rd w1 False s1(2) by (auto simp: t_def [symmetric])
  qed
qed

theorem json_file_roundtrip_witness:
  "\<exists>s1 s2 c. write_json_to_file (Some ''config.json'') (Some ''{}'') (example_fs\<lparr>io := (\<lambda>_. None)\<rparr>) = (0, s1) \<and>
     read_json_from_file (Some ''config.json'') (Some (replicate 512 NUL)) 512 s1 = (1, Some c, s2) \<and> cstr c = ''{}''"
proof -
  define s where "s = example_fs\<lparr>io := (\<lambda>_. None)\<rparr>"
  obtain r s1 where w: "write_json_to_file (Some ''config.json'') (Some ''{}'') s = (r, s1)"
    by (cases "write_json_to_file (Some ''config.json'') (Some ''{}'') s")
  obtain ok b' s2 where rd: "read_json_from_file (Some ''config.json'') (Some (replicate 512 NUL)) 512 s1 = (ok, b', s2)"
    by (cases "read_json_from_file (Some ''config.json'') (Some (replicate 512 NUL)) 512 s1")
  have "works s" by (simp add: s_def works_def)
  from json_file_roundtrip [OF this _ w rd] have "r = 0 \<and> ok = 1 \<and> (\<exists>c. b' = Some c \<and> cstr c = ''{}'')"
    by (auto simp: cstr_def)
  then show ?thesis using w rd unfolding s_def by blast
qed

end
