(* ===== verification/Pending.thy ===== *)
theory Pending
  imports TcpServer
begin

text \<open>
  The list of messages that wait for an acknowledgement (\<^verbatim>\<open>sg-comm.c\<close>), at the level of
  pointers: a heap of entries with \<open>next\<close> fields, the blocks of their message texts, the
  pointer-to-pointer walks of \<open>add_pending\<close> and \<open>ack_manager\<close>, and the search of
  \<open>bin_ack_handler\<close>. Each operation implements one on plain lists; no entry and no text
  leaks, none is used after it is freed or freed twice.
\<close>

section \<open>Entries and links\<close>

text \<open>
  The struct, with \<open>msg\<close> of any type: a pointer to a block in the heap, and the text itself
  in the lists that the operations implement. \<open>None\<close> is \<open>NULL\<close>, what a failed \<open>strdup\<close> gives.
\<close>

record 'm PendingAck =
  pa_fd :: fd
  pa_msg :: "'m option"
  pa_len :: nat
  last_sent :: int
  retries :: nat
  acked :: bool
  pa_bincount :: int32
  nxt :: "nat option"

type_synonym pending_node = "nat PendingAck"
type_synonym pending_msg = "string PendingAck"

definition TIMEOUT_SEC :: int where "TIMEOUT_SEC = 5"
definition MAX_RETRIES :: nat where "MAX_RETRIES = 3"

text \<open>The entries and the texts are separate blocks.\<close>

record pend =
  pending_head :: "nat option"
  heap :: "nat \<Rightarrow> pending_node option"
  msgs :: "nat \<Rightarrow> string option"

text \<open>What \<open>pp\<close> points at: the head variable or the \<open>next\<close> field of an entry.\<close>

datatype link = Head | Next nat

definition read_link :: "link \<Rightarrow> pend \<Rightarrow> nat option option" where
  "read_link pp s =
     (case pp of Head \<Rightarrow> Some (pending_head s) | Next a \<Rightarrow> map_option nxt (heap s a))"

definition write_link :: "link \<Rightarrow> nat option \<Rightarrow> pend \<Rightarrow> pend" where
  "write_link pp v s =
     (case pp of
        Head \<Rightarrow> s\<lparr>pending_head := v\<rparr>
      | Next a \<Rightarrow> s\<lparr>heap := (heap s)(a := map_option (nxt_update (\<lambda>_. v)) (heap s a))\<rparr>)"

text \<open>\<open>free\<close> of the text: nothing for \<open>NULL\<close>, \<open>None\<close> for a block that is not allocated.\<close>

definition free_msg :: "nat option \<Rightarrow> pend \<Rightarrow> pend option" where
  "free_msg q s =
     (case q of
        None \<Rightarrow> Some s
      | Some m \<Rightarrow> if msgs s m = None then None else Some (s\<lparr>msgs := (msgs s)(m := None)\<rparr>))"

definition free_entry :: "nat \<Rightarrow> pend \<Rightarrow> pend" where
  "free_entry a s = s\<lparr>heap := (heap s)(a := None)\<rparr>"

text \<open>What both walks do with an entry they drop: unlink it, free its text, free it.\<close>

definition drop_entry :: "link \<Rightarrow> nat \<Rightarrow> pending_node \<Rightarrow> pend \<Rightarrow> pend option" where
  "drop_entry pp a p s = map_option (free_entry a) (free_msg (pa_msg p) (write_link pp (nxt p) s))"

definition msg_text :: "pend \<Rightarrow> nat option \<Rightarrow> string option" where
  "msg_text s q = (case q of None \<Rightarrow> None | Some m \<Rightarrow> msgs s m)"

section \<open>Operations\<close>

text \<open>
  \<open>None\<close> is a walk that does not end, a use of \<open>NULL\<close> or of a block that is not allocated, or
  a send that blocks.
\<close>

partial_function (option) drop_loop :: "fd \<Rightarrow> link \<Rightarrow> pend \<Rightarrow> pend option" where
  [code]: "drop_loop f pp s =
     (case read_link pp s of
        None \<Rightarrow> None
      | Some None \<Rightarrow> Some s
      | Some (Some a) \<Rightarrow>
          (case heap s a of
             None \<Rightarrow> None
           | Some p \<Rightarrow>
               if pa_fd p = f
               then (case drop_entry pp a p s of None \<Rightarrow> None | Some s' \<Rightarrow> drop_loop f pp s')
               else drop_loop f (Next a) s))"

text \<open>
  \<open>a\<close> is what \<open>calloc\<close> returns and \<open>m\<close> what \<open>strdup\<close> returns, neither of them checked; \<open>now\<close> is
  the clock. Without an entry the first store is through \<open>NULL\<close>; without a text the entry
  is put into the list all the same.
\<close>

definition add_pending ::
    "fd \<Rightarrow> string \<Rightarrow> int32 \<Rightarrow> int \<Rightarrow> nat option \<times> nat option \<Rightarrow> pend \<Rightarrow> pend option" where
  "add_pending f str bc now blks s =
     (case blks of
        (None, m) \<Rightarrow> None
      | (Some a, m) \<Rightarrow>
          (let p = \<lparr>pa_fd = f, pa_msg = m, pa_len = length (cstr str), last_sent = now, retries = 0,
                    acked = False, pa_bincount = bc, nxt = None\<rparr>;
               s0 = s\<lparr>heap := (heap s)(a \<mapsto> p),
                      msgs := (case m of None \<Rightarrow> msgs s | Some b \<Rightarrow> (msgs s)(b \<mapsto> cstr str))\<rparr>
           in case drop_loop f Head s0 of
                None \<Rightarrow> None
              | Some s1 \<Rightarrow> Some (write_link Head (Some a) (write_link (Next a) (pending_head s1) s1))))"

partial_function (option) resend_loop ::
    "int \<Rightarrow> link \<Rightarrow> SgTcpServer \<times> pend \<Rightarrow> (SgTcpServer \<times> pend) option" where
  [code]: "resend_loop now pp st =
     (case read_link pp (snd st) of
        None \<Rightarrow> None
      | Some None \<Rightarrow> Some st
      | Some (Some a) \<Rightarrow>
          (case heap (snd st) a of
             None \<Rightarrow> None
           | Some p \<Rightarrow>
               if acked p \<or> MAX_RETRIES \<le> retries p
               then (case drop_entry pp a p (snd st) of
                       None \<Rightarrow> None | Some s' \<Rightarrow> resend_loop now pp (fst st, s'))
               else if TIMEOUT_SEC \<le> now - last_sent p
               then (case msg_text (snd st) (pa_msg p) of
                       None \<Rightarrow> None
                     | Some t \<Rightarrow>
                         (case SgTcpServer_send (fst st) (pa_fd p) t (pa_len p) of
                            None \<Rightarrow> None
                          | Some srv \<Rightarrow> resend_loop now (Next a)
                              (srv, (snd st)\<lparr>heap := (heap (snd st))(a \<mapsto>
                                 p\<lparr>last_sent := now, retries := retries p + 1\<rparr>)\<rparr>)))
               else resend_loop now (Next a) st))"

text \<open>The body of \<open>ack_manager\<close> under its mutex, and the thread over the times it wakes at.\<close>

definition ack_pass :: "int \<Rightarrow> SgTcpServer \<times> pend \<Rightarrow> (SgTcpServer \<times> pend) option" where
  "ack_pass now st = resend_loop now Head st"

fun ack_manager :: "int list \<Rightarrow> SgTcpServer \<times> pend \<Rightarrow> (SgTcpServer \<times> pend) option" where
  "ack_manager [] st = Some st"
| "ack_manager (now # nows) st =
     (case ack_pass now st of None \<Rightarrow> None | Some st' \<Rightarrow> ack_manager nows st')"

text \<open>The search of \<open>bin_ack_handler\<close>.\<close>

partial_function (option) mark_loop :: "fd \<Rightarrow> int32 \<Rightarrow> nat option \<Rightarrow> pend \<Rightarrow> pend option" where
  [code]: "mark_loop f bc q s =
     (case q of
        None \<Rightarrow> Some s
      | Some a \<Rightarrow>
          (case heap s a of
             None \<Rightarrow> None
           | Some p \<Rightarrow>
               if pa_fd p = f \<and> pa_bincount p = bc
               then Some (s\<lparr>heap := (heap s)(a \<mapsto> p\<lparr>acked := True\<rparr>)\<rparr>)
               else mark_loop f bc (nxt p) s))"

definition mark_acked :: "fd \<Rightarrow> int32 \<Rightarrow> pend \<Rightarrow> pend option" where
  "mark_acked f bc s = mark_loop f bc (pending_head s) s"

section \<open>Chains\<close>

text \<open>The blocks from pointer \<open>q\<close> along \<open>next\<close> to pointer \<open>r\<close>.\<close>

primrec path :: "(nat \<Rightarrow> pending_node option) \<Rightarrow> nat option \<Rightarrow> nat list \<Rightarrow> nat option \<Rightarrow> bool" where
  "path h q [] r \<longleftrightarrow> q = r"
| "path h q (a # as) r \<longleftrightarrow> q = Some a \<and> (\<exists>p. h a = Some p \<and> path h (nxt p) as r)"

text \<open>An entry with its text, and what the heap holds of it.\<close>

definition entry :: "pend \<Rightarrow> pending_node \<Rightarrow> pending_msg" where
  "entry s p = \<lparr>pa_fd = pa_fd p, pa_msg = msg_text s (pa_msg p), pa_len = pa_len p, last_sent = last_sent p,
     retries = retries p, acked = acked p, pa_bincount = pa_bincount p, nxt = None\<rparr>"

definition cell :: "pend \<Rightarrow> nat \<Rightarrow> pending_msg option" where
  "cell s a = map_option (entry s) (heap s a)"

definition ent :: "pend \<Rightarrow> nat \<Rightarrow> pending_msg" where
  "ent s a = the (cell s a)"

text \<open>The text blocks are exactly those the entries point at, and no two entries share one.\<close>

definition msg_ptr :: "pend \<Rightarrow> nat \<Rightarrow> nat option" where
  "msg_ptr s a = Option.bind (heap s a) pa_msg"

definition owned :: "pend \<Rightarrow> bool" where
  "owned s \<longleftrightarrow> dom (msgs s) = ran (msg_ptr s) \<and> inj_on (msg_ptr s) (dom (msg_ptr s))"

definition pwf :: "pend \<Rightarrow> nat list \<Rightarrow> bool" where
  "pwf s as \<longleftrightarrow> path (heap s) (pending_head s) as None \<and> distinct as \<and> owned s"

definition slot :: "nat list \<Rightarrow> link" where
  "slot as = (if as = [] then Head else Next (last as))"

text \<open>The list a state stands for: all blocks are in the chain.\<close>

definition pend_abs :: "pend \<Rightarrow> pending_msg list \<Rightarrow> bool" where
  "pend_abs s es \<longleftrightarrow> (\<exists>as. pwf s as \<and> dom (heap s) = set as \<and> es = map (ent s) as)"

lemma entry_simps [simp]:
  "pa_fd (entry s p) = pa_fd p" "pa_msg (entry s p) = msg_text s (pa_msg p)" "pa_len (entry s p) = pa_len p"
  "last_sent (entry s p) = last_sent p" "retries (entry s p) = retries p" "acked (entry s p) = acked p"
  "pa_bincount (entry s p) = pa_bincount p" "nxt (entry s p) = None"
  "entry s (p\<lparr>nxt := v\<rparr>) = entry s p"
  "entry s (p\<lparr>last_sent := t, retries := r\<rparr>) = (entry s p)\<lparr>last_sent := t, retries := r\<rparr>"
  "entry s (p\<lparr>acked := b\<rparr>) = (entry s p)\<lparr>acked := b\<rparr>"
  by (simp_all add: entry_def)

lemma entry_cong: "msg_text s' (pa_msg p) = msg_text s (pa_msg p) \<Longrightarrow> entry s' p = entry s p"
  by (simp add: entry_def)

lemma entry_heap [simp]: "entry (s\<lparr>heap := h\<rparr>) = entry s" "entry (s\<lparr>pending_head := q\<rparr>) = entry s"
  by (simp_all add: fun_eq_iff entry_def msg_text_def split: option.split)

lemma write_link_simps [simp]:
  "msgs (write_link pp v s) = msgs s" "entry (write_link pp v s) = entry s"
  "msg_ptr (write_link pp v s) = msg_ptr s" "cell (write_link pp v s) = cell s"
  by (auto simp: write_link_def fun_eq_iff msg_ptr_def cell_def option.map_comp comp_def
      split: link.split Option.bind_split)

lemma owned_write_link [simp]: "owned (write_link pp v s) = owned s"
  by (simp add: owned_def)

text \<open>Freeing an entry with its text keeps the others and their texts.\<close>

lemma drop_owned:
  assumes "owned s" "heap s a = Some p"
  shows "\<exists>s'. map_option (free_entry a) (free_msg (pa_msg p) s) = Some s' \<and> owned s' \<and>
    heap s' = (heap s)(a := None) \<and> pending_head s' = pending_head s \<and> cell s' = (cell s)(a := None)"
proof (cases "pa_msg p")
  case None
  have "msg_ptr (free_entry a s) = msg_ptr s"
    using assms(2) None by (auto simp: msg_ptr_def free_entry_def fun_eq_iff)
  then have "owned (free_entry a s)" using assms(1) by (simp add: owned_def free_entry_def)
  then show ?thesis using None
    by (auto simp: free_msg_def free_entry_def cell_def fun_eq_iff)
next
  case (Some m)
  have p: "msg_ptr s a = Some m" using assms(2) Some by (simp add: msg_ptr_def)
  then have live: "msgs s m \<noteq> None" using assms(1) by (auto simp: owned_def ran_def)
  define s' where "s' = free_entry a (s\<lparr>msgs := (msgs s)(m := None)\<rparr>)"
  have ptr: "msg_ptr s' = (msg_ptr s)(a := None)"
    by (auto simp: s'_def msg_ptr_def free_entry_def fun_eq_iff)
  have other: "msg_ptr s x \<noteq> Some m" if "x \<noteq> a" for x
    using assms(1) p that unfolding owned_def inj_on_def by (metis domIff option.distinct(1))
  have "x \<in> ran ((msg_ptr s)(a := None)) \<longleftrightarrow> x \<in> ran (msg_ptr s) - {m}" for x
    using p other by (auto simp: ran_def) (metis option.inject)
  then have "ran ((msg_ptr s)(a := None)) = ran (msg_ptr s) - {m}" by blast
  then have "owned s'"
    using assms(1) unfolding owned_def ptr by (auto simp: s'_def free_entry_def inj_on_def)
  moreover have "cell s' = (cell s)(a := None)"
  proof
    fix x show "cell s' x = ((cell s)(a := None)) x"
    proof (cases "x = a \<or> heap s x = None")
      case False
      then obtain q where q: "heap s x = Some q" "x \<noteq> a" by auto
      then have "pa_msg q \<noteq> Some m" using other [of x] by (auto simp: msg_ptr_def)
      then have "entry s' q = entry s q"
        by (intro entry_cong) (auto simp: s'_def free_entry_def msg_text_def split: option.split)
      then show ?thesis using q by (simp add: cell_def s'_def free_entry_def)
    qed (auto simp: cell_def s'_def free_entry_def)
  qed
  ultimately show ?thesis using live Some by (intro exI [of _ s']) (simp add: free_msg_def s'_def free_entry_def)
qed

lemma path_append: "path h q (as @ bs) r \<longleftrightarrow> (\<exists>m. path h q as m \<and> path h m bs r)"
  by (induction as arbitrary: q) auto

lemma path_frame [simp]: "a \<notin> set as \<Longrightarrow> path (h(a := v)) q as r = path h q as r"
  by (induction as arbitrary: q) auto

lemma path_same_next:
  "h a = Some p \<Longrightarrow> nxt p' = nxt p \<Longrightarrow> path (h(a \<mapsto> p')) q as r = path h q as r"
  by (induction as arbitrary: q) auto

lemma path_dom: "path h q as r \<Longrightarrow> set as \<subseteq> dom h"
  by (induction as arbitrary: q) auto

lemma read_slot: "path (heap s) (pending_head s) as m \<Longrightarrow> read_link (slot as) s = Some m"
  by (cases as rule: rev_cases) (auto simp: slot_def read_link_def path_append)

lemma slot_snoc [simp]: "slot (as @ [a]) = Next a" "slot [] = Head"
  by (simp_all add: slot_def)

text \<open>What a walk finds at its position.\<close>

lemma pwf_at:
  assumes "pwf s (as @ bs)"
  shows "read_link (slot as) s = Some (case bs of [] \<Rightarrow> None | b # _ \<Rightarrow> Some b)"
    and "bs = b # cs \<Longrightarrow> \<exists>p. heap s b = Some p \<and> cell s b = Some (entry s p)"
proof -
  obtain m where m: "path (heap s) (pending_head s) as m" "path (heap s) m bs None"
    using assms by (auto simp: pwf_def path_append)
  have "m = (case bs of [] \<Rightarrow> None | b # _ \<Rightarrow> Some b)" using m(2) by (cases bs) auto
  then show "read_link (slot as) s = Some (case bs of [] \<Rightarrow> None | b # _ \<Rightarrow> Some b)"
    using read_slot [OF m(1)] by simp
  show "bs = b # cs \<Longrightarrow> \<exists>p. heap s b = Some p \<and> cell s b = Some (entry s p)"
    using m(2) by (auto simp: cell_def)
qed

text \<open>Unlinking and freeing the entry at the position; changing an entry in place.\<close>

lemma unlink:
  assumes "pwf s (as @ a # bs)" "heap s a = Some p"
  shows "\<exists>s'. drop_entry (slot as) a p s = Some s' \<and> pwf s' (as @ bs) \<and> cell s' = (cell s)(a := None)"
proof -
  define s1 where "s1 = write_link (slot as) (nxt p) s"
  have as: "a \<notin> set as" "distinct (as @ bs)" "owned s" using assms(1) by (auto simp: pwf_def)
  then have "slot as \<noteq> Next a" by (auto simp: slot_def split: if_splits)
  then have "heap s1 a = Some p"
    using assms(2) by (cases "slot as") (auto simp: s1_def write_link_def)
  moreover have "owned s1" using as(3) by (simp add: s1_def)
  ultimately obtain s' where s': "drop_entry (slot as) a p s = Some s'" "owned s'" "heap s' = (heap s1)(a := None)"
    "pending_head s' = pending_head s1" "cell s' = (cell s1)(a := None)"
    using drop_owned [of s1 a p] unfolding drop_entry_def s1_def by blast
  have "path (heap s') (pending_head s') (as @ bs) None"
    using assms unfolding s'(3,4)
    by (cases as rule: rev_cases) (auto simp: pwf_def path_append s1_def write_link_def)
  then show ?thesis using s' as(2) by (auto simp: pwf_def s1_def)
qed

lemma change_entry:
  assumes "pwf s as" "heap s a = Some p" "nxt p' = nxt p" "pa_msg p' = pa_msg p"
  shows "pwf (s\<lparr>heap := (heap s)(a \<mapsto> p')\<rparr>) as"
    and "cell (s\<lparr>heap := (heap s)(a \<mapsto> p')\<rparr>) = (cell s)(a \<mapsto> entry s p')"
proof -
  have "msg_ptr (s\<lparr>heap := (heap s)(a \<mapsto> p')\<rparr>) = msg_ptr s"
    using assms(2,4) by (auto simp: msg_ptr_def fun_eq_iff)
  then show "pwf (s\<lparr>heap := (heap s)(a \<mapsto> p')\<rparr>) as"
    using assms by (auto simp: pwf_def path_same_next owned_def)
  show "cell (s\<lparr>heap := (heap s)(a \<mapsto> p')\<rparr>) = (cell s)(a \<mapsto> entry s p')"
    by (auto simp: cell_def fun_eq_iff)
qed

lemma alloc_owned:
  assumes "owned s" "heap s a = None" "\<forall>b. m = Some b \<longrightarrow> msgs s b = None" "pa_msg p = m"
    and s0: "s0 = s\<lparr>heap := (heap s)(a \<mapsto> p), msgs := (case m of None \<Rightarrow> msgs s | Some b \<Rightarrow> (msgs s)(b \<mapsto> t))\<rparr>"
  shows "owned s0" "cell s0 = (cell s)(a \<mapsto> entry s0 p)"
proof -
  have ptr: "msg_ptr s0 = (msg_ptr s)(a := m)" and a: "msg_ptr s a = None"
    using assms(2,4) by (auto simp: s0 msg_ptr_def fun_eq_iff)
  have new: "msg_ptr s x \<noteq> Some b" if "m = Some b" for x b
    using assms(1,3) that ranI [of "msg_ptr s" x b] unfolding owned_def by blast
  have "ran (msg_ptr s0) = ran (msg_ptr s) \<union> set_option m"
    using a unfolding ptr by (cases m) (auto simp: fun_upd_idem)
  moreover have "dom (msgs s0) = dom (msgs s) \<union> set_option m" by (auto simp: s0 split: option.split)
  moreover have "inj_on (msg_ptr s0) (dom (msg_ptr s0))"
    using assms(1) new unfolding ptr owned_def inj_on_def by (cases m) (auto simp: dom_def)
  ultimately show "owned s0" using assms(1) by (simp add: owned_def)
  show "cell s0 = (cell s)(a \<mapsto> entry s0 p)"
  proof
    fix x show "cell s0 x = ((cell s)(a \<mapsto> entry s0 p)) x"
    proof (cases "x = a \<or> heap s x = None")
      case False
      then obtain q where q: "heap s x = Some q" "x \<noteq> a" by auto
      then have "pa_msg q \<noteq> m \<or> m = None" using new [of _ x] by (cases m) (auto simp: msg_ptr_def)
      then have "entry s0 q = entry s q"
        by (intro entry_cong) (auto simp: s0 msg_text_def split: option.split)
      then show ?thesis using q by (simp add: cell_def s0)
    qed (auto simp: cell_def s0)
  qed
qed

section \<open>The walks\<close>

lemma drop_loop_spec:
  assumes "pwf s (as @ bs)"
  shows "\<exists>s'. drop_loop f (slot as) s = Some s' \<and>
      pwf s' (as @ filter (\<lambda>b. map_option pa_fd (cell s b) \<noteq> Some f) bs) \<and>
      cell s' = (\<lambda>x. if x \<in> set bs \<and> map_option pa_fd (cell s x) = Some f then None else cell s x)"
  using assms
proof (induction bs arbitrary: as s)
  case Nil
  then show ?case using pwf_at(1) [OF Nil] by (simp add: drop_loop.simps)
next
  case (Cons b bs)
  obtain p where p: "heap s b = Some p" "cell s b = Some (entry s p)" using pwf_at(2) [OF Cons.prems] by auto
  note at = pwf_at(1) [OF Cons.prems]
  have b: "b \<notin> set bs" using Cons.prems by (simp add: pwf_def)
  show ?case
  proof (cases "pa_fd p = f")
    case True
    obtain s1 where s1: "drop_entry (slot as) b p s = Some s1" and u: "pwf s1 (as @ bs)" "cell s1 = (cell s)(b := None)"
      using unlink [OF Cons.prems p(1)] by blast
    have same: "filter (\<lambda>b. map_option pa_fd (cell s1 b) \<noteq> Some f) bs =
        filter (\<lambda>b. map_option pa_fd (cell s b) \<noteq> Some f) bs"
      using b by (intro filter_cong) (auto simp: u(2))
    have "drop_loop f (slot as) s = drop_loop f (slot as) s1"
      using True p at s1 by (simp add: drop_loop.simps [of f "slot as" s])
    then show ?thesis
      using Cons.IH [OF u(1)] True p b unfolding same by (auto simp: u(2) fun_eq_iff)
  next
    case False
    have "drop_loop f (slot as) s = drop_loop f (slot (as @ [b])) s"
      using False p at by (simp add: drop_loop.simps [of f "slot as" s])
    then show ?thesis
      using Cons.IH [of s "as @ [b]"] Cons.prems False p by (auto simp: fun_eq_iff)
  qed
qed

section \<open>The same on lists\<close>

definition keep :: "pending_msg \<Rightarrow> bool" where
  "keep e \<longleftrightarrow> \<not> acked e \<and> retries e < MAX_RETRIES"

definition due :: "int \<Rightarrow> pending_msg \<Rightarrow> bool" where
  "due now e \<longleftrightarrow> TIMEOUT_SEC \<le> now - last_sent e"

definition bump :: "int \<Rightarrow> pending_msg \<Rightarrow> pending_msg" where
  "bump now e = (if due now e then e\<lparr>last_sent := now, retries := retries e + 1\<rparr> else e)"

definition abs_pass :: "int \<Rightarrow> pending_msg list \<Rightarrow> pending_msg list" where
  "abs_pass now es = map (bump now) (filter keep es)"

definition resent :: "int \<Rightarrow> pending_msg list \<Rightarrow> pending_msg list" where
  "resent now es = filter (due now) (filter keep es)"

fun send_all :: "pending_msg list \<Rightarrow> SgTcpServer \<Rightarrow> SgTcpServer option" where
  "send_all [] srv = Some srv"
| "send_all (e # es) srv =
     (case pa_msg e of
        None \<Rightarrow> None
      | Some t \<Rightarrow>
          (case SgTcpServer_send srv (pa_fd e) t (pa_len e) of
             None \<Rightarrow> None | Some srv' \<Rightarrow> send_all es srv'))"

fun ack_first :: "fd \<Rightarrow> int32 \<Rightarrow> pending_msg list \<Rightarrow> pending_msg list" where
  "ack_first f bc [] = []"
| "ack_first f bc (e # es) =
     (if pa_fd e = f \<and> pa_bincount e = bc then e\<lparr>acked := True\<rparr> # es else e # ack_first f bc es)"

definition abs_add :: "pending_msg \<Rightarrow> pending_msg list \<Rightarrow> pending_msg list" where
  "abs_add e es = e # filter (\<lambda>x. pa_fd x \<noteq> pa_fd e) es"

text \<open>The new entry; \<open>without_text\<close> is what it is when \<open>strdup\<close> has failed.\<close>

definition new_entry :: "fd \<Rightarrow> string \<Rightarrow> int32 \<Rightarrow> int \<Rightarrow> pending_msg" where
  "new_entry f str bc now =
     \<lparr>pa_fd = f, pa_msg = Some (cstr str), pa_len = length (cstr str), last_sent = now, retries = 0,
      acked = False, pa_bincount = bc, nxt = None\<rparr>"

definition without_text :: "bool \<Rightarrow> pending_msg \<Rightarrow> pending_msg" where
  "without_text dup_failed e = (if dup_failed then e\<lparr>pa_msg := None\<rparr> else e)"

lemma without_text_simps [simp]:
  "pa_fd (without_text b e) = pa_fd e" "retries (without_text b e) = retries e"
  "pa_len (without_text b e) = pa_len e" "without_text False e = e"
  "pa_msg (without_text b e) = (if b then None else pa_msg e)"
  by (simp_all add: without_text_def)

lemma resend_loop_spec:
  assumes "pwf s (as @ bs)"
  shows "map_option fst (resend_loop now (slot as) (srv, s)) = send_all (resent now (map (ent s) bs)) srv \<and>
     (\<forall>srv' s'. resend_loop now (slot as) (srv, s) = Some (srv', s') \<longrightarrow>
        pwf s' (as @ filter (\<lambda>b. keep (ent s b)) bs) \<and>
        cell s' = (\<lambda>x. if x \<in> set bs then if keep (ent s x) then Some (bump now (ent s x)) else None
                       else cell s x))"
  using assms
proof (induction bs arbitrary: as s srv)
  case Nil
  then show ?case using pwf_at(1) [OF Nil] by (simp add: resend_loop.simps resent_def)
next
  case (Cons b bs)
  obtain p where p: "heap s b = Some p" "cell s b = Some (entry s p)"
    using pwf_at(2) [OF Cons.prems] by auto
  have e: "ent s b = entry s p" by (simp add: ent_def p)
  note at = pwf_at(1) [OF Cons.prems]
  have b: "b \<notin> set bs" using Cons.prems by (simp add: pwf_def)
  have step: "map_option fst (resend_loop now (slot cs) (v, s1)) = send_all (resent now (map (ent s) bs)) v \<and>
     (\<forall>srv' s'. resend_loop now (slot cs) (v, s1) = Some (srv', s') \<longrightarrow>
        pwf s' (cs @ filter (\<lambda>b. keep (ent s b)) bs) \<and>
        cell s' = (\<lambda>x. if x \<in> set (b # bs) then if keep (ent s x) then Some (bump now (ent s x)) else None
                       else cell s x))"
    if "pwf s1 (cs @ bs)" "cell s1 = (cell s)(b := w)"
      "w = (if keep (ent s b) then Some (bump now (ent s b)) else None)"
    for s1 cs v w
  proof -
    have eq: "ent s1 x = ent s x" if "x \<in> set bs" for x
      using that b \<open>cell s1 = (cell s)(b := w)\<close> by (auto simp: ent_def)
    then have m: "map (ent s1) bs = map (ent s) bs"
        "filter (\<lambda>b. keep (ent s1 b)) bs = filter (\<lambda>b. keep (ent s b)) bs"
      by (auto intro!: filter_cong)
    have "(\<lambda>x. if x \<in> set bs then if keep (ent s1 x) then Some (bump now (ent s1 x)) else None else cell s1 x) =
        (\<lambda>x. if x \<in> set (b # bs) then if keep (ent s x) then Some (bump now (ent s x)) else None else cell s x)"
      using eq that(2,3) b by (auto simp: fun_eq_iff)
    then show ?thesis
      using Cons.IH [OF that(1), of v] unfolding m by simp
  qed
  show ?case
  proof (cases "acked p \<or> MAX_RETRIES \<le> retries p")
    case True
    obtain s1 where s1: "drop_entry (slot as) b p s = Some s1" and u: "pwf s1 (as @ bs)" "cell s1 = (cell s)(b := None)"
      using unlink [OF Cons.prems p(1)] by blast
    have k: "\<not> keep (ent s b)" using True e by (auto simp: keep_def)
    have "resend_loop now (slot as) (srv, s) = resend_loop now (slot as) (srv, s1)"
      using True p at s1 by (simp add: resend_loop.simps [of now "slot as" "(srv, s)"])
    moreover have "resent now (map (ent s) (b # bs)) = resent now (map (ent s) bs)"
      using k by (simp add: resent_def)
    ultimately show ?thesis
      using step [OF u, of srv] k by simp
  next
    case stay: False
    then have k: "keep (ent s b)" using e by (auto simp: keep_def)
    show ?thesis
    proof (cases "due now (ent s b)")
      case True
      then have d: "TIMEOUT_SEC \<le> now - last_sent p" by (simp add: due_def e)
      have r: "resent now (map (ent s) (b # bs)) = entry s p # resent now (map (ent s) bs)"
        using k True by (simp add: resent_def e)
      define p' where "p' = p\<lparr>last_sent := now, retries := retries p + 1\<rparr>"
      define s1 where "s1 = s\<lparr>heap := (heap s)(b \<mapsto> p')\<rparr>"
      have c: "pwf s1 ((as @ [b]) @ bs)" "cell s1 = (cell s)(b \<mapsto> entry s p')"
        using change_entry [OF Cons.prems p(1), of p'] by (simp_all add: p'_def s1_def)
      have l: "resend_loop now (slot as) (srv, s) =
          (case msg_text s (pa_msg p) of None \<Rightarrow> None | Some t \<Rightarrow>
           (case SgTcpServer_send srv (pa_fd p) t (pa_len p) of None \<Rightarrow> None
            | Some srv1 \<Rightarrow> resend_loop now (slot (as @ [b])) (srv1, s1)))"
        using stay d p at
        by (simp add: resend_loop.simps [of now "slot as" "(srv, s)"] s1_def p'_def split: option.split)
      have "entry s p' = bump now (ent s b)" using True by (simp add: bump_def e p'_def)
      then show ?thesis
        using step [OF c] k unfolding l r by (simp split: option.split)
    next
      case False
      have w: "cell s b = Some (bump now (ent s b))" using False p e by (simp add: bump_def)
      have "resend_loop now (slot as) (srv, s) = resend_loop now (slot (as @ [b])) (srv, s)"
        using stay False p at by (simp add: resend_loop.simps [of now "slot as" "(srv, s)"] due_def e)
      moreover have "resent now (map (ent s) (b # bs)) = resent now (map (ent s) bs)"
        using False by (simp add: resent_def)
      moreover have "cell s = (cell s)(b := cell s b)" by (rule fun_upd_triv [symmetric])
      note step [of s "as @ [b]", OF _ this, of srv]
      ultimately show ?thesis using k w Cons.prems by simp
    qed
  qed
qed

lemma mark_loop_spec:
  assumes "pwf s (as @ bs)" "q = (case bs of [] \<Rightarrow> None | b # _ \<Rightarrow> Some b)"
  shows "\<exists>s'. mark_loop f bc q s = Some s' \<and> pwf s' (as @ bs) \<and> dom (heap s') = dom (heap s) \<and>
     map (ent s') bs = ack_first f bc (map (ent s) bs) \<and> (\<forall>x. x \<notin> set bs \<longrightarrow> cell s' x = cell s x)"
  using assms
proof (induction bs arbitrary: as q)
  case Nil
  then show ?case by (simp add: mark_loop.simps)
next
  case (Cons b bs)
  obtain p where p: "heap s b = Some p" "cell s b = Some (entry s p)"
    using pwf_at(2) [OF Cons.prems(1)] by auto
  have e: "ent s b = entry s p" by (simp add: ent_def p)
  have b: "b \<notin> set bs" using Cons.prems(1) by (simp add: pwf_def)
  show ?case
  proof (cases "pa_fd p = f \<and> pa_bincount p = bc")
    case True
    define s1 where "s1 = s\<lparr>heap := (heap s)(b \<mapsto> p\<lparr>acked := True\<rparr>)\<rparr>"
    have c: "pwf s1 (as @ b # bs)" "cell s1 = (cell s)(b \<mapsto> (entry s p)\<lparr>acked := True\<rparr>)"
      using change_entry [OF Cons.prems(1) p(1), of "p\<lparr>acked := True\<rparr>"] by (simp_all add: s1_def)
    have "mark_loop f bc q s = Some s1"
      using True p Cons.prems(2) by (simp add: mark_loop.simps [of _ _ "Some b"] s1_def)
    moreover have "map (ent s1) (b # bs) = ack_first f bc (map (ent s) (b # bs))"
      using True b e by (auto simp: ent_def c(2))
    moreover have "dom (heap s1) = dom (heap s)" using p(1) by (auto simp: s1_def)
    ultimately show ?thesis using c by auto
  next
    case False
    have nx: "nxt p = (case bs of [] \<Rightarrow> None | b # _ \<Rightarrow> Some b)"
      using Cons.prems(1) p(1) by (cases bs) (auto simp: pwf_def path_append)
    have "mark_loop f bc q s = mark_loop f bc (nxt p) s"
      by (subst mark_loop.simps) (use False p Cons.prems(2) in auto)
    moreover obtain s' where s': "mark_loop f bc (nxt p) s = Some s'" "pwf s' ((as @ [b]) @ bs)"
      "dom (heap s') = dom (heap s)" "map (ent s') bs = ack_first f bc (map (ent s) bs)"
      "\<forall>x. x \<notin> set bs \<longrightarrow> cell s' x = cell s x"
      using Cons.IH [of "as @ [b]" "nxt p"] Cons.prems(1) nx by auto
    moreover have "ent s' b = ent s b" using s'(5) b by (simp add: ent_def)
    ultimately show ?thesis using False b e by auto
  qed
qed

section \<open>Operations and lists\<close>

lemma dom_cell: "dom (heap s) = dom (cell s)"
  by (auto simp: cell_def)

lemma add_pending_abs:
  assumes "pend_abs s es" "heap s a = None" "\<forall>b. m = Some b \<longrightarrow> msgs s b = None"
  shows "\<exists>s'. add_pending f str bc now (Some a, m) s = Some s' \<and>
    pend_abs s' (abs_add (without_text (m = None) (new_entry f str bc now)) es)"
proof -
  obtain as where as: "pwf s as" "dom (heap s) = set as" "es = map (ent s) as"
    using assms(1) by (auto simp: pend_abs_def)
  have a: "a \<notin> set as" using as(2) assms(2) by auto
  define p where "p = \<lparr>pa_fd = f, pa_msg = m, pa_len = length (cstr str), last_sent = now, retries = 0,
      acked = False, pa_bincount = bc, nxt = None\<rparr>"
  define s0 where "s0 = s\<lparr>heap := (heap s)(a \<mapsto> p),
      msgs := (case m of None \<Rightarrow> msgs s | Some b \<Rightarrow> (msgs s)(b \<mapsto> cstr str))\<rparr>"
  define e where "e = without_text (m = None) (new_entry f str bc now)"
  have "owned s" using as(1) by (simp add: pwf_def)
  note al = alloc_owned [OF this assms(2,3) _ s0_def]
  have ep: "entry s0 p = e" "pa_fd e = f" by (auto simp: entry_def p_def e_def msg_text_def s0_def without_text_def new_entry_def)
  have s0: "pwf s0 ([] @ as)" "cell s0 = (cell s)(a \<mapsto> e)"
    using as(1) a al ep by (auto simp: pwf_def s0_def p_def)
  have out: "b \<in> set as" if "cell s b = Some y" for b y
    using as(2) that by (auto simp: cell_def dom_def)
  have inst: "\<forall>b \<in> set as. cell s b = Some (ent s b)"
    using as(2) by (force simp: ent_def cell_def dom_def)
  obtain s1 where s1: "drop_loop f Head s0 = Some s1"
      "pwf s1 (filter (\<lambda>b. map_option pa_fd (cell s0 b) \<noteq> Some f) as)"
      "cell s1 = (\<lambda>x. if x \<in> set as \<and> map_option pa_fd (cell s0 x) = Some f then None else cell s0 x)"
    using drop_loop_spec [OF s0(1), of f] by auto
  define bs where "bs = filter (\<lambda>b. map_option pa_fd (cell s0 b) \<noteq> Some f) as"
  have bs: "bs = filter (\<lambda>b. pa_fd (ent s b) \<noteq> f) as" "a \<notin> set bs"
    using a inst by (auto simp: bs_def s0(2) intro!: filter_cong)
  have c1: "cell s1 a = Some e" using s1(3) a s0(2) by simp
  then obtain p1 where p1: "heap s1 a = Some p1" by (auto simp: cell_def)
  define s2 where "s2 = write_link Head (Some a) (write_link (Next a) (pending_head s1) s1)"
  have c2: "cell s2 = cell s1" by (simp add: s2_def)
  have "owned s2" using s1(2) by (simp add: s2_def pwf_def)
  then have w2: "pwf s2 (a # bs)"
    using s1(2) [folded bs_def] bs(2) p1 by (auto simp: s2_def write_link_def pwf_def)
  have "add_pending f str bc now (Some a, m) s = Some s2"
    using s1(1) by (simp add: add_pending_def s2_def s0_def p_def)
  moreover have "dom (heap s2) = set (a # bs)"
  proof -
    have "x \<in> dom (cell s1) \<longleftrightarrow> x \<in> set (a # bs)" for x
    proof (cases "x \<in> set as")
      case True
      then have "x \<noteq> a" "cell s x = Some (ent s x)" using a inst by auto
      then show ?thesis using True by (simp add: s1(3) s0(2) bs(1) dom_def)
    next
      case False
      then have "cell s x = None" using out [of x] by (cases "cell s x") auto
      then show ?thesis using False by (simp add: s1(3) s0(2) bs(1) dom_def)
    qed
    then show ?thesis unfolding dom_cell c2 by blast
  qed
  moreover have "map (ent s2) (a # bs) = abs_add e es"
  proof -
    have "ent s2 a = e" using c1 by (simp add: ent_def c2)
    moreover have "ent s2 b = ent s b" if "b \<in> set bs" for b
    proof -
      have "b \<in> set as" "b \<noteq> a" "pa_fd (ent s b) \<noteq> f" using that bs by auto
      then have "cell s2 b = Some (ent s b)" using inst by (simp add: c2 s1(3) s0(2))
      then show ?thesis by (simp add: ent_def [of s2])
    qed
    ultimately show ?thesis
      by (simp add: abs_add_def as(3) bs(1) filter_map comp_def ep(2))
  qed
  ultimately show ?thesis using w2 unfolding pend_abs_def e_def by metis
qed

lemma ack_pass_abs:
  assumes "pend_abs s es"
  shows "map_option fst (ack_pass now (srv, s)) = send_all (resent now es) srv"
    and "ack_pass now (srv, s) = Some (srv', s') \<Longrightarrow> pend_abs s' (abs_pass now es)"
proof -
  obtain as where as: "pwf s as" "dom (heap s) = set as" "es = map (ent s) as"
    using assms by (auto simp: pend_abs_def)
  note loop = resend_loop_spec [of s "[]" as now srv, simplified, OF as(1)]
  show "map_option fst (ack_pass now (srv, s)) = send_all (resent now es) srv"
    using loop by (simp add: ack_pass_def as(3))
  assume "ack_pass now (srv, s) = Some (srv', s')"
  then have s': "pwf s' (filter (\<lambda>b. keep (ent s b)) as)"
      "cell s' = (\<lambda>x. if x \<in> set as then if keep (ent s x) then Some (bump now (ent s x)) else None
                     else cell s x)"
    using loop by (auto simp: ack_pass_def)
  have "dom (heap s') = set (filter (\<lambda>b. keep (ent s b)) as)"
    unfolding dom_cell s'(2) using as(2) by (auto simp: dom_cell [of s] split: if_splits)
  moreover have "abs_pass now es = map (ent s') (filter (\<lambda>b. keep (ent s b)) as)"
    by (auto simp: abs_pass_def as(3) filter_map comp_def ent_def [of s'] s'(2))
  ultimately show "pend_abs s' (abs_pass now es)" using s' by (auto simp: pend_abs_def)
qed

lemma mark_acked_abs:
  assumes "pend_abs s es"
  shows "\<exists>s'. mark_acked f bc s = Some s' \<and> pend_abs s' (ack_first f bc es)"
proof -
  obtain as where as: "pwf s as" "dom (heap s) = set as" "es = map (ent s) as"
    using assms(1) by (auto simp: pend_abs_def)
  have "pending_head s = (case as of [] \<Rightarrow> None | b # _ \<Rightarrow> Some b)"
    using as(1) by (cases as) (auto simp: pwf_def)
  then obtain s' where "mark_loop f bc (pending_head s) s = Some s'" "pwf s' as"
      "dom (heap s') = set as" "map (ent s') as = ack_first f bc es"
    using mark_loop_spec [of s "[]" as "pending_head s" f bc] as by auto
  then show ?thesis
    unfolding mark_acked_def pend_abs_def by metis
qed

section \<open>Sending several messages\<close>

definition wire :: "pending_msg \<Rightarrow> SgTcpMessage" where
  "wire e = msg_for (the (pa_msg e)) (pa_len e) (pa_fd e)"

lemma send_all_append:
  "send_all (xs @ ys) srv = (case send_all xs srv of None \<Rightarrow> None | Some srv' \<Rightarrow> send_all ys srv')"
  by (induction xs arbitrary: srv) (auto split: option.split)

lemma send_all_cases:
  "tcp_inv srv \<Longrightarrow>
    (case send_all es srv of
       None \<Rightarrow> cap (send_q srv) < cnt (send_q srv) + length es \<or> (\<exists>e \<in> set es. pa_msg e = None)
     | Some srv' \<Rightarrow> cnt (send_q srv) + length es \<le> cap (send_q srv) \<and> (\<forall>e \<in> set es. pa_msg e \<noteq> None) \<and>
         tcp_inv srv' \<and> srv' = srv\<lparr>send_q := send_q srv'\<rparr> \<and> cap (send_q srv') = cap (send_q srv) \<and>
         rb_list (send_q srv') = rb_list (send_q srv) @ map wire es)"
proof (induction es arbitrary: srv)
  case (Cons e es)
  show ?case
  proof (cases "cnt (send_q srv) < cap (send_q srv) \<and> pa_msg e \<noteq> None")
    case True
    then obtain t where t: "pa_msg e = Some t" and room: "cnt (send_q srv) < cap (send_q srv)" by auto
    define srv1 where "srv1 = srv\<lparr>send_q := rb_put (send_q srv) (wire e)\<rparr>"
    have s1: "SgTcpServer_send srv (pa_fd e) t (pa_len e) = Some srv1"
      using room t by (simp add: send_cases [OF Cons.prems] srv1_def wire_def)
    have i1: "tcp_inv srv1" "rb_list (send_q srv1) = rb_list (send_q srv) @ [wire e]"
      "cap (send_q srv1) = cap (send_q srv)" "cnt (send_q srv1) = cnt (send_q srv) + 1"
      using send_inv [OF Cons.prems room, of "wire e"] by (simp_all add: srv1_def)
    have "srv\<lparr>send_q := q\<rparr> = srv1\<lparr>send_q := q\<rparr>" for q by (simp add: srv1_def)
    then show ?thesis
      using Cons.IH [OF i1(1)] i1 s1 t by (auto split: option.splits)
  qed (auto simp: send_cases [OF Cons.prems] split: option.split)
qed (simp add: tcp_inv_def rb_inv_def)

lemma send_all_room:
  assumes "tcp_inv srv" "cnt (send_q srv) + length es \<le> cap (send_q srv)" "\<forall>e \<in> set es. pa_msg e \<noteq> None"
  shows "\<exists>srv'. send_all es srv = Some srv'"
  using send_all_cases [OF assms(1), of es] assms(2,3) by (auto split: option.splits)

section \<open>Properties\<close>

definition no_pending :: pend where
  "no_pending = \<lparr>pending_head = None, heap = (\<lambda>_. None), msgs = (\<lambda>_. None)\<rparr>"

lemma no_pending_abs: "pend_abs no_pending []"
proof -
  have "msg_ptr no_pending = (\<lambda>_. None)" by (simp add: msg_ptr_def no_pending_def fun_eq_iff)
  then have "pwf no_pending []" by (simp add: pwf_def owned_def) (simp add: no_pending_def)
  then show ?thesis unfolding pend_abs_def by (intro exI [of _ "[]"]) (simp add: no_pending_def)
qed

text \<open>The blocks that are allocated, and those the list accounts for.\<close>

definition entry_blocks :: "pend \<Rightarrow> nat" where "entry_blocks s = card (dom (heap s))"
definition msg_blocks :: "pend \<Rightarrow> nat" where "msg_blocks s = card (dom (msgs s))"

lemma pend_abs_blocks:
  assumes "pend_abs s es"
  shows "finite (dom (heap s))" "finite (dom (msgs s))" "entry_blocks s = length es"
    "msg_blocks s = length (filter (\<lambda>e. pa_msg e \<noteq> None) es)"
proof -
  obtain as where as: "pwf s as" "dom (heap s) = set as" "es = map (ent s) as"
    using assms by (auto simp: pend_abs_def)
  show fin: "finite (dom (heap s))" and "entry_blocks s = length es"
    using as by (simp_all add: entry_blocks_def pwf_def distinct_card)
  have own: "dom (msgs s) = ran (msg_ptr s)" "inj_on (msg_ptr s) (dom (msg_ptr s))"
    using as(1) by (simp_all add: pwf_def owned_def)
  have sub: "dom (msg_ptr s) \<subseteq> dom (heap s)" by (auto simp: msg_ptr_def split: Option.bind_splits)
  have img: "Some ` ran (msg_ptr s) = msg_ptr s ` dom (msg_ptr s)" by (force simp: ran_def dom_def)
  have "finite (msg_ptr s ` dom (msg_ptr s))" using fin sub by (metis finite_imageI finite_subset)
  then show "finite (dom (msgs s))" unfolding own(1) img [symmetric] by (simp add: finite_image_iff)
  have "pa_msg (ent s a) \<noteq> None \<longleftrightarrow> a \<in> dom (msg_ptr s)" if a: "a \<in> set as" for a
  proof -
    obtain p where p: "heap s a = Some p" using a as(2) by auto
    then have "m \<in> dom (msgs s)" if "pa_msg p = Some m" for m
      using that p own(1) ranI [of "msg_ptr s" a m] by (simp add: msg_ptr_def)
    then show ?thesis using p by (cases "pa_msg p") (auto simp: ent_def cell_def msg_text_def msg_ptr_def)
  qed
  then have "set (filter (\<lambda>a. pa_msg (ent s a) \<noteq> None) as) = dom (msg_ptr s)" using sub as(2) by auto
  moreover have "distinct (filter (\<lambda>a. pa_msg (ent s a) \<noteq> None) as)" using as(1) by (simp add: pwf_def)
  ultimately have "card (dom (msg_ptr s)) = length (filter (\<lambda>a. pa_msg (ent s a) \<noteq> None) as)"
    by (metis distinct_card)
  moreover have "card (ran (msg_ptr s)) = card (dom (msg_ptr s))"
    using card_image [OF own(2)] card_image [of Some "ran (msg_ptr s)"] by (simp add: img)
  ultimately show "msg_blocks s = length (filter (\<lambda>e. pa_msg e \<noteq> None) es)"
    by (simp add: msg_blocks_def own(1) as(3) filter_map comp_def)
qed

text \<open>
  C9: the pointer walks implement the operations on lists, whatever the heap holds: adding a
  message drops the older ones of its client and puts it first, without its text when
  \<open>strdup\<close> fails, and uses \<open>NULL\<close> when \<open>calloc\<close> does; an acknowledgement marks the first
  entry with its client and count; a pass of the resend thread drops what is acknowledged or
  used up and resends the rest when due, in order, and does not complete only when the send
  queue is full or a due message has no text. Every walk ends, nothing freed is used, nothing
  is freed twice, no entry and no text leaks.
\<close>

theorem pending_ops_refine:
  assumes s: "pend_abs s es"
  shows "(heap s a = None \<and> (\<forall>b. m = Some b \<longrightarrow> msgs s b = None) \<longrightarrow>
        (\<exists>s'. add_pending f str bc now (Some a, m) s = Some s' \<and>
           pend_abs s' (abs_add (without_text (m = None) (new_entry f str bc now)) es))) \<and>
    add_pending f str bc now (None, m) s = None \<and>
    (\<exists>s'. mark_acked f bc s = Some s' \<and> pend_abs s' (ack_first f bc es)) \<and>
    map_option fst (ack_pass now (srv, s)) = send_all (resent now es) srv \<and>
    (\<forall>srv' s'. ack_pass now (srv, s) = Some (srv', s') \<longrightarrow> pend_abs s' (abs_pass now es))"
proof (intro conjI)
  show "add_pending f str bc now (None, m) s = None" by (simp add: add_pending_def)
qed (use add_pending_abs [OF s, of a m f str bc now] mark_acked_abs [OF s, of f bc]
    ack_pass_abs [OF s, of now srv] in blast)+

lemma add_first:
  "\<exists>s1. add_pending f str bc now (Some a, Some b) no_pending = Some s1 \<and> pend_abs s1 [new_entry f str bc now]"
  using add_pending_abs [OF no_pending_abs, of a "Some b" f str bc now]
  by (auto simp: no_pending_def abs_add_def)

theorem pending_ops_refine_witness:
  "\<exists>s1 s2 s3. add_pending 7 ''hi'' 5 100 (Some 1, Some 9) no_pending = Some s1 \<and>
     pend_abs s1 [new_entry 7 ''hi'' 5 100] \<and>
     mark_acked 7 5 s1 = Some s2 \<and> pend_abs s2 [(new_entry 7 ''hi'' 5 100)\<lparr>acked := True\<rparr>] \<and>
     ack_pass 200 (example_srv, s2) = Some (example_srv, s3) \<and> pend_abs s3 []"
proof -
  have h: "heap no_pending 1 = None" "msgs no_pending 9 = None" by (simp_all add: no_pending_def)
  obtain s1 where s1: "add_pending 7 ''hi'' 5 100 (Some 1, Some 9) no_pending = Some s1"
      "pend_abs s1 [new_entry 7 ''hi'' 5 100]"
    using conjunct1 [OF pending_ops_refine [OF no_pending_abs, of 1 "Some 9" 7 "''hi''" 5 100]] h
    by (auto simp: abs_add_def)
  obtain s2 where s2: "mark_acked 7 5 s1 = Some s2" "pend_abs s2 [(new_entry 7 ''hi'' 5 100)\<lparr>acked := True\<rparr>]"
    using conjunct1 [OF conjunct2 [OF conjunct2 [OF pending_ops_refine [OF s1(2), of _ _ 7 _ 5]]]]
    by (auto simp: new_entry_def)
  have e: "resent 200 [(new_entry 7 ''hi'' 5 100)\<lparr>acked := True\<rparr>] = []"
      "abs_pass 200 [(new_entry 7 ''hi'' 5 100)\<lparr>acked := True\<rparr>] = []"
    by (simp_all add: resent_def abs_pass_def keep_def)
  obtain s3 where "ack_pass 200 (example_srv, s2) = Some (example_srv, s3)" "pend_abs s3 []"
    using conjunct2 [OF conjunct2 [OF conjunct2 [OF pending_ops_refine [OF s2(2), of _ _ _ _ _ 200 example_srv]]]]
    unfolding e by auto
  then show ?thesis using s1 s2 by blast
qed

text \<open>Steps of the threads that share the list; the last one is all the others do to the server.\<close>

inductive pend_step :: "SgTcpServer \<times> pend \<Rightarrow> SgTcpServer \<times> pend \<Rightarrow> bool" where
  Add: "heap s a = None \<Longrightarrow> \<forall>b. m = Some b \<longrightarrow> msgs s b = None \<Longrightarrow>
    add_pending f str bc now (Some a, m) s = Some s' \<Longrightarrow> pend_step (srv, s) (srv, s')"
| Ack: "mark_acked f bc s = Some s' \<Longrightarrow> pend_step (srv, s) (srv, s')"
| Pass: "ack_pass now (srv, s) = Some st \<Longrightarrow> pend_step (srv, s) st"
| Other: "pend_step (srv, s) (srv', s)"

inductive_cases pend_stepE: "pend_step st st'"

definition pend_good :: "pending_msg list \<Rightarrow> bool" where
  "pend_good es \<longleftrightarrow> distinct (map pa_fd es) \<and>
     (\<forall>e \<in> set es. retries e \<le> MAX_RETRIES \<and>
        (\<forall>t. pa_msg e = Some t \<longrightarrow> pa_len e = length t \<and> no_nul t))"

lemma pend_good_add: "pend_good es \<Longrightarrow> pend_good (abs_add (without_text b (new_entry f str bc now)) es)"
  by (auto simp: pend_good_def abs_add_def new_entry_def distinct_map inj_on_def)

lemma pend_good_ack: "pend_good es \<Longrightarrow> pend_good (ack_first f bc es)"
proof -
  have "map pa_fd (ack_first f bc es) = map pa_fd es" by (induction es) auto
  moreover have "\<forall>e \<in> set (ack_first f bc es). \<exists>x \<in> set es. retries e = retries x \<and>
      pa_len e = pa_len x \<and> pa_msg e = pa_msg x"
    by (induction es) auto
  ultimately show "pend_good es \<Longrightarrow> pend_good (ack_first f bc es)" by (fastforce simp: pend_good_def)
qed

lemma bump_simps [simp]:
  "pa_fd (bump now e) = pa_fd e" "pa_msg (bump now e) = pa_msg e" "pa_len (bump now e) = pa_len e"
  "acked (bump now e) = acked e" "retries (bump now e) = retries e + (if due now e then 1 else 0)"
  by (simp_all add: bump_def)

lemma pend_good_pass: "pend_good es \<Longrightarrow> pend_good (abs_pass now es)"
  by (auto simp: pend_good_def abs_pass_def keep_def comp_def distinct_map_filter)

lemma pend_step_inv:
  assumes "pend_step st st'" "\<exists>es. pend_abs (snd st) es \<and> pend_good es"
  shows "\<exists>es. pend_abs (snd st') es \<and> pend_good es"
  using assms
proof (induction rule: pend_step.induct)
  case (Add s a m f str bc now s' srv)
  then obtain es where es: "pend_abs s es" "pend_good es" by auto
  show ?case using add_pending_abs [OF es(1) Add(1,2), of f str bc now] Add(3) pend_good_add [OF es(2)] by auto
next
  case (Ack f bc s s' srv)
  then obtain es where es: "pend_abs s es" "pend_good es" by auto
  show ?case using mark_acked_abs [OF es(1), of f bc] Ack(1) pend_good_ack [OF es(2)] by auto
next
  case (Pass now srv s st)
  then obtain es where es: "pend_abs s es" "pend_good es" by auto
  show ?case using ack_pass_abs(2) [OF es(1), of now srv "fst st" "snd st"] Pass(1) pend_good_pass [OF es(2)] by auto
qed auto

text \<open>
  C29: whatever the threads do and in whatever order, and whichever \<open>strdup\<close> fails, the list
  keeps at most one message for each client, none is resent more than \<^verbatim>\<open>MAX_RETRIES\<close> times, and
  every text is a whole C string with its length. Nothing leaks and nothing is freed early:
  there are as many allocated entries as messages in the list, and as many allocated text
  blocks as messages with a text.
\<close>

theorem pending_invariant:
  assumes "pend_step\<^sup>*\<^sup>* (srv, no_pending) (srv', s)"
  shows "\<exists>es. pend_abs s es \<and> pend_good es \<and> entry_blocks s = length es \<and>
    msg_blocks s = length (filter (\<lambda>e. pa_msg e \<noteq> None) es)"
proof -
  have "\<exists>es. pend_abs (snd st) es \<and> pend_good es" if "pend_step\<^sup>*\<^sup>* (srv, no_pending) st" for st
    using that
  proof (induction rule: rtranclp_induct)
    case base
    show ?case using no_pending_abs by (auto simp: pend_good_def intro!: exI [of _ "[]"])
  next
    case (step y z)
    then show ?case using pend_step_inv by blast
  qed
  then show ?thesis using assms pend_abs_blocks by fastforce
qed

text \<open>A second message for client 7 replaces the first: both blocks of the first are gone.\<close>

theorem pending_invariant_witness:
  "\<exists>s1 s2 es. pend_step\<^sup>*\<^sup>* (example_srv, no_pending) (example_srv, s2) \<and>
     add_pending 7 ''hi'' 5 100 (Some 1, Some 1) no_pending = Some s1 \<and>
     add_pending 7 ''ho'' 6 101 (Some 2, Some 2) s1 = Some s2 \<and>
     pend_abs s2 es \<and> pend_good es \<and> entry_blocks s2 = 1 \<and> msg_blocks s2 = 1"
proof -
  have h: "heap no_pending 1 = None" "\<forall>b. Some 1 = Some b \<longrightarrow> msgs no_pending b = None"
    by (simp_all add: no_pending_def)
  obtain s1 where s1: "add_pending 7 ''hi'' 5 100 (Some 1, Some 1) no_pending = Some s1"
      "pend_abs s1 [new_entry 7 ''hi'' 5 100]" using add_first by blast
  have h2: "heap s1 2 = None" "\<forall>b. Some 2 = Some b \<longrightarrow> msgs s1 b = None"
    using s1(1) by (auto simp: add_pending_def no_pending_def drop_loop.simps read_link_def write_link_def Let_def)
  obtain s2 where s2: "add_pending 7 ''ho'' 6 101 (Some 2, Some 2) s1 = Some s2"
      "pend_abs s2 [new_entry 7 ''ho'' 6 101]"
    using add_pending_abs [OF s1(2) h2, of 7 "''ho''" 6 101] by (auto simp: abs_add_def new_entry_def)
  have "pend_step\<^sup>*\<^sup>* (example_srv, no_pending) (example_srv, s2)"
    by (rule rtranclp.rtrancl_into_rtrancl [OF r_into_rtranclp [of pend_step, OF pend_step.Add [OF h s1(1)]]])
      (rule pend_step.Add [OF h2 s2(1)])
  from pending_invariant [OF this] obtain es where es: "pend_abs s2 es" "pend_good es"
    "entry_blocks s2 = length es" "msg_blocks s2 = length (filter (\<lambda>e. pa_msg e \<noteq> None) es)" by blast
  moreover have "length es = 1" "length (filter (\<lambda>e. pa_msg e \<noteq> None) es) = 1"
    using pend_abs_blocks(3,4) [OF s2(2)] es(3,4) by (simp_all add: new_entry_def)
  ultimately show ?thesis using \<open>pend_step\<^sup>*\<^sup>* (example_srv, no_pending) (example_srv, s2)\<close> s1(1) s2(1) by auto
qed

section \<open>The resend thread over time\<close>

fun abs_passes :: "int list \<Rightarrow> pending_msg list \<Rightarrow> pending_msg list" where
  "abs_passes [] es = es"
| "abs_passes (now # nows) es = abs_passes nows (abs_pass now es)"

fun sent_over :: "int list \<Rightarrow> pending_msg list \<Rightarrow> pending_msg list" where
  "sent_over [] es = []"
| "sent_over (now # nows) es = resent now es @ sent_over nows (abs_pass now es)"

lemma ack_manager_abs:
  assumes "pend_abs s es"
  shows "map_option fst (ack_manager nows (srv, s)) = send_all (sent_over nows es) srv \<and>
    (\<forall>srv' s'. ack_manager nows (srv, s) = Some (srv', s') \<longrightarrow> pend_abs s' (abs_passes nows es))"
  using assms
proof (induction nows arbitrary: srv s es)
  case (Cons now nows)
  note p = ack_pass_abs [OF Cons.prems, of now srv]
  show ?case
  proof (cases "ack_pass now (srv, s)")
    case None
    then show ?thesis using p(1) by (simp add: send_all_append)
  next
    case (Some st)
    obtain srv1 s1 where st: "st = (srv1, s1)" by (cases st)
    have "send_all (resent now es) srv = Some srv1" "pend_abs s1 (abs_pass now es)"
      using p Some st by auto
    then show ?thesis using Cons.IH [of s1 "abs_pass now es" srv1] Some st by (simp add: send_all_append)
  qed
qed simp

text \<open>How often an entry may still be resent.\<close>

definition budget :: "pending_msg \<Rightarrow> nat" where
  "budget e = (if acked e then 0 else MAX_RETRIES - retries e)"

lemma budget_pass:
  "length (filter P (resent now es)) + sum_list (map budget (filter P (abs_pass now es))) \<le>
     sum_list (map budget (filter P es))"
  if "\<And>e. P (bump now e) = P e"
  using that
  by (induction es) (auto simp: resent_def abs_pass_def keep_def budget_def MAX_RETRIES_def)

lemma budget_over:
  "(\<And>now e. P (bump now e) = P e) \<Longrightarrow>
    length (filter P (sent_over nows es)) \<le> sum_list (map budget (filter P es))"
proof (induction nows arbitrary: es)
  case (Cons now nows)
  then show ?case
    using budget_pass [of P now es] Cons.IH [of "abs_pass now es"] by fastforce
qed simp

lemma sent_from: "x \<in> set (sent_over nows es) \<Longrightarrow> \<exists>e \<in> set es. wire x = wire e \<and> pa_fd x = pa_fd e"
proof (induction nows arbitrary: es)
  case (Cons now nows)
  then show ?case
    by (fastforce simp: resent_def abs_pass_def wire_def)
qed simp

lemma filter_key:
  "distinct (map f xs) \<Longrightarrow> e \<in> set xs \<Longrightarrow> filter (\<lambda>x. f x = f e) xs = [e]"
proof (induction xs)
  case (Cons x xs)
  show ?case
  proof (cases "x = e")
    case True
    then have "\<forall>y \<in> set xs. f y \<noteq> f e" using Cons.prems(1) by (metis distinct.simps(2) image_eqI list.simps(9) set_map)
    then have "filter (\<lambda>x. f x = f e) xs = []" by (simp add: filter_empty_conv)
    then show ?thesis using True by simp
  next
    case False
    then have "e \<in> set xs" "f x \<noteq> f e" using Cons.prems by (auto simp: rev_image_eqI)
    then show ?thesis using Cons by simp
  qed
qed simp

lemma sent_text: "x \<in> set (sent_over nows es) \<Longrightarrow> \<exists>e \<in> set es. pa_msg x = pa_msg e"
proof (induction nows arbitrary: es)
  case (Cons now nows)
  then show ?case by (fastforce simp: resent_def abs_pass_def)
qed simp

lemma sent_from_text:
  "\<forall>e \<in> set es. pa_msg e \<noteq> None \<Longrightarrow> \<forall>x \<in> set (sent_over nows es). pa_msg x \<noteq> None"
  using sent_text by (metis option.distinct(1))

text \<open>
  over any run of the resend thread, what it queues is copies of pending messages for
  their clients, at most \<^verbatim>\<open>MAX_RETRIES\<close> less the retries already made for each, and none for a
  client whose message is acknowledged.
\<close>

theorem resends_bounded:
  assumes "pend_abs s es" "pend_good es" "tcp_inv srv" "ack_manager nows (srv, s) = Some (srv', s')"
  shows "\<exists>ms. rb_list (send_q srv') = rb_list (send_q srv) @ ms \<and> set ms \<subseteq> wire ` set es \<and>
     (\<forall>e \<in> set es. length (filter (\<lambda>m. m_client_fd m = pa_fd e) ms) \<le>
        (if acked e then 0 else MAX_RETRIES - retries e))"
proof (intro exI conjI ballI)
  let ?xs = "sent_over nows es"
  have "send_all ?xs srv = Some srv'" using ack_manager_abs [OF assms(1), of nows srv] assms(4) by auto
  then show "rb_list (send_q srv') = rb_list (send_q srv) @ map wire ?xs"
    using send_all_cases [OF assms(3), of ?xs] by simp
  show "set (map wire ?xs) \<subseteq> wire ` set es" using sent_from by fastforce
  fix e assume e: "e \<in> set es"
  have "filter (\<lambda>x. pa_fd x = pa_fd e) es = [e]"
    using e assms(2) by (intro filter_key) (auto simp: pend_good_def)
  then show "length (filter (\<lambda>m. m_client_fd m = pa_fd e) (map wire ?xs)) \<le>
      (if acked e then 0 else MAX_RETRIES - retries e)"
    using budget_over [of "\<lambda>x. pa_fd x = pa_fd e" nows es]
    by (simp add: filter_map comp_def wire_def msg_for_def budget_def)
qed

lemma example_pending: "\<exists>s. pend_abs s [new_entry 7 ''hi'' 5 100]"
  using add_first by blast

lemma example_pending_good: "pend_good [new_entry 7 ''hi'' 5 100]"
  by (simp add: pend_good_def new_entry_def)

theorem resends_bounded_witness:
  "\<exists>s srv' s' ms. pend_abs s [new_entry 7 ''hi'' 5 100] \<and>
     ack_manager [105, 110] (example_srv, s) = Some (srv', s') \<and>
     rb_list (send_q srv') = rb_list (send_q example_srv) @ ms \<and>
     length (filter (\<lambda>m. m_client_fd m = 7) ms) \<le> 3"
proof -
  obtain s where s: "pend_abs s [new_entry 7 ''hi'' 5 100]" using example_pending by blast
  have "map_option fst (ack_manager [105, 110] (example_srv, s)) \<noteq> None"
    using ack_manager_abs [OF s, of "[105, 110]" example_srv]
      send_all_room [OF example_srv_inv, of "sent_over [105, 110] [new_entry 7 ''hi'' 5 100]"]
    by (auto simp: resent_def abs_pass_def keep_def new_entry_def MAX_RETRIES_def due_def TIMEOUT_SEC_def
        bump_def example_srv_def)
  then obtain srv' s' where m: "ack_manager [105, 110] (example_srv, s) = Some (srv', s')" by auto
  show ?thesis
    using resends_bounded [OF s example_pending_good example_srv_inv m] s m
    by (fastforce simp: new_entry_def MAX_RETRIES_def)
qed

lemma pass_split:
  "length (filter P (resent now es)) + (\<Sum>e\<leftarrow>abs_pass now es. F e) =
     (\<Sum>e\<leftarrow>es. length (filter P (resent now [e])) + (\<Sum>x\<leftarrow>abs_pass now [e]. F x :: nat))"
  by (induction es) (auto simp: resent_def abs_pass_def)

lemma sent_over_split:
  "length (filter P (sent_over nows es)) = (\<Sum>e\<leftarrow>es. length (filter P (sent_over nows [e])))"
proof (induction nows arbitrary: es)
  case (Cons now nows)
  have one: "length (filter P (sent_over nows (abs_pass now xs))) =
      (\<Sum>x\<leftarrow>abs_pass now xs. length (filter P (sent_over nows [x])))" for xs
    by (rule Cons.IH)
  show ?case
    unfolding sent_over.simps filter_append length_append one
    by (rule pass_split)
qed (induction es; simp)

lemma passes_nil [simp]: "abs_pass t [] = []" "resent t [] = []"
  by (simp_all add: abs_pass_def resent_def)

lemma over_nil [simp]: "abs_passes ts [] = []" "sent_over ts [] = []"
  by (induction ts) simp_all

text \<open>One entry at one pass.\<close>

lemma one_pass:
  shows "\<not> keep x \<Longrightarrow> abs_pass t [x] = [] \<and> resent t [x] = []"
    and "keep x \<Longrightarrow> \<not> due t x \<Longrightarrow> abs_pass t [x] = [x] \<and> resent t [x] = []"
    and "keep x \<Longrightarrow> due t x \<Longrightarrow>
      abs_pass t [x] = [x\<lparr>last_sent := t, retries := retries x + 1\<rparr>] \<and> resent t [x] = [x]"
  by (simp_all add: abs_pass_def resent_def bump_def)

lemma budget_keep: "keep x \<longleftrightarrow> budget x \<noteq> 0"
  by (auto simp: keep_def budget_def)

text \<open>
  How many passes an entry can stay for, when the next one comes \<open>w\<close> seconds before it is due
  or later, and each pass is a second or more after the one before.
\<close>

definition passes_needed :: "nat \<Rightarrow> pending_msg \<Rightarrow> nat" where
  "passes_needed w x = (if budget x = 0 then 1 else w + 5 * (budget x - 1) + 2)"

lemma drain_one:
  assumes "sorted_wrt (<) ts" "ts = [] \<or> last_sent x + TIMEOUT_SEC \<le> hd ts + int w" "w \<le> 5"
    and "passes_needed w x \<le> length ts" and P: "\<And>v r y. P (y\<lparr>last_sent := v, retries := r\<rparr>) = P y"
  shows "abs_passes ts [x] = [] \<and> length (filter P (sent_over ts [x])) = (if P x then budget x else 0)"
  using assms(1-4)
proof (induction ts arbitrary: x w)
  case Nil
  then show ?case by (simp add: passes_needed_def split: if_splits)
next
  case (Cons t ts)
  have later: "ts = [] \<or> t + 1 \<le> hd ts" using Cons.prems(1) by (cases ts) auto
  have w: "last_sent x + TIMEOUT_SEC \<le> t + int w" using Cons.prems(2) by simp
  have so: "sorted_wrt (<) ts" using Cons.prems(1) by simp
  consider (drop) "\<not> keep x" | (wait) "keep x" "\<not> due t x" | (send) "keep x" "due t x" by blast
  then show ?case
  proof cases
    case drop
    then show ?thesis using one_pass(1) [OF drop] by (simp add: budget_keep)
  next
    case wait
    then have w0: "w \<noteq> 0" using w by (auto simp: due_def)
    have "ts = [] \<or> last_sent x + TIMEOUT_SEC \<le> hd ts + int (w - 1)" using later w w0 by auto
    moreover have "passes_needed (w - 1) x \<le> length ts"
      using Cons.prems(4) wait(1) w0 by (simp add: passes_needed_def budget_keep)
    ultimately show ?thesis
      using Cons.IH [OF so, where x = x and w = "w - 1"] Cons.prems(3) one_pass(2) [OF wait] by simp
  next
    case send
    define y where "y = x\<lparr>last_sent := t, retries := retries x + 1\<rparr>"
    have b: "budget x = Suc (budget y)" using send(1) by (auto simp: y_def budget_def keep_def)
    have "ts = [] \<or> last_sent y + TIMEOUT_SEC \<le> hd ts + int 4" using later by (auto simp: y_def TIMEOUT_SEC_def)
    moreover have "passes_needed 4 y \<le> length ts"
      using Cons.prems(4) by (auto simp: passes_needed_def b)
    ultimately have "abs_passes ts [y] = []" "length (filter P (sent_over ts [y])) = (if P y then budget y else 0)"
      using Cons.IH [OF so, where x = y and w = 4] by simp_all
    then show ?thesis using one_pass(3) [OF send, folded y_def] b P [of "retries x + 1" t x] by (simp add: y_def)
  qed
qed

lemma abs_passes_split: "abs_passes ts (x # xs) = abs_passes ts [x] @ abs_passes ts xs"
proof -
  have "abs_passes ts (xs @ ys) = abs_passes ts xs @ abs_passes ts ys" for xs ys
    by (induction ts arbitrary: xs ys) (simp_all add: abs_pass_def)
  from this [of "[x]" xs] show ?thesis by simp
qed

text \<open>
  C30: nothing waits for ever. The resend thread passes after every \<^verbatim>\<open>sleep(1)\<close>, so the times of
  its passes go up by a second or more. If no message was sent after the first of them, then
  after seventeen passes or more the list is empty, whatever it held, having resent each
  message that is not acknowledged exactly as often as it had retries left. This is for
  messages whose text could be copied, with room for the copies in the send queue.
\<close>

theorem pending_drains:
  assumes s: "pend_abs s es" and inv: "tcp_inv srv"
    and t: "sorted_wrt (<) nows" "17 \<le> length nows" "\<forall>e \<in> set es. last_sent e \<le> hd nows"
    and texts: "\<forall>e \<in> set es. pa_msg e \<noteq> None"
    and room: "cnt (send_q srv) + 3 * length es \<le> cap (send_q srv)"
  shows "\<exists>srv' s'. ack_manager nows (srv, s) = Some (srv', s') \<and> pend_abs s' [] \<and>
     (\<forall>e \<in> set es. distinct (map pa_fd es) \<longrightarrow>
        length (filter (\<lambda>m. m_client_fd m = pa_fd e) (rb_list (send_q srv'))) =
        length (filter (\<lambda>m. m_client_fd m = pa_fd e) (rb_list (send_q srv))) + budget e)"
proof -
  let ?xs = "sent_over nows es"
  have one: "abs_passes nows [x] = [] \<and> length (filter P (sent_over nows [x])) = (if P x then budget x else 0)"
    if "x \<in> set es" "\<And>v r y. P (y\<lparr>last_sent := v, retries := r\<rparr>) = P y" for x P
    using t that by (intro drain_one [of nows x 5 P])
      (auto simp: TIMEOUT_SEC_def passes_needed_def budget_def MAX_RETRIES_def)
  have "length ?xs \<le> sum_list (map budget es)"
    using budget_over [of "\<lambda>_. True" nows es] by simp
  also have "\<dots> \<le> 3 * length es"
    by (induction es) (auto simp: budget_def MAX_RETRIES_def)
  finally obtain srv' where srv': "send_all ?xs srv = Some srv'"
    using send_all_room [OF inv, of ?xs] room sent_from_text [OF texts] by auto
  then obtain s' where s': "ack_manager nows (srv, s) = Some (srv', s')" "pend_abs s' (abs_passes nows es)"
    using ack_manager_abs [OF s, of nows srv] by auto
  have "abs_passes nows xs = []" if "set xs \<subseteq> set es" for xs
    using that
  proof (induction xs)
    case (Cons x xs)
    then show ?case using one [of x "\<lambda>_. True"] abs_passes_split [of nows x xs] by simp
  qed simp
  then have "abs_passes nows es = []" by blast
  moreover have "length (filter (\<lambda>m. m_client_fd m = pa_fd e) (rb_list (send_q srv'))) =
        length (filter (\<lambda>m. m_client_fd m = pa_fd e) (rb_list (send_q srv))) + budget e"
    if e: "e \<in> set es" "distinct (map pa_fd es)" for e
  proof -
    let ?P = "\<lambda>x. pa_fd x = pa_fd e"
    have "(\<Sum>x\<leftarrow>es. length (filter ?P (sent_over nows [x]))) = (\<Sum>x\<leftarrow>es. if ?P x then budget x else 0)"
      using one [of _ ?P] by (intro arg_cong [of _ _ sum_list] map_cong) auto
    also have "\<dots> = sum_list (map budget (filter ?P es))" by (induction es) auto
    also have "\<dots> = budget e" using filter_key [OF e(2,1)] by simp
    finally have "length (filter ?P ?xs) = budget e" by (simp only: sent_over_split [of ?P nows es])
    then show ?thesis
      using send_all_cases [OF inv, of ?xs] srv'
      by (simp add: filter_map comp_def wire_def msg_for_def)
  qed
  ultimately show ?thesis using s' by metis
qed

text \<open>One pass a second, for twenty seconds.\<close>

theorem pending_drains_witness:
  "\<exists>s srv' s'. pend_abs s [new_entry 7 ''hi'' 5 100] \<and>
     ack_manager [101..120] (example_srv, s) = Some (srv', s') \<and> pend_abs s' [] \<and>
     length (filter (\<lambda>m. m_client_fd m = 7) (rb_list (send_q srv'))) = 3"
proof -
  obtain s where s: "pend_abs s [new_entry 7 ''hi'' 5 100]" using example_pending by blast
  have "rb_list (send_q example_srv) = []" by (simp add: example_srv_def rb_list_def)
  moreover have "budget (new_entry 7 ''hi'' 5 100) = 3" by (simp add: budget_def new_entry_def MAX_RETRIES_def)
  moreover have "sorted_wrt (<) [101..120 :: int]" by simp
  moreover have "hd [101..120 :: int] = 101" by (simp add: upto.simps)
  ultimately show ?thesis
    using pending_drains [OF s example_srv_inv, of "[101..120]"] s
    by (fastforce simp: new_entry_def example_srv_def)
qed

end
