(* ===== verification/ClientProto.thy ===== *)
theory ClientProto
  imports Decimal
begin

text \<open>
  The request parser of \<^verbatim>\<open>sg-comm.c\<close>. The message is the receive buffer, a list of bytes
  of which only the first \<open>r\<close> come from the client; nothing terminates it, so every read
  can run off its end, which is \<open>None\<close>. The count is a 32-bit \<open>int\<close>: the digit loop wraps
  around as the target does (in C the overflow is undefined).
\<close>

section \<open>Model\<close>

datatype MsgType = MSG_UNKNOWN | MSG_BIN_QUERY | MSG_CLR_QUERY | MSG_BIN_ACK

record ClientRequest =
  r_client_fd :: fd
  r_bincount :: int32
  r_message :: string

definition CMD_QUES :: string where "CMD_QUES = ''{BIN?;}''"
definition CMD_CLR :: string where "CMD_CLR = ''{CLR?;}''"
definition CMD_EQL :: string where "CMD_EQL = ''{BIN=''"

fun parse_digits :: "int32 \<Rightarrow> string \<Rightarrow> (int32 \<times> string) option" where
  "parse_digits v [] = None"
| "parse_digits v (c # s) =
     (if is_digit c then parse_digits (v * 10 + of_nat (byte c - 48)) s else Some (v, c # s))"

text \<open>The two characters after the digits.\<close>

definition ack_tail :: "string \<Rightarrow> bool option" where
  "ack_tail p =
     (case p of [] \<Rightarrow> None
      | c # p' \<Rightarrow> if c = CHR '';'' then (case p' of [] \<Rightarrow> None | d # _ \<Rightarrow> Some (d = CHR ''}''))
                 else Some False)"

definition parse_client_request :: "ClientRequest \<Rightarrow> string \<Rightarrow> (MsgType \<times> ClientRequest) option" where
  "parse_client_request req msg =
     (case strncmp_eq msg CMD_QUES 7 of
        None \<Rightarrow> None
      | Some True \<Rightarrow> Some (MSG_BIN_QUERY, req)
      | Some False \<Rightarrow>
     (case strncmp_eq msg CMD_CLR 7 of
        None \<Rightarrow> None
      | Some True \<Rightarrow> Some (MSG_CLR_QUERY, req)
      | Some False \<Rightarrow>
     (case strncmp_eq msg CMD_EQL 5 of
        None \<Rightarrow> None
      | Some False \<Rightarrow> Some (MSG_UNKNOWN, req)
      | Some True \<Rightarrow>
     (case drop 5 msg of
        [] \<Rightarrow> None
      | c # _ \<Rightarrow>
          if \<not> is_digit c then Some (MSG_UNKNOWN, req)
          else (case parse_digits 0 (drop 5 msg) of
                  None \<Rightarrow> None
                | Some (v, p) \<Rightarrow>
                    (case ack_tail p of
                       None \<Rightarrow> None
                     | Some True \<Rightarrow> Some (MSG_BIN_ACK, req\<lparr>r_bincount := v\<rparr>)
                     | Some False \<Rightarrow> Some (MSG_UNKNOWN, req)))))))"

section \<open>Comparing and scanning\<close>

lemmas cmd_facts = CMD_EQL_def CMD_QUES_def CMD_CLR_def

lemma parse_digits_span:
  "\<forall>c \<in> set ds. is_digit c \<Longrightarrow> p = [] \<or> \<not> is_digit (hd p) \<Longrightarrow>
    parse_digits (of_nat v) (ds @ p) =
      (if p = [] then None else Some (of_nat (dec_from v ds), p))"
proof (induction ds arbitrary: v)
  case Nil
  then show ?case by (cases p) auto
next
  case (Cons c ds)
  have "(of_nat v :: int32) * 10 + of_nat (byte c - 48) = of_nat (v * 10 + (byte c - 48))"
    by simp
  with Cons show ?case by (simp del: of_nat_add of_nat_mult of_nat_diff)
qed

lemma digit_split:
  obtains ds p where "s = ds @ p" "\<forall>c \<in> set ds. is_digit c" "p = [] \<or> \<not> is_digit (hd p)"
  using takeWhile_dropWhile_id [of is_digit s] hd_dropWhile [of is_digit s]
  by (metis set_takeWhileD)

lemma parse_ack_body:
  "parse_client_request req (CMD_EQL @ s) =
     (case s of [] \<Rightarrow> None
      | c # _ \<Rightarrow>
          if \<not> is_digit c then Some (MSG_UNKNOWN, req)
          else (case parse_digits 0 s of
                  None \<Rightarrow> None
                | Some (v, p) \<Rightarrow>
                    (case ack_tail p of
                       None \<Rightarrow> None
                     | Some True \<Rightarrow> Some (MSG_BIN_ACK, req\<lparr>r_bincount := v\<rparr>)
                     | Some False \<Rightarrow> Some (MSG_UNKNOWN, req))))"
proof -
  have d: "drop 5 (CMD_EQL @ s) = s" by (simp add: CMD_EQL_def)
  have n: "strncmp_eq (CMD_EQL @ s) CMD_QUES 7 = Some False"
    "strncmp_eq (CMD_EQL @ s) CMD_CLR 7 = Some False"
    "strncmp_eq (CMD_EQL @ s) CMD_EQL 5 = Some True"
    by (simp_all add: cmd_facts numeral_eq_Suc)
  show ?thesis unfolding parse_client_request_def d n by (simp cong: option.case_cong list.case_cong)
qed

lemma parse_digits_zero:
  assumes "\<forall>c \<in> set ds. is_digit c" "p = [] \<or> \<not> is_digit (hd p)"
  shows "parse_digits 0 (ds @ p) =
      (if p = [] then None else Some (of_nat (dec_from 0 ds), p))"
  using parse_digits_span [OF assms, of 0] by simp

lemma parse_ack_ok:
  assumes "ds \<noteq> []" "\<forall>c \<in> set ds. is_digit c"
  shows "parse_client_request req (CMD_EQL @ ds @ '';}'' @ rest) =
         Some (MSG_BIN_ACK, req\<lparr>r_bincount := of_nat (dec_from 0 ds)\<rparr>)"
proof -
  obtain d ds' where ds: "ds = d # ds'" using assms(1) by (cases ds) auto
  have "parse_digits 0 (ds @ '';}'' @ rest) = Some (of_nat (dec_from 0 ds), '';}'' @ rest)"
    using parse_digits_zero [OF assms(2), of "'';}'' @ rest"] by (simp add: is_digit_def)
  then show ?thesis
    using assms(2) unfolding parse_ack_body ds by (simp add: ack_tail_def)
qed

lemma parse_strncmp_true: "no_nul t \<Longrightarrow> length t = n \<Longrightarrow> strncmp_eq s t n = Some True \<longleftrightarrow> take n s = t"
  by (simp add: strncmp_eq_prefix)

lemma parse_clr_first: "strncmp_eq (CMD_CLR @ s) CMD_QUES 7 = Some False"
  by (simp add: cmd_facts numeral_eq_Suc)

text \<open>
  C14: what the request parser accepts, completely: a query or a clear is recognised exactly
  by its seven characters, an acknowledgement exactly when the buffer starts with
  \<^verbatim>\<open>{BIN=\<close>, a non-empty run of decimal digits and \<^verbatim>\<open>;}\<close>, and the count it stores is
  the decimal value modulo 2 to the 32.
\<close>

theorem parse_client_request_spec:
  "(parse_client_request req msg = Some (MSG_BIN_QUERY, req') \<longleftrightarrow>
      take 7 msg = CMD_QUES \<and> req' = req) \<and>
   (parse_client_request req msg = Some (MSG_CLR_QUERY, req') \<longleftrightarrow>
      take 7 msg = CMD_CLR \<and> req' = req) \<and>
   (parse_client_request req msg = Some (MSG_BIN_ACK, req') \<longleftrightarrow>
      (\<exists>ds rest. msg = CMD_EQL @ ds @ '';}'' @ rest \<and> ds \<noteq> [] \<and> (\<forall>c \<in> set ds. is_digit c) \<and>
         req' = req\<lparr>r_bincount := of_nat (dec_from 0 ds)\<rparr>))"
proof (intro conjI)
  have q: "strncmp_eq msg CMD_QUES 7 = Some True \<longleftrightarrow> take 7 msg = CMD_QUES"
    and c: "strncmp_eq msg CMD_CLR 7 = Some True \<longleftrightarrow> take 7 msg = CMD_CLR"
    and e: "strncmp_eq msg CMD_EQL 5 = Some True \<longleftrightarrow> take 5 msg = CMD_EQL"
    by (rule parse_strncmp_true; simp add: cmd_facts)+
  show "parse_client_request req msg = Some (MSG_BIN_QUERY, req') \<longleftrightarrow>
      take 7 msg = CMD_QUES \<and> req' = req"
    unfolding q [symmetric]
    by (auto simp: parse_client_request_def split: option.splits bool.splits list.splits)
  have no_q: "strncmp_eq msg CMD_QUES 7 = Some False" if "take 7 msg = CMD_CLR"
  proof -
    have "msg = CMD_CLR @ drop 7 msg" using that append_take_drop_id [of 7 msg] by simp
    then show ?thesis by (metis (no_types) parse_clr_first)
  qed
  show "parse_client_request req msg = Some (MSG_CLR_QUERY, req') \<longleftrightarrow>
      take 7 msg = CMD_CLR \<and> req' = req"
    unfolding c [symmetric]
    using no_q c
    by (auto simp: parse_client_request_def split: option.splits bool.splits list.splits)
  show "parse_client_request req msg = Some (MSG_BIN_ACK, req') \<longleftrightarrow>
      (\<exists>ds rest. msg = CMD_EQL @ ds @ '';}'' @ rest \<and> ds \<noteq> [] \<and> (\<forall>c \<in> set ds. is_digit c) \<and>
         req' = req\<lparr>r_bincount := of_nat (dec_from 0 ds)\<rparr>)"
  proof
    assume ack: "parse_client_request req msg = Some (MSG_BIN_ACK, req')"
    then have "take 5 msg = CMD_EQL"
      unfolding e [symmetric]
      by (auto simp: parse_client_request_def split: option.splits bool.splits list.splits if_splits)
    then obtain s where msg: "msg = CMD_EQL @ s" by (metis append_take_drop_id)
    obtain ds p where s: "s = ds @ p" and ds: "\<forall>c \<in> set ds. is_digit c" and p: "p = [] \<or> \<not> is_digit (hd p)"
      by (rule digit_split)
    have "ds \<noteq> []"
      using ack p unfolding msg parse_ack_body s
      by (cases ds; cases p) (auto split: option.splits bool.splits if_splits)
    moreover have "ack_tail p = Some True \<and> req' = req\<lparr>r_bincount := of_nat (dec_from 0 ds)\<rparr>"
      using ack unfolding msg parse_ack_body s parse_digits_zero [OF ds p]
      by (auto split: option.splits bool.splits if_splits list.splits)
    moreover from this obtain rest where "p = '';}'' @ rest"
      by (auto simp: ack_tail_def split: list.splits if_splits)
    ultimately show "\<exists>ds rest. msg = CMD_EQL @ ds @ '';}'' @ rest \<and> ds \<noteq> [] \<and>
        (\<forall>c \<in> set ds. is_digit c) \<and> req' = req\<lparr>r_bincount := of_nat (dec_from 0 ds)\<rparr>"
      using msg s ds by auto
  next
    assume "\<exists>ds rest. msg = CMD_EQL @ ds @ '';}'' @ rest \<and> ds \<noteq> [] \<and>
        (\<forall>c \<in> set ds. is_digit c) \<and> req' = req\<lparr>r_bincount := of_nat (dec_from 0 ds)\<rparr>"
    then obtain ds rest where msg: "msg = CMD_EQL @ ds @ '';}'' @ rest"
      and ds: "ds \<noteq> []" "\<forall>c \<in> set ds. is_digit c"
      and req: "req' = req\<lparr>r_bincount := of_nat (dec_from 0 ds)\<rparr>"
      by blast
    show "parse_client_request req msg = Some (MSG_BIN_ACK, req')"
      unfolding msg req by (rule parse_ack_ok [OF ds])
  qed
qed


definition example_req :: ClientRequest where
  "example_req = \<lparr>r_client_fd = 7, r_bincount = 0, r_message = []\<rparr>"

theorem parse_client_request_spec_witness:
  "parse_client_request example_req (CMD_EQL @ ''42'' @ '';}'' @ ''garbage'') =
     Some (MSG_BIN_ACK, example_req\<lparr>r_bincount := 42\<rparr>)"
proof -
  have "CMD_EQL @ ''42'' @ '';}'' @ ''garbage'' = CMD_EQL @ ''42'' @ '';}'' @ ''garbage'' \<and> ''42'' \<noteq> [] \<and>
      (\<forall>c \<in> set ''42''. is_digit c) \<and>
      example_req\<lparr>r_bincount := 42\<rparr> = example_req\<lparr>r_bincount := of_nat (dec_from 0 ''42'')\<rparr>"
    by (simp add: is_digit_def)
  then show ?thesis
    using parse_client_request_spec
      [of example_req "CMD_EQL @ ''42'' @ '';}'' @ ''garbage''" "example_req\<lparr>r_bincount := 42\<rparr>"]
    by blast
qed

section \<open>What is read\<close>

text \<open>A NUL in the buffer stops every scan: no read passes it, and what follows is not seen.\<close>

lemma strncmp_eq_nul:
  "NUL \<in> set s \<Longrightarrow> no_nul t \<Longrightarrow> strncmp_eq s t n \<noteq> None"
  by (induction s t n rule: strncmp_eq.induct) auto

lemma strncmp_eq_upto_nul:
  "no_nul s \<Longrightarrow> no_nul t \<Longrightarrow> strncmp_eq (s @ NUL # r) t n = strncmp_eq (s @ NUL # r') t n"
proof (induction s t n rule: strncmp_eq.induct)
  case (2 t n)
  then show ?case by (cases t) auto
qed auto

lemma parse_digits_upto_nul:
  "no_nul s \<Longrightarrow> \<exists>v p. (\<forall>r. parse_digits i (s @ NUL # r) = Some (v, p @ NUL # r)) \<and> no_nul p"
proof (induction s arbitrary: i)
  case Nil
  show ?case by (rule exI [of _ i], rule exI [of _ "[]"]) (simp add: is_digit_def)
next
  case (Cons c s)
  show ?case
  proof (cases "is_digit c")
    case True
    then show ?thesis using Cons by simp
  next
    case False
    then show ?thesis
      using Cons.prems by (intro exI [of _ i] exI [of _ "c # s"]) simp
  qed
qed

lemma ack_tail_nul: "no_nul p \<Longrightarrow> \<exists>b. \<forall>r. ack_tail (p @ NUL # r) = Some b"
  by (cases p; cases "tl p") (auto simp: ack_tail_def)

end
