(* ===== verification/Gpio.thy ===== *)
theory Gpio
  imports Prelude
begin

unbundle bit_operations_syntax

text \<open>
  The hardware access of \<^verbatim>\<open>sg-gpio.c\<close>: the globals as a record, the shared memory of
  the I/O manager as the two fields the code reads, its message queue as the log of the
  messages sent. The manager's numeric constants come from its own headers, which are not
  part of the repository: they are the record \<open>stm_consts\<close>, an argument. \<open>None\<close> is an
  access through a pointer that does not point to the shared memory.
\<close>

section \<open>State\<close>

record GPIOStatus =
  input_state :: uint32
  output_state :: uint32
  adc_values :: "int32 list"

record stm_shm =
  curr_input_state :: uint32
  curr_adc :: "int32 list"

datatype shm_ptr = ShmNull | ShmFailed | Shm stm_shm

record stm_mgr_msg =
  mtype :: int
  mtype_src :: int
  seq :: int
  opcode :: int
  msg_payload :: "8 word list"

record stm_consts =
  MTYPE_STM_DST :: int
  MTYPE_APP_3_SRC :: int
  OPCODE_SET_OUTPUT :: int
  OPCODE_SET_INPUT_BIAS :: int
  PAYLOAD_SIZE :: nat

record gpio =
  gpio_status :: GPIOStatus
  shm_info :: shm_ptr
  msg_queue_id :: int
  stm_cli_seq :: int
  msgs_sent :: "stm_mgr_msg list"

definition ALL_INPUT :: uint32 where "ALL_INPUT = 0xFF"
definition ALL_OUTPUT :: uint32 where "ALL_OUTPUT = 0x7F"
definition ALL_ADC :: uint32 where "ALL_ADC = 0xFF"

definition gpio_start :: gpio where
  "gpio_start =
     \<lparr>gpio_status = \<lparr>input_state = 0, output_state = 0, adc_values = replicate 8 0\<rparr>,
      shm_info = ShmNull, msg_queue_id = -1, stm_cli_seq = 0, msgs_sent = []\<rparr>"

section \<open>Operations\<close>

text \<open>What the system calls of \<open>gpio_init\<close> return; \<open>None\<close> for \<open>shmat\<close> is \<open>(void *)-1\<close>.\<close>

record init_env =
  ftok_shm :: int
  shmget_ret :: int
  shmat_ret :: "stm_shm option"
  ftok_msg :: int
  msgget_ret :: int

definition gpio_init :: "gpio \<Rightarrow> init_env \<Rightarrow> bool \<times> gpio" where
  "gpio_init g e =
     (if ftok_shm e = -1 then (False, g)
      else if shmget_ret e = -1 then (False, g)
      else case shmat_ret e of
        None \<Rightarrow> (False, g\<lparr>shm_info := ShmFailed\<rparr>)
      | Some shm \<Rightarrow>
          (let g1 = g\<lparr>shm_info := Shm shm\<rparr> in
           if ftok_msg e = -1 then (False, g1)
           else let g2 = g1\<lparr>msg_queue_id := msgget_ret e\<rparr> in
             if msgget_ret e = -1 then (False, g2) else (True, g2)))"

text \<open>\<open>st\<close> is the \<open>state\<close> pointer: \<open>None\<close> for NULL, else the cell it points to.\<close>

definition gpio_read_inputs ::
  "gpio \<Rightarrow> uint32 \<Rightarrow> uint32 option \<Rightarrow> (bool \<times> uint32 option \<times> gpio) option" where
  "gpio_read_inputs g m st =
     (if shm_info g = ShmNull \<or> st = None then Some (False, st, g)
      else case shm_info g of
        Shm shm \<Rightarrow>
          (let v = curr_input_state shm AND m;
               stat = gpio_status g
           in Some (True, Some v, g\<lparr>gpio_status := stat\<lparr>input_state := input_state stat AND v\<rparr>\<rparr>))
      | _ \<Rightarrow> None)"

text \<open>\<open>memcpy\<close> of a \<open>uint32_t\<close> into bytes, least significant first on the target.\<close>

definition u32_bytes :: "uint32 \<Rightarrow> 8 word list" where
  "u32_bytes w = [ucast w, ucast (drop_bit 8 w), ucast (drop_bit 16 w), ucast (drop_bit 24 w)]"

definition bytes_u32 :: "8 word list \<Rightarrow> uint32" where
  "bytes_u32 bs = ucast (bs ! 0) OR push_bit 8 (ucast (bs ! 1)) OR
     push_bit 16 (ucast (bs ! 2)) OR push_bit 24 (ucast (bs ! 3))"

text \<open>\<open>memcpy\<close> into a zeroed payload array at a byte offset.\<close>

definition copy_at :: "nat \<Rightarrow> 'a list \<Rightarrow> 'a list \<Rightarrow> 'a list" where
  "copy_at i bs xs = take i xs @ bs @ drop (i + length bs) xs"

definition stm_msg :: "stm_consts \<Rightarrow> int \<Rightarrow> gpio \<Rightarrow> uint32 \<Rightarrow> uint32 \<Rightarrow> stm_mgr_msg" where
  "stm_msg k op g m v =
     \<lparr>mtype = MTYPE_STM_DST k, mtype_src = MTYPE_APP_3_SRC k, seq = stm_cli_seq g, opcode = op,
      msg_payload = copy_at 4 (u32_bytes v)
        (copy_at 0 (u32_bytes m) (replicate (PAYLOAD_SIZE k) 0))\<rparr>"

definition gpio_set_outputs ::
  "stm_consts \<Rightarrow> gpio \<Rightarrow> uint32 \<Rightarrow> uint32 \<Rightarrow> int \<Rightarrow> bool \<times> gpio" where
  "gpio_set_outputs k g m v msgsnd_ret =
     (if msg_queue_id g = -1 then (False, g)
      else if msgsnd_ret = -1 then (False, g)
      else (True, g\<lparr>msgs_sent := msgs_sent g @ [stm_msg k (OPCODE_SET_OUTPUT k) g m v],
                    gpio_status := (gpio_status g)\<lparr>output_state := v AND m\<rparr>\<rparr>))"

definition gpio_set_inputbias ::
  "stm_consts \<Rightarrow> gpio \<Rightarrow> uint32 \<Rightarrow> uint32 \<Rightarrow> int \<Rightarrow> bool \<times> gpio" where
  "gpio_set_inputbias k g m v msgsnd_ret =
     (if msg_queue_id g = -1 then (False, g)
      else if msgsnd_ret = -1 then (False, g)
      else (True, g\<lparr>msgs_sent := msgs_sent g @ [stm_msg k (OPCODE_SET_INPUT_BIAS k) g m v],
                    gpio_status := (gpio_status g)\<lparr>output_state := v AND m\<rparr>\<rparr>))"

text \<open>The loop of \<open>gpio_read_adc\<close> from index \<open>i\<close> on, \<open>n\<close> rounds left.\<close>

fun read_adc_loop :: "nat \<Rightarrow> nat \<Rightarrow> uint32 \<Rightarrow> int32 list \<Rightarrow> int32 list \<Rightarrow> int32 list \<Rightarrow>
    int32 list \<times> int32 list" where
  "read_adc_loop 0 i m shm adc stat = (adc, stat)"
| "read_adc_loop (Suc n) i m shm adc stat =
     (if m AND push_bit i 1 \<noteq> 0
      then read_adc_loop n (Suc i) m shm (adc[i := shm ! i]) (stat[i := shm ! i])
      else read_adc_loop n (Suc i) m shm adc stat)"

definition gpio_read_adc ::
  "gpio \<Rightarrow> uint32 \<Rightarrow> int32 list option \<Rightarrow> (bool \<times> int32 list option \<times> gpio) option" where
  "gpio_read_adc g m out =
     (case out of None \<Rightarrow> Some (False, None, g)
      | Some adc \<Rightarrow>
        (case shm_info g of
           ShmNull \<Rightarrow> Some (False, Some adc, g)
         | ShmFailed \<Rightarrow> None
         | Shm shm \<Rightarrow>
             (case read_adc_loop 8 0 m (curr_adc shm) adc (adc_values (gpio_status g)) of
                (adc', stat') \<Rightarrow>
                  Some (True, Some adc', g\<lparr>gpio_status := (gpio_status g)\<lparr>adc_values := stat'\<rparr>\<rparr>))))"

text \<open>
  \<open>gpio_get_status\<close> ignores whether its two reads succeed; \<open>junk_in\<close> and \<open>junk_adc\<close> are
  what its uninitialised locals hold.
\<close>

definition gpio_get_status :: "gpio \<Rightarrow> uint32 \<Rightarrow> int32 list \<Rightarrow> gpio option" where
  "gpio_get_status g junk_in junk_adc =
     (case gpio_read_inputs g ALL_INPUT (Some junk_in) of
        None \<Rightarrow> None
      | Some (_, st, g1) \<Rightarrow>
          (let g2 = g1\<lparr>gpio_status := (gpio_status g1)\<lparr>input_state := the st\<rparr>\<rparr> in
           case gpio_read_adc g2 ALL_ADC (Some junk_adc) of
             None \<Rightarrow> None
           | Some (_, adc, g3) \<Rightarrow>
               Some (g3\<lparr>gpio_status := (gpio_status g3)\<lparr>adc_values := the adc\<rparr>\<rparr>)))"

definition gpio_deinit :: "gpio \<Rightarrow> gpio" where
  "gpio_deinit g = g\<lparr>shm_info := ShmNull, msg_queue_id := -1\<rparr>"

section \<open>Encoding of the commands\<close>

lemma length_u32_bytes [simp]: "length (u32_bytes w) = 4"
  by (simp add: u32_bytes_def)

lemma bytes_u32_bytes [simp]: "bytes_u32 (u32_bytes w @ r) = w"
proof (rule bit_word_eqI)
  fix n assume "n < LENGTH(32)"
  then have n: "n < 32" by simp
  consider "n < 8" | "8 \<le> n" "n < 16" | "16 \<le> n" "n < 24" | "24 \<le> n" by linarith
  then show "bit (bytes_u32 (u32_bytes w @ r)) n = bit w n"
    using n
    by cases (auto simp: bytes_u32_def u32_bytes_def bit_simps)
qed

lemma copy_at_facts:
  assumes "i + length bs \<le> length xs"
  shows "length (copy_at i bs xs) = length xs"
    and "take (length bs) (drop i (copy_at i bs xs)) = bs"
    and "j \<le> i \<Longrightarrow> take j (copy_at i bs xs) = take j xs"
  using assms by (auto simp: copy_at_def min_def)

lemma stm_msg_decodes:
  assumes "8 \<le> PAYLOAD_SIZE k"
  shows "length (msg_payload (stm_msg k op g m v)) = PAYLOAD_SIZE k"
    and "bytes_u32 (take 4 (msg_payload (stm_msg k op g m v))) = m"
    and "bytes_u32 (take 4 (drop 4 (msg_payload (stm_msg k op g m v)))) = v"
proof -
  define z where "z = replicate (PAYLOAD_SIZE k) (0 :: 8 word)"
  have z: "8 \<le> length z" using assms by (simp add: z_def)
  define p1 where "p1 = copy_at 0 (u32_bytes m) z"
  have p1: "length p1 = length z" "take 4 p1 = u32_bytes m"
    using z copy_at_facts [of 0 "u32_bytes m" z] by (simp_all add: p1_def)
  have pay: "msg_payload (stm_msg k op g m v) = copy_at 4 (u32_bytes v) p1"
    by (simp add: stm_msg_def p1_def z_def)
  note c = copy_at_facts [of 4 "u32_bytes v" p1]
  show "length (msg_payload (stm_msg k op g m v)) = PAYLOAD_SIZE k"
    using c(1) z p1 by (simp add: pay) (simp add: z_def)
  show "bytes_u32 (take 4 (msg_payload (stm_msg k op g m v))) = m"
    using c(3) [of 4] z p1 bytes_u32_bytes [of m "[]"] by (simp add: pay)
  show "bytes_u32 (take 4 (drop 4 (msg_payload (stm_msg k op g m v)))) = v"
    using c(2) z p1 bytes_u32_bytes [of v "[]"] by (simp add: pay)
qed

lemma stm_msg_fields [simp]:
  "opcode (stm_msg k op g m v) = op" "mtype (stm_msg k op g m v) = MTYPE_STM_DST k"
  "seq (stm_msg k op g m v) = stm_cli_seq g"
  by (simp_all add: stm_msg_def)

definition example_consts :: stm_consts where
  "example_consts = \<lparr>MTYPE_STM_DST = 1, MTYPE_APP_3_SRC = 2, OPCODE_SET_OUTPUT = 3,
     OPCODE_SET_INPUT_BIAS = 4, PAYLOAD_SIZE = 16\<rparr>"

definition example_gpio :: gpio where
  "example_gpio = gpio_start\<lparr>msg_queue_id := 9,
     shm_info := Shm \<lparr>curr_input_state = 0x105, curr_adc = [10, 11, 12, 13, 14, 15, 16, 17]\<rparr>\<rparr>"

text \<open>
  a command to the I/O manager that is reported as sent puts exactly one message on the
  queue whose payload decodes (little endian) to the mask and the value given, with the
  opcode of the call; a closed queue or a failing \<open>msgsnd\<close> sends nothing and changes
  nothing.
\<close>

theorem gpio_command_roundtrip:
  assumes "8 \<le> PAYLOAD_SIZE k"
    and "(setter, op) \<in> {(gpio_set_outputs, OPCODE_SET_OUTPUT k),
                        (gpio_set_inputbias, OPCODE_SET_INPUT_BIAS k)}"
  shows "case setter k g m v ret of
      (False, g') \<Rightarrow> g' = g \<and> (msg_queue_id g = -1 \<or> ret = -1)
    | (True, g') \<Rightarrow> msg_queue_id g \<noteq> -1 \<and> ret \<noteq> -1 \<and>
        (\<exists>msg. msgs_sent g' = msgs_sent g @ [msg] \<and> opcode msg = op \<and>
          mtype msg = MTYPE_STM_DST k \<and> length (msg_payload msg) = PAYLOAD_SIZE k \<and>
          bytes_u32 (take 4 (msg_payload msg)) = m \<and>
          bytes_u32 (take 4 (drop 4 (msg_payload msg))) = v)"
  using assms(2) stm_msg_decodes [OF assms(1), of op g m v]
  by (auto simp: gpio_set_outputs_def gpio_set_inputbias_def split: if_splits bool.splits)

theorem gpio_command_roundtrip_witness:
  "fst (gpio_set_inputbias example_consts example_gpio 0xFE 0x00 0) \<and>
   (\<exists>msg. msgs_sent (snd (gpio_set_inputbias example_consts example_gpio 0xFE 0x00 0)) = [msg] \<and>
      bytes_u32 (take 4 (msg_payload msg)) = 0xFE)"
proof -
  have "8 \<le> PAYLOAD_SIZE example_consts" by (simp add: example_consts_def)
  from gpio_command_roundtrip [OF this, where setter = gpio_set_inputbias and
      op = "OPCODE_SET_INPUT_BIAS example_consts" and g = example_gpio and m = "0xFE" and
      v = "0x00" and ret = 0]
  show ?thesis
    by (auto simp: gpio_set_inputbias_def example_gpio_def gpio_start_def)
qed

text \<open>
  setting the input bias records the bias as the output state: after it the status
  claims outputs that were never commanded, whatever outputs had been set before.
\<close>

theorem inputbias_overwrites_output_state:
  assumes "gpio_set_outputs k g m1 v1 0 = (True, g1)"
    and "gpio_set_inputbias k g1 m2 v2 0 = (True, g2)"
  shows "output_state (gpio_status g1) = v1 AND m1 \<and>
         output_state (gpio_status g2) = v2 AND m2"
  using assms by (auto simp: gpio_set_outputs_def gpio_set_inputbias_def split: if_splits)

theorem inputbias_overwrites_output_state_witness:
  "\<exists>g1 g2. gpio_set_outputs example_consts example_gpio 0x7F 0x05 0 = (True, g1) \<and>
     gpio_set_inputbias example_consts g1 0xFE 0x00 0 = (True, g2) \<and>
     output_state (gpio_status g1) = 5 \<and> output_state (gpio_status g2) = 0"
proof -
  define g1 where "g1 = snd (gpio_set_outputs example_consts example_gpio 0x7F 0x05 0)"
  define g2 where "g2 = snd (gpio_set_inputbias example_consts g1 0xFE 0x00 0)"
  have 1: "gpio_set_outputs example_consts example_gpio 0x7F 0x05 0 = (True, g1)"
    by (simp add: g1_def gpio_set_outputs_def example_gpio_def gpio_start_def)
  have 2: "gpio_set_inputbias example_consts g1 0xFE 0x00 0 = (True, g2)"
    by (simp add: g2_def g1_def gpio_set_outputs_def gpio_set_inputbias_def example_gpio_def
        gpio_start_def)
  show ?thesis using 1 2 inputbias_overwrites_output_state [OF 1 2] by auto
qed

section \<open>Reading\<close>

lemma read_adc_loop_spec:
  assumes "read_adc_loop n i m shm adc stat = (adc', stat')"
    and "length adc = 8" "length stat = 8" "i + n \<le> 8" "j < 8"
  shows "adc' ! j = (if i \<le> j \<and> j < i + n \<and> bit m j then shm ! j else adc ! j) \<and>
         stat' ! j = (if i \<le> j \<and> j < i + n \<and> bit m j then shm ! j else stat ! j)"
  using assms
proof (induction n arbitrary: i adc stat)
  case (Suc n)
  define a1 where "a1 = (if bit m i then adc[i := shm ! i] else adc)"
  define s1 where "s1 = (if bit m i then stat[i := shm ! i] else stat)"
  have "read_adc_loop n (Suc i) m shm a1 s1 = (adc', stat')"
    using Suc.prems(1) by (simp add: a1_def s1_def bit_iff_and_push_bit_not_eq_0 split: if_splits)
  moreover have "length a1 = 8" "length s1 = 8" "Suc i + n \<le> 8"
    using Suc.prems by (simp_all add: a1_def s1_def)
  ultimately have IH: "adc' ! j = (if Suc i \<le> j \<and> j < Suc i + n \<and> bit m j then shm ! j else a1 ! j)"
      "stat' ! j = (if Suc i \<le> j \<and> j < Suc i + n \<and> bit m j then shm ! j else s1 ! j)"
    using Suc.IH [of "Suc i" a1 s1] Suc.prems(5) by blast+
  show ?case
    using Suc.prems(2-5) unfolding IH by (cases "j = i") (simp_all add: a1_def s1_def Suc_le_eq)
qed auto

text \<open>
  with the shared memory attached, \<open>gpio_read_adc\<close> fills exactly the channels selected
  by the mask, both in the caller's array and in the status, and leaves the others alone.
\<close>

theorem gpio_read_adc_spec:
  assumes "shm_info g = Shm shm" and "length adc = 8" and "length (adc_values (gpio_status g)) = 8"
  shows "\<exists>adc' g'. gpio_read_adc g m (Some adc) = Some (True, Some adc', g') \<and>
    (\<forall>j < 8. adc' ! j = (if bit m j then curr_adc shm ! j else adc ! j) \<and>
       adc_values (gpio_status g') ! j =
         (if bit m j then curr_adc shm ! j else adc_values (gpio_status g) ! j))"
proof -
  obtain a s where l: "read_adc_loop 8 0 m (curr_adc shm) adc (adc_values (gpio_status g)) = (a, s)"
    by fastforce
  show ?thesis
    using read_adc_loop_spec [OF l assms(2,3)] by (auto simp: gpio_read_adc_def assms(1) l)
qed

theorem gpio_read_adc_spec_witness:
  "\<exists>adc' g'. gpio_read_adc example_gpio 0x05 (Some (replicate 8 99)) = Some (True, Some adc', g') \<and>
     adc' ! 0 = 10 \<and> adc' ! 1 = 99 \<and> adc' ! 2 = 12"
proof -
  have "length (replicate 8 (99 :: int32)) = 8" "length (adc_values (gpio_status example_gpio)) = 8"
    by (simp_all add: example_gpio_def gpio_start_def)
  from gpio_read_adc_spec [OF _ this,
      of "\<lparr>curr_input_state = 0x105, curr_adc = [10, 11, 12, 13, 14, 15, 16, 17]\<rparr>" "0x05"]
  obtain adc' g' where r: "gpio_read_adc example_gpio 0x05 (Some (replicate 8 99)) = Some (True, Some adc', g')"
    and j: "\<forall>j<8. adc' ! j = (if bit (0x05 :: uint32) j then [10, 11, 12, 13, 14, 15, 16, 17] ! j
             else replicate 8 99 ! j)"
    by (auto simp: example_gpio_def)
  have "adc' ! 0 = 10" "adc' ! 1 = 99" "adc' ! 2 = 12"
    using j [rule_format, of 0] j [rule_format, of 1] j [rule_format, of 2] by simp_all
  with r show ?thesis by blast
qed

text \<open>
  with the shared memory attached, the status becomes the eight low input bits and all
  eight converter values of the shared memory. Without it both reads fail, the failure is
  not looked at, and the status becomes whatever the uninitialised locals held.
\<close>

theorem gpio_get_status_spec:
  assumes "length jadc = 8" and "length (adc_values (gpio_status g)) = 8"
    and "\<forall>shm. shm_info g = Shm shm \<longrightarrow> length (curr_adc shm) = 8"
  shows "case shm_info g of
      Shm shm \<Rightarrow> (\<exists>g'. gpio_get_status g jin jadc = Some g' \<and>
        input_state (gpio_status g') = curr_input_state shm AND 0xFF \<and>
        adc_values (gpio_status g') = curr_adc shm)
    | ShmNull \<Rightarrow> (\<exists>g'. gpio_get_status g jin jadc = Some g' \<and>
        input_state (gpio_status g') = jin \<and> adc_values (gpio_status g') = jadc)
    | ShmFailed \<Rightarrow> gpio_get_status g jin jadc = None"
proof (cases "shm_info g")
  case (Shm shm)
  define st where "st = (gpio_status g)\<lparr>input_state := curr_input_state shm AND ALL_INPUT\<rparr>"
  obtain a s where l: "read_adc_loop 8 0 ALL_ADC (curr_adc shm) jadc (adc_values (gpio_status g)) = (a, s)"
    by fastforce
  have bits: "bit ALL_ADC j" if "j < 8" for j
  proof -
    have "ALL_ADC = mask 8" by (simp add: ALL_ADC_def mask_eq_exp_minus_1)
    moreover have "bit (mask 8 :: uint32) j" using that by (simp only: bit_mask_iff) simp
    ultimately show ?thesis by metis
  qed
  have len: "length a = 8" using l assms(1)
  proof -
    have "length (fst (read_adc_loop n i m sh x y)) = length x" for n i m sh x y
      by (induction n i m sh x y rule: read_adc_loop.induct) auto
    from this [of 8 0 ALL_ADC "curr_adc shm" jadc "adc_values (gpio_status g)"]
    show ?thesis using l assms(1) by simp
  qed
  have "a = curr_adc shm"
    by (rule nth_equalityI)
       (use len assms(3) Shm read_adc_loop_spec [OF l assms(1,2)] bits in auto)
  then show ?thesis
    using l by (simp add: Shm gpio_get_status_def gpio_read_inputs_def gpio_read_adc_def Let_def ALL_INPUT_def)
qed (simp_all add: gpio_get_status_def gpio_read_inputs_def gpio_read_adc_def)

theorem gpio_get_status_spec_witness:
  "\<exists>g'. gpio_get_status example_gpio 77 (replicate 8 99) = Some g' \<and>
     input_state (gpio_status g') = 5 \<and>
     adc_values (gpio_status g') = [10, 11, 12, 13, 14, 15, 16, 17]"
proof -
  have "length (replicate 8 (99 :: int32)) = 8" "length (adc_values (gpio_status example_gpio)) = 8"
    "\<forall>shm. shm_info example_gpio = Shm shm \<longrightarrow> length (curr_adc shm) = 8"
    by (simp_all add: example_gpio_def gpio_start_def)
  from gpio_get_status_spec [OF this, of 77] show ?thesis by (simp add: example_gpio_def)
qed

text \<open>
  after a successful \<open>gpio_init\<close> every read goes to the shared memory and every command
  reaches the message queue; after \<open>gpio_deinit\<close> every operation fails cleanly without
  touching memory. Only an \<open>shmat\<close> that failed leaves a pointer that reads must not follow.
\<close>

theorem gpio_lifecycle:
  "(\<forall>g'. gpio_init g e = (True, g') \<longrightarrow>
      msg_queue_id g' \<noteq> -1 \<and> (\<exists>shm. shm_info g' = Shm shm \<and>
        (\<forall>m x. \<exists>g''. gpio_read_inputs g' m (Some x) =
            Some (True, Some (curr_input_state shm AND m), g'')))) \<and>
   (\<forall>m x k v. gpio_read_inputs (gpio_deinit g) m x = Some (False, x, gpio_deinit g) \<and>
      gpio_read_adc (gpio_deinit g) m y = Some (False, y, gpio_deinit g) \<and>
      gpio_set_outputs k (gpio_deinit g) m v 0 = (False, gpio_deinit g) \<and>
      gpio_set_inputbias k (gpio_deinit g) m v 0 = (False, gpio_deinit g)) \<and>
   (\<forall>g'. gpio_init g e = (False, g') \<longrightarrow> gpio_read_inputs g' m (Some x) = None \<longrightarrow>
      shmat_ret e = None \<or> shm_info g = ShmFailed)"
  by (auto simp: gpio_init_def gpio_deinit_def gpio_read_inputs_def gpio_read_adc_def
      gpio_set_outputs_def gpio_set_inputbias_def Let_def
      split: option.splits if_splits shm_ptr.splits)

theorem gpio_lifecycle_witness:
  "\<exists>g'. gpio_init gpio_start
       \<lparr>ftok_shm = 1, shmget_ret = 2, shmat_ret = Some \<lparr>curr_input_state = 6, curr_adc = replicate 8 0\<rparr>,
        ftok_msg = 3, msgget_ret = 4\<rparr> = (True, g') \<and> msg_queue_id g' \<noteq> -1"
  using gpio_lifecycle [of gpio_start "\<lparr>ftok_shm = 1, shmget_ret = 2,
        shmat_ret = Some \<lparr>curr_input_state = 6, curr_adc = replicate 8 0\<rparr>,
        ftok_msg = 3, msgget_ret = 4\<rparr>"]
  by (simp add: gpio_init_def Let_def)

end
