(* ===== verification/GpioMonitor.thy ===== *)
theory GpioMonitor
  imports Gpio
begin

text \<open>
  The polling thread of \<^verbatim>\<open>sg-gpio-monitor.c\<close>. \<open>info\<close> is a local without an
  initialiser, so the contents of its stack slot at each round are an argument of the model;
  the thread's results are the calls of the registered callback.
\<close>

section \<open>Model\<close>

record InputChange =
  changed :: bool
  rising_edge :: bool

record GPIOChangeInfo =
  inputs :: "InputChange list"
  current_state :: uint32

definition MAX_INPUTS :: nat where "MAX_INPUTS = 7"

text \<open>The loop that fills \<open>info.inputs\<close>: entries of unchanged inputs are not written.\<close>

fun fill_inputs :: "nat \<Rightarrow> nat \<Rightarrow> uint32 \<Rightarrow> uint32 \<Rightarrow> InputChange list \<Rightarrow> InputChange list" where
  "fill_inputs 0 i ch cur xs = xs"
| "fill_inputs (Suc n) i ch cur xs =
     (if ch AND push_bit i 1 \<noteq> 0
      then fill_inputs n (Suc i) ch cur
             (xs[i := \<lparr>changed = True, rising_edge = (cur AND push_bit i 1 \<noteq> 0)\<rparr>])
      else fill_inputs n (Suc i) ch cur xs)"

text \<open>
  One successful read of the loop body: the callback's argument if there is a change, what
  is left in the stack slot, and the new \<open>last_input_state\<close>.
\<close>

definition monitor_iter ::
  "GPIOChangeInfo \<Rightarrow> uint32 \<Rightarrow> uint32 \<Rightarrow> GPIOChangeInfo option \<times> GPIOChangeInfo \<times> uint32" where
  "monitor_iter slot lst cur =
     (let ch = (lst XOR cur) AND 0x7F in
      if ch \<noteq> 0 then
        (let info = slot\<lparr>current_state := cur, inputs := fill_inputs MAX_INPUTS 0 ch cur (inputs slot)\<rparr>
         in (Some info, info\<lparr>inputs := map (\<lambda>x. x\<lparr>changed := False\<rparr>) (inputs info)\<rparr>, cur))
      else (None, slot, lst))"

text \<open>The loop: per round the stack slot and what \<open>gpio_read_inputs\<close> gives (\<open>None\<close>: it failed).\<close>

fun monitor_loop :: "uint32 \<Rightarrow> (GPIOChangeInfo \<times> uint32 option) list \<Rightarrow> GPIOChangeInfo list" where
  "monitor_loop lst [] = []"
| "monitor_loop lst ((slot, None) # rounds) = monitor_loop lst rounds"
| "monitor_loop lst ((slot, Some cur) # rounds) =
     (case monitor_iter slot lst cur of
        (None, _, lst') \<Rightarrow> monitor_loop lst' rounds
      | (Some info, _, lst') \<Rightarrow> info # monitor_loop lst' rounds)"

definition gpio_monitor_task ::
  "uint32 option \<Rightarrow> (GPIOChangeInfo \<times> uint32 option) list \<Rightarrow> GPIOChangeInfo list" where
  "gpio_monitor_task first rounds =
     (case first of None \<Rightarrow> [] | Some s \<Rightarrow> monitor_loop s rounds)"

section \<open>One round\<close>

definition slot_ok :: "GPIOChangeInfo \<Rightarrow> bool" where
  "slot_ok s \<longleftrightarrow> length (inputs s) = MAX_INPUTS"

definition slot_clear :: "GPIOChangeInfo \<Rightarrow> bool" where
  "slot_clear s \<longleftrightarrow> slot_ok s \<and> (\<forall>x \<in> set (inputs s). \<not> changed x)"

lemma fill_inputs_nth:
  assumes "length xs = 7" "i + n \<le> 7" "j < 7"
  shows "fill_inputs n i ch cur xs ! j =
    (if i \<le> j \<and> j < i + n \<and> bit ch j then \<lparr>changed = True, rising_edge = bit cur j\<rparr> else xs ! j)"
  using assms
proof (induction n arbitrary: i xs)
  case (Suc n)
  define ys where "ys = (if bit ch i then xs[i := \<lparr>changed = True, rising_edge = bit cur i\<rparr>] else xs)"
  have step: "fill_inputs (Suc n) i ch cur xs = fill_inputs n (Suc i) ch cur ys"
    by (simp add: ys_def bit_iff_and_push_bit_not_eq_0)
  have "length ys = 7" "Suc i + n \<le> 7"
    using Suc.prems by (simp_all add: ys_def)
  then have IH: "fill_inputs n (Suc i) ch cur ys ! j =
      (if Suc i \<le> j \<and> j < Suc i + n \<and> bit ch j
       then \<lparr>changed = True, rising_edge = bit cur j\<rparr> else ys ! j)"
    using Suc.IH [of ys "Suc i"] Suc.prems by blast
  show ?case
    using Suc.prems unfolding step IH by (cases "j = i") (simp_all add: ys_def Suc_le_eq)
qed auto

lemma fill_inputs_length: "length (fill_inputs n i ch cur xs) = length xs"
  by (induction n i ch cur xs rule: fill_inputs.induct) auto

lemma bit_low7: "bit (w AND 0x7F :: uint32) j \<longleftrightarrow> j < 7 \<and> bit w j"
proof -
  have "(0x7F :: uint32) = mask 7" by (simp add: mask_eq_exp_minus_1)
  moreover have "bit (w AND mask 7) j \<longleftrightarrow> j < 7 \<and> bit w j"
    by (auto simp: bit_and_iff bit_mask_iff dest: bit_imp_le_length)
  ultimately show ?thesis by metis
qed

lemma low7_zero_iff: "(w AND 0x7F :: uint32) = 0 \<longleftrightarrow> (\<forall>j < 7. \<not> bit w j)"
  using bit_low7 [of w] by (metis bit_0_eq bot_apply bot_bool_def bit_eqI)

lemma monitor_iter_cases:
  "fst (monitor_iter slot lst cur) = None \<longleftrightarrow> (\<forall>j < 7. bit lst j = bit cur j)"
  "snd (snd (monitor_iter slot lst cur)) =
     (if \<forall>j < 7. bit lst j = bit cur j then lst else cur)"
  by (auto simp: monitor_iter_def Let_def low7_zero_iff bit_xor_iff)

lemma monitor_iter_info:
  assumes "fst (monitor_iter slot lst cur) = Some info" "slot_ok slot" "j < 7"
  shows "inputs info ! j = (if bit lst j \<noteq> bit cur j
           then \<lparr>changed = True, rising_edge = bit cur j\<rparr> else inputs slot ! j)"
    and "length (inputs info) = 7" and "current_state info = cur"
  using assms
  by (auto simp: monitor_iter_def Let_def fill_inputs_nth fill_inputs_length slot_ok_def
      MAX_INPUTS_def bit_low7 bit_xor_iff split: if_splits)

lemma monitor_iter_lst: "j < 7 \<Longrightarrow> bit (snd (snd (monitor_iter slot lst cur))) j = bit cur j"
  by (simp add: monitor_iter_cases)

definition clear_slot :: GPIOChangeInfo where
  "clear_slot = \<lparr>inputs = replicate 7 \<lparr>changed = False, rising_edge = False\<rparr>, current_state = 0\<rparr>"

lemma clear_slot_ok: "slot_ok clear_slot" "slot_clear clear_slot"
  by (simp_all add: clear_slot_def slot_ok_def slot_clear_def MAX_INPUTS_def)

text \<open>
  the callback is called exactly when one of the seven inputs differs from the last
  reported state. It is told the current state, and for each input that differs that it
  changed and its new level; about an input that did not differ it is told whatever the
  uninitialised \<open>info\<close> holds, so only a slot that happens to be clear gives the right answer
  for all seven.
\<close>

theorem monitor_iter_spec:
  assumes "slot_ok slot"
  shows "case fst (monitor_iter slot lst cur) of
      None \<Rightarrow> (\<forall>j < 7. bit lst j = bit cur j)
    | Some info \<Rightarrow> (\<exists>j < 7. bit lst j \<noteq> bit cur j) \<and> current_state info = cur \<and>
        (\<forall>j < 7. inputs info ! j = (if bit lst j \<noteq> bit cur j
            then \<lparr>changed = True, rising_edge = bit cur j\<rparr> else inputs slot ! j)) \<and>
        (slot_clear slot \<longrightarrow> (\<forall>j < 7. changed (inputs info ! j) \<longleftrightarrow> bit lst j \<noteq> bit cur j))"
proof (cases "fst (monitor_iter slot lst cur)")
  case None
  then show ?thesis using monitor_iter_cases(1) [of slot lst cur] by simp
next
  case (Some info)
  note i = monitor_iter_info [OF Some assms]
  have "\<not> changed (inputs slot ! j)" if "slot_clear slot" "j < 7" for j
    using that by (auto simp: slot_clear_def slot_ok_def MAX_INPUTS_def)
  then have "slot_clear slot \<longrightarrow> (\<forall>j < 7. changed (inputs info ! j) \<longleftrightarrow> bit lst j \<noteq> bit cur j)"
    by (simp add: i(1))
  then show ?thesis
    using Some monitor_iter_cases(1) [of slot lst cur] i(1) i(3) [of 0] by auto
qed

theorem monitor_iter_spec_witness:
  "\<exists>info. fst (monitor_iter clear_slot 0x05 0x06) = Some info \<and>
     inputs info ! 1 = \<lparr>changed = True, rising_edge = True\<rparr> \<and>
     inputs info ! 0 = \<lparr>changed = True, rising_edge = False\<rparr> \<and> \<not> changed (inputs info ! 2)"
proof -
  have ex: "\<exists>info. fst (monitor_iter clear_slot 0x05 0x06) = Some info"
    by (simp add: monitor_iter_def)
  then obtain info where info: "fst (monitor_iter clear_slot 0x05 0x06) = Some info" by blast
  have "\<forall>j < 7. inputs info ! j = (if bit (0x05 :: uint32) j \<noteq> bit (0x06 :: uint32) j
      then \<lparr>changed = True, rising_edge = bit (0x06 :: uint32) j\<rparr> else inputs clear_slot ! j)"
    using monitor_iter_spec [OF clear_slot_ok(1), of "0x05" "0x06"] info by simp
  from this [rule_format, of 0] this [rule_format, of 1] this [rule_format, of 2]
  show ?thesis using info by (simp add: clear_slot_def)
qed

section \<open>A whole run\<close>

fun edges :: "bool \<Rightarrow> bool list \<Rightarrow> bool list" where
  "edges b [] = []"
| "edges b (c # cs) = (if b \<noteq> c then c # edges c cs else edges c cs)"

definition reported :: "nat \<Rightarrow> GPIOChangeInfo list \<Rightarrow> bool list" where
  "reported i infos = map (\<lambda>x. rising_edge (inputs x ! i)) (filter (\<lambda>x. changed (inputs x ! i)) infos)"

text \<open>
  The rounds in which one of the seven inputs differs from the state last reported: that
  state, the new one, and what the stack slot holds then.
\<close>

fun change_rounds ::
  "uint32 \<Rightarrow> (GPIOChangeInfo \<times> uint32 option) list \<Rightarrow> (uint32 \<times> uint32 \<times> GPIOChangeInfo) list" where
  "change_rounds lst [] = []"
| "change_rounds lst ((slot, None) # rounds) = change_rounds lst rounds"
| "change_rounds lst ((slot, Some cur) # rounds) =
     (if take_bit 7 lst = take_bit 7 cur then change_rounds lst rounds
      else (lst, cur, slot) # change_rounds cur rounds)"

definition really :: "nat \<Rightarrow> uint32 \<times> uint32 \<times> GPIOChangeInfo \<Rightarrow> bool" where
  "really i r = (case r of (p, c, s) \<Rightarrow> bit p i \<noteq> bit c i)"

definition told :: "nat \<Rightarrow> uint32 \<times> uint32 \<times> GPIOChangeInfo \<Rightarrow> bool" where
  "told i r = (case r of (p, c, s) \<Rightarrow> bit p i \<noteq> bit c i \<or> changed (inputs s ! i))"

definition told_edge :: "nat \<Rightarrow> uint32 \<times> uint32 \<times> GPIOChangeInfo \<Rightarrow> bool" where
  "told_edge i r = (case r of (p, c, s) \<Rightarrow> if bit p i \<noteq> bit c i then bit c i else rising_edge (inputs s ! i))"

lemma take_bit_7_eq: "take_bit 7 a = take_bit 7 b \<longleftrightarrow> (\<forall>j < 7. bit a j = bit b j)" for a b :: uint32
proof
  assume e: "take_bit 7 a = take_bit 7 b"
  have "bit a j = bit b j" if "j < 7" for j
    using that bit_take_bit_iff [of 7 a j] bit_take_bit_iff [of 7 b j] unfolding e by simp
  then show "\<forall>j < 7. bit a j = bit b j" by blast
qed (rule bit_eqI, simp add: bit_take_bit_iff, blast)

text \<open>
  C22: over any run, with failed reads in between and whatever the uninitialised slots hold,
  the callback is called once for each round in which the seven inputs differ from the state
  last reported, with the new state. What it is told of an input is, in order, every real
  change with its new level, and between them what the slot of another input's change
  happened to hold; the real changes are exactly the level changes between successive
  samples of that input: none is lost, repeated or reported with the wrong direction.
\<close>

theorem monitor_loop_reports:
  assumes "\<forall>r \<in> set rounds. slot_ok (fst r)" and "i < 7"
  shows "map current_state (monitor_loop lst rounds) = map (fst \<circ> snd) (change_rounds lst rounds) \<and>
    reported i (monitor_loop lst rounds) = map (told_edge i) (filter (told i) (change_rounds lst rounds)) \<and>
    map (told_edge i) (filter (really i) (change_rounds lst rounds)) =
      edges (bit lst i) (map (\<lambda>c. bit c i) (List.map_filter snd rounds))"
  using assms(1)
proof (induction rounds arbitrary: lst)
  case Nil
  then show ?case by (simp add: reported_def List.map_filter_simps)
next
  case (Cons r rounds)
  obtain slot rd where r: "r = (slot, rd)" by fastforce
  show ?case
  proof (cases rd)
    case None
    then show ?thesis using Cons r by (simp add: List.map_filter_simps)
  next
    case (Some cur)
    obtain out slot' lst' where it: "monitor_iter slot lst cur = (out, slot', lst')"
      by (cases "monitor_iter slot lst cur") auto
    have ok: "slot_ok slot" using Cons.prems r by simp
    have l: "lst' = (if take_bit 7 lst = take_bit 7 cur then lst else cur)"
        "out = None \<longleftrightarrow> take_bit 7 lst = take_bit 7 cur"
      using monitor_iter_cases [of slot lst cur] by (simp_all add: it take_bit_7_eq)
    note IH = Cons.IH [of lst'] and same = take_bit_7_eq [of lst cur]
    show ?thesis
    proof (cases out)
      case None
      then have "bit lst i = bit cur i" using l(2) same assms(2) by simp
      then show ?thesis using None IH Cons.prems l by (simp add: r Some it List.map_filter_simps)
    next
      case (Some info)
      note info = monitor_iter_info [OF _ ok assms(2), of lst cur info]
      show ?thesis using IH Cons.prems l info Some
        by (auto simp: r \<open>rd = Some cur\<close> it reported_def really_def told_def told_edge_def List.map_filter_simps)
    qed
  qed
qed

theorem monitor_loop_reports_witness:
  "reported 1 (monitor_loop 0 [(clear_slot, Some 0x02), (clear_slot, None),
      (clear_slot\<lparr>inputs := replicate 7 \<lparr>changed = True, rising_edge = True\<rparr>\<rparr>, Some 0x06), (clear_slot, Some 0x04)]) =
     [True, True, False] \<and>
   edges False [True, True, False] = [True, False]"
proof -
  have t: "take_bit 7 (0 :: uint32) \<noteq> take_bit 7 2" "take_bit 7 (2 :: uint32) \<noteq> take_bit 7 6"
    "take_bit 7 (6 :: uint32) \<noteq> take_bit 7 4" by code_simp+
  show ?thesis
    using monitor_loop_reports [of "[(clear_slot, Some 0x02), (clear_slot, None),
      (clear_slot\<lparr>inputs := replicate 7 \<lparr>changed = True, rising_edge = True\<rparr>\<rparr>, Some 0x06), (clear_slot, Some 0x04)]" 1 0]
    by (simp add: slot_ok_def MAX_INPUTS_def clear_slot_def t told_def told_edge_def)
qed

text \<open>
  C23: the missing initialiser shows: if the stack slot holds a stale \<open>changed\<close> flag for
  input 1, a change of input 0 alone is reported to the callback as a change of input 1 too.
\<close>

theorem stale_slot_reports_phantom_change:
  assumes "slot_ok slot" and "changed (inputs slot ! 1)"
    and "bit lst 0 \<noteq> bit cur 0" and "bit lst 1 = bit cur 1"
  shows "\<exists>info. fst (monitor_iter slot lst cur) = Some info \<and> changed (inputs info ! 1) \<and>
                inputs info ! 1 = inputs slot ! 1"
proof -
  have "fst (monitor_iter slot lst cur) \<noteq> None"
    using assms(3) monitor_iter_cases(1) [of slot lst cur] by force
  then obtain info where "fst (monitor_iter slot lst cur) = Some info" by blast
  then show ?thesis
    using monitor_iter_info(1) [OF _ assms(1), of lst cur info 1] assms(2,4) by simp
qed

theorem stale_slot_reports_phantom_change_witness:
  "\<exists>info. fst (monitor_iter (clear_slot\<lparr>inputs := (inputs clear_slot)[1 := \<lparr>changed = True,
      rising_edge = True\<rparr>]\<rparr>) 0 1) = Some info \<and> changed (inputs info ! 1)"
proof -
  define slot where "slot = clear_slot\<lparr>inputs := (inputs clear_slot)[1 := \<lparr>changed = True,
      rising_edge = True\<rparr>]\<rparr>"
  have "slot_ok slot" "changed (inputs slot ! 1)"
    by (simp_all add: slot_def clear_slot_def slot_ok_def MAX_INPUTS_def)
  from stale_slot_reports_phantom_change [OF this, of 0 1]
  show ?thesis by (auto simp: slot_def)
qed

end
