(* ===== verification/Comm.thy ===== *)
theory Comm
  imports BinLift Storage Pending ClientProto GpioMonitor
begin

text \<open>
  The program's own logic, \<^verbatim>\<open>sg-comm.c\<close>: what a client's message, an input change and the
  request threads do to the shared state, the globals of \<^verbatim>\<open>main.c\<close> and the server. A call
  that waits for room in the send queue is \<open>Blocks\<close>; a use of \<open>NULL\<close> or of memory outside a
  block is \<open>Crash\<close>.
\<close>

section \<open>State\<close>

record GpioBias =
  gb_bias :: "8 word"
  gb_enable :: "8 word"

definition BINLIFT_PORT_NUM :: nat where "BINLIFT_PORT_NUM = 1"
definition REVERSE_PORT_NUM :: nat where "REVERSE_PORT_NUM = 2"
definition BINCOUNT_FILE_NAME :: string where "BINCOUNT_FILE_NAME = ''binrecord.bin''"

record comm =
  g_srv :: SgTcpServer
  bincount :: int32
  gpio_bias :: "GpioBias list"
  esn_data :: string
  fsys :: filesys
  waiting :: pend
  mem :: hooks

record TaskQueueSet =
  bin_query_tasks :: "ClientRequest RingBuffer option"
  bin_clear_tasks :: "ClientRequest RingBuffer option"
  bin_ack_tasks :: "ClientRequest RingBuffer option"

datatype 'a run = Done 'a | Blocks | Crash

fun and_run :: "'a run \<Rightarrow> ('a \<Rightarrow> 'b run) \<Rightarrow> 'b run" where
  "and_run (Done x) f = f x"
| "and_run Blocks f = Blocks"
| "and_run Crash f = Crash"

definition or_block :: "'a option \<Rightarrow> 'a run" where
  "or_block x = (case x of None \<Rightarrow> Blocks | Some y \<Rightarrow> Done y)"

definition or_crash :: "'a option \<Rightarrow> 'a run" where
  "or_crash x = (case x of None \<Rightarrow> Crash | Some y \<Rightarrow> Done y)"

section \<open>Requests\<close>

definition null_task :: ClientRequest where
  "null_task = \<lparr>r_client_fd = 0, r_bincount = 0, r_message = []\<rparr>"

text \<open>Three queues of 128 tasks; the arguments say which of the allocations succeed.\<close>

definition create_task_pipeline :: "bool \<times> bool \<Rightarrow> bool \<times> bool \<Rightarrow> bool \<times> bool \<Rightarrow> int \<times> TaskQueueSet" where
  "create_task_pipeline a1 a2 a3 =
     (let p = \<lparr>bin_query_tasks = rb_create null_task 128 (fst a3) (snd a3),
               bin_clear_tasks = rb_create null_task 128 (fst a2) (snd a2),
               bin_ack_tasks = rb_create null_task 128 (fst a1) (snd a1)\<rparr>
      in if bin_ack_tasks p \<noteq> None \<and> bin_clear_tasks p \<noteq> None \<and> bin_query_tasks p \<noteq> None
         then (1, p) else (0, p))"

definition push_task ::
    "ClientRequest RingBuffer option \<Rightarrow> (wait_result \<times> ClientRequest RingBuffer) list \<Rightarrow> ClientRequest \<Rightarrow>
     (int \<times> ClientRequest RingBuffer option) run" where
  "push_task q ws task =
     (case q of
        None \<Rightarrow> Crash
      | Some rb \<Rightarrow>
          (case rb_timed_push rb ws task of None \<Rightarrow> Blocks | Some (r, rb') \<Rightarrow> Done (r, Some rb')))"

text \<open>
  The result is \<open>pushed\<close> and the queues; a task that is not pushed is freed. \<open>ok\<close> is whether
  \<open>calloc\<close> succeeds: the task is written to without a test.
\<close>

definition on_message ::
    "bool \<Rightarrow> SgTcpMessage \<Rightarrow> (wait_result \<times> ClientRequest RingBuffer) list \<Rightarrow> TaskQueueSet \<Rightarrow> (int \<times> TaskQueueSet) run" where
  "on_message ok msg ws queues =
     (if \<not> ok then Crash else let task = null_task\<lparr>r_client_fd := m_client_fd msg\<rparr> in
      case parse_client_request task (m_data msg) of
        None \<Rightarrow> Crash
      | Some (task_type, task) \<Rightarrow>
          (case task_type of
             MSG_BIN_QUERY \<Rightarrow>
               and_run (push_task (bin_query_tasks queues) ws task)
                 (\<lambda>(pushed, q). Done (pushed, queues\<lparr>bin_query_tasks := q\<rparr>))
           | MSG_CLR_QUERY \<Rightarrow>
               and_run (push_task (bin_clear_tasks queues) ws task)
                 (\<lambda>(pushed, q). Done (pushed, queues\<lparr>bin_clear_tasks := q\<rparr>))
           | MSG_BIN_ACK \<Rightarrow>
               and_run (push_task (bin_ack_tasks queues) ws task)
                 (\<lambda>(pushed, q). Done (pushed, queues\<lparr>bin_ack_tasks := q\<rparr>))
           | MSG_UNKNOWN \<Rightarrow> Done (0, queues)))"

text \<open>
  One turn of the server's worker thread, for any callback: the oldest received message, or
  nothing when the pop times out.
\<close>

definition worker_loop_turn :: "(SgTcpMessage \<Rightarrow> 'u \<Rightarrow> 'u run) \<Rightarrow> SgTcpServer \<times> 'u \<Rightarrow> (SgTcpServer \<times> 'u) run" where
  "worker_loop_turn on_msg st =
     (case rb_timed_pop (recv_q (fst st)) [(TimedOut, recv_q (fst st))] of
        Some (r, Some msg, q) \<Rightarrow>
          and_run (on_msg msg (snd st)) (\<lambda>ud. Done ((fst st)\<lparr>recv_q := q\<rparr>, ud))
      | _ \<Rightarrow> Done st)"

definition on_message_cb ::
    "bool \<Rightarrow> (wait_result \<times> ClientRequest RingBuffer) list \<Rightarrow> SgTcpMessage \<Rightarrow> TaskQueueSet \<Rightarrow> TaskQueueSet run" where
  "on_message_cb ok ws msg queues = and_run (on_message ok msg ws queues) (\<lambda>(pushed, queues). Done queues)"

section \<open>The request threads\<close>

text \<open>
  One turn of a thread's loop: the task that is popped, or nothing when the pop times out.
\<close>

definition pop_task :: "ClientRequest RingBuffer \<Rightarrow> ClientRequest option \<times> ClientRequest RingBuffer" where
  "pop_task q =
     (case rb_timed_pop q [(TimedOut, q)] of Some (r, task, q') \<Rightarrow> (task, q') | None \<Rightarrow> (None, q))"

definition bin_text :: "int32 \<Rightarrow> string" where
  "bin_text n = ''{BIN='' @ show_int (sint n) @ '';}''"

definition bin_query_handler :: "ClientRequest RingBuffer \<times> comm \<Rightarrow> (ClientRequest RingBuffer \<times> comm) run" where
  "bin_query_handler st =
     (case pop_task (fst st) of
        (None, q) \<Rightarrow> Done (q, snd st)
      | (Some task, q) \<Rightarrow>
          let s = snd st; str = bin_text (bincount s); len = length str
          in and_run (or_block (SgTcpServer_send (g_srv s) (r_client_fd task) str len))
               (\<lambda>srv. Done (q, s\<lparr>g_srv := srv\<rparr>)))"

text \<open>The critical section of the clear: the count is read back from the file.\<close>

definition clear_count :: "comm \<Rightarrow> comm" where
  "clear_count s =
     (let (res_write, fs1) = write_bincount_to_file BINCOUNT_FILE_NAME 0 (fsys s);
          (res_read, n, fs2) = read_bincount_from_file BINCOUNT_FILE_NAME 0 fs1
      in s\<lparr>bincount := n, fsys := fs2\<rparr>)"

definition bin_clr_handler :: "ClientRequest RingBuffer \<times> comm \<Rightarrow> (ClientRequest RingBuffer \<times> comm) run" where
  "bin_clr_handler st =
     (case pop_task (fst st) of
        (None, q) \<Rightarrow> Done (q, snd st)
      | (Some task, q) \<Rightarrow>
          let s = clear_count (snd st); str = bin_text (bincount s)
          in and_run (or_block (SgTcpServer_broadcast (g_srv s) str (length str)))
               (\<lambda>srv. Done (q, s\<lparr>g_srv := srv\<rparr>)))"

definition bin_ack_handler :: "ClientRequest RingBuffer \<times> comm \<Rightarrow> (ClientRequest RingBuffer \<times> comm) run" where
  "bin_ack_handler st =
     (case pop_task (fst st) of
        (None, q) \<Rightarrow> Done (q, snd st)
      | (Some task, q) \<Rightarrow>
          let s = snd st
          in and_run (or_crash (mark_acked (r_client_fd task) (r_bincount task) (waiting s)))
               (\<lambda>p. Done (q, s\<lparr>waiting := p\<rparr>)))"

section \<open>Input changes\<close>

text \<open>\<open>state && gpio_bias[2].enable\<close>.\<close>

definition assemble_reverse_message :: "bool \<Rightarrow> GpioBias list \<Rightarrow> string" where
  "assemble_reverse_message state bias =
     ''{REVERSE='' @ (if state \<and> gb_enable (bias ! 2) \<noteq> 0 then ''1'' else ''0'') @ '';}''"

text \<open>
  The loop over the copied client list: \<open>pick\<close> gives what \<open>calloc\<close> and \<open>strdup\<close> return, \<open>now\<close>
  is the clock.
\<close>

fun pend_clients :: "fd list \<Rightarrow> string \<Rightarrow> int32 \<Rightarrow> int \<Rightarrow> (pend \<Rightarrow> nat option \<times> nat option) \<Rightarrow> pend \<Rightarrow> pend run" where
  "pend_clients [] msg bc now pick p = Done p"
| "pend_clients (f # fs) msg bc now pick p =
     and_run (or_crash (add_pending f msg bc now (pick p) p)) (pend_clients fs msg bc now pick)"

text \<open>The critical section of a lift: count and message.\<close>

definition count_lift :: "comm \<Rightarrow> (string option \<times> comm) run" where
  "count_lift s =
     (let n = bincount s + 1;
          (ok, fs) = write_bincount_to_file BINCOUNT_FILE_NAME n (fsys s)
      in and_run (or_crash (assemble_binlift_message n (esn_data s) (mem s)))
           (\<lambda>(msg, h). Done (msg, s\<lparr>bincount := n, fsys := fs, mem := h\<rparr>)))"

definition lift_change :: "int \<Rightarrow> (pend \<Rightarrow> nat option \<times> nat option) \<Rightarrow> bool \<Rightarrow> comm \<Rightarrow> comm run" where
  "lift_change now pick alloc_ok s =
     and_run (count_lift s)
       (\<lambda>(msg, s). and_run (or_crash msg)
       (\<lambda>m. and_run (or_block (SgTcpServer_broadcast (g_srv s) m (length (cstr m))))
       (\<lambda>srv.
          let (ret, clist, n) = SgTcpServer_get_clients srv alloc_ok
          in and_run (if ret = 0 then pend_clients (take n clist) m (bincount s) now pick (waiting s)
                      else Done (waiting s))
               (\<lambda>p. Done (s\<lparr>g_srv := srv, waiting := p, mem := deallocate (mem s)\<rparr>)))))"

text \<open>A \<open>bool\<close> compared with the byte \<open>enable\<close>.\<close>

definition edge_is_enable :: "bool \<Rightarrow> 8 word \<Rightarrow> bool" where
  "edge_is_enable rising e \<longleftrightarrow> (if rising then 1 else 0) = e"

definition reverse_change :: "bool \<Rightarrow> comm \<Rightarrow> comm run" where
  "reverse_change rising s =
     (let str = assemble_reverse_message
                  (edge_is_enable rising (gb_enable (gpio_bias s ! REVERSE_PORT_NUM))) (gpio_bias s)
      in and_run (or_block (SgTcpServer_broadcast (g_srv s) str (length str)))
           (\<lambda>srv. Done (s\<lparr>g_srv := srv\<rparr>)))"

definition gpio_change_callback :: "int \<Rightarrow> (pend \<Rightarrow> nat option \<times> nat option) \<Rightarrow> bool \<Rightarrow> GPIOChangeInfo \<Rightarrow> comm \<Rightarrow> comm run" where
  "gpio_change_callback now pick alloc_ok chg s =
     (let lift = inputs chg ! BINLIFT_PORT_NUM; rev = inputs chg ! REVERSE_PORT_NUM
      in and_run (if changed lift \<and> edge_is_enable (rising_edge lift) (gb_enable (gpio_bias s ! BINLIFT_PORT_NUM))
                  then lift_change now pick alloc_ok s else Done s)
           (\<lambda>s. if changed rev then reverse_change (rising_edge rev) s else Done s))"

section \<open>Runs\<close>

lemma and_run_Done: "and_run r f = Done y \<longleftrightarrow> (\<exists>x. r = Done x \<and> f x = Done y)"
  by (cases r) auto

lemma or_block_simps [simp]: "or_block (Some x) = Done x" "or_block None = Blocks"
  "or_crash (Some x) = Done x" "or_crash None = Crash"
  by (simp_all add: or_block_def or_crash_def)

text \<open>The start of \<open>main\<close>: the global is zero before the file is read.\<close>

definition load_count :: "comm \<Rightarrow> comm" where
  "load_count s =
     (case read_bincount_from_file BINCOUNT_FILE_NAME 0 (fsys s) of
        (True, n, fs) \<Rightarrow> s\<lparr>bincount := n, fsys := fs\<rparr>
      | (False, n, fs) \<Rightarrow>
          s\<lparr>bincount := n, fsys := snd (write_bincount_to_file BINCOUNT_FILE_NAME 0 fs)\<rparr>)"

section \<open>Routing\<close>

definition queue_of :: "MsgType \<Rightarrow> TaskQueueSet \<Rightarrow> ClientRequest RingBuffer option" where
  "queue_of t qs =
     (case t of MSG_BIN_QUERY \<Rightarrow> bin_query_tasks qs | MSG_CLR_QUERY \<Rightarrow> bin_clear_tasks qs
      | MSG_BIN_ACK \<Rightarrow> bin_ack_tasks qs | MSG_UNKNOWN \<Rightarrow> None)"

text \<open>
  C27: where a client's message goes: a recognised request becomes one task, with the sender
  and the parsed count, at the end of the queue of its kind, whenever that queue has room;
  a full queue that stays full drops it after the timeout; the other queues are untouched,
  and anything else is dropped. Without memory for the task the program writes through \<open>NULL\<close>.
\<close>

theorem on_message_routes:
  assumes p: "parse_client_request (null_task\<lparr>r_client_fd := m_client_fd msg\<rparr>) (m_data msg) = Some (t, task)"
  shows "on_message False msg ws qs = Crash \<and> (t = MSG_UNKNOWN \<longrightarrow> on_message True msg ws qs = Done (0, qs)) \<and>
    (t \<noteq> MSG_UNKNOWN \<and> queue_of t qs = Some q \<and> rb_inv q \<longrightarrow>
      (if cnt q < cap q
       then \<exists>q'. on_message True msg ws qs = Done (1, q') \<and> rb_list (the (queue_of t q')) = rb_list q @ [task] \<and>
         (\<forall>t'. t' \<noteq> t \<longrightarrow> queue_of t' q' = queue_of t' qs)
       else \<forall>q2 ws'. ws = (TimedOut, q2) # ws' \<longrightarrow> (\<exists>q'. on_message True msg ws qs = Done (0, q') \<and>
         queue_of t q' = Some q2 \<and> (\<forall>t'. t' \<noteq> t \<longrightarrow> queue_of t' q' = queue_of t' qs))))"
proof (intro conjI)
  show "on_message False msg ws qs = Crash" by (simp add: on_message_def)
  show "t = MSG_UNKNOWN \<longrightarrow> on_message True msg ws qs = Done (0, qs)"
    using p by (simp add: on_message_def)
  have push: "push_task (Some q) ws task =
      (if cnt q < cap q then Done (1, Some (rb_put q task)) else
       case ws of [] \<Rightarrow> Blocks | (TimedOut, q2) # ws' \<Rightarrow> Done (0, Some q2)
       | (Woken, q2) # ws' \<Rightarrow> push_task (Some q2) ws' task)" if "rb_inv q"
    using that by (auto simp: push_task_def rb_timed_push.simps [of q] rb_inv_def split: list.split prod.split wait_result.split)
  show "t \<noteq> MSG_UNKNOWN \<and> queue_of t qs = Some q \<and> rb_inv q \<longrightarrow>
      (if cnt q < cap q
       then \<exists>q'. on_message True msg ws qs = Done (1, q') \<and> rb_list (the (queue_of t q')) = rb_list q @ [task] \<and>
         (\<forall>t'. t' \<noteq> t \<longrightarrow> queue_of t' q' = queue_of t' qs)
       else \<forall>q2 ws'. ws = (TimedOut, q2) # ws' \<longrightarrow> (\<exists>q'. on_message True msg ws qs = Done (0, q') \<and>
         queue_of t q' = Some q2 \<and> (\<forall>t'. t' \<noteq> t \<longrightarrow> queue_of t' q' = queue_of t' qs)))"
    using p push rb_list_put [of q task]
    by (cases t) (auto simp: on_message_def queue_of_def rb_full_def split: MsgType.splits)
qed

definition example_msg :: SgTcpMessage where
  "example_msg = \<lparr>m_client_fd = 7, m_data = ''{BIN=42;}'' @ [NUL], m_len = 9\<rparr>"

definition empty_tasks :: "ClientRequest RingBuffer" where
  "empty_tasks = \<lparr>buf = [null_task, null_task], cap = 2, head = 0, tail = 0, cnt = 0\<rparr>"

definition example_queues :: TaskQueueSet where
  "example_queues = \<lparr>bin_query_tasks = Some empty_tasks, bin_clear_tasks = Some empty_tasks,
     bin_ack_tasks = Some empty_tasks\<rparr>"

lemma empty_tasks_facts: "rb_inv empty_tasks" "rb_list empty_tasks = []" "cnt empty_tasks < cap empty_tasks"
  by (simp_all add: empty_tasks_def rb_inv_def rb_list_def)

lemma parse_example:
  "parse_client_request (null_task\<lparr>r_client_fd := m_client_fd example_msg\<rparr>) (m_data example_msg) =
     Some (MSG_BIN_ACK, null_task\<lparr>r_client_fd := 7, r_bincount := 42\<rparr>)"
  using parse_ack_ok [of "''42''" "null_task\<lparr>r_client_fd := 7\<rparr>" "[NUL]"]
  by (simp add: example_msg_def CMD_EQL_def is_digit_def null_task_def)

theorem on_message_routes_witness:
  "\<exists>q'. on_message True example_msg [] example_queues = Done (1, q') \<and>
     rb_list (the (bin_ack_tasks q')) = [null_task\<lparr>r_client_fd := 7, r_bincount := 42\<rparr>] \<and>
     bin_query_tasks q' = bin_query_tasks example_queues"
proof -
  have "queue_of MSG_BIN_ACK example_queues = Some empty_tasks"
    by (simp add: queue_of_def example_queues_def)
  then have "\<exists>q'. on_message True example_msg [] example_queues = Done (1, q') \<and>
     rb_list (the (queue_of MSG_BIN_ACK q')) = [null_task\<lparr>r_client_fd := 7, r_bincount := 42\<rparr>] \<and>
     (\<forall>t'. t' \<noteq> MSG_BIN_ACK \<longrightarrow> queue_of t' q' = queue_of t' example_queues)"
    using on_message_routes [OF parse_example, of "[]" example_queues empty_tasks] empty_tasks_facts by simp
  then obtain q' where q': "on_message True example_msg [] example_queues = Done (1, q')"
    "rb_list (the (bin_ack_tasks q')) = [null_task\<lparr>r_client_fd := 7, r_bincount := 42\<rparr>]"
    "queue_of MSG_BIN_QUERY q' = queue_of MSG_BIN_QUERY example_queues"
    by (auto simp: queue_of_def)
  then show ?thesis by (simp add: queue_of_def)
qed

section \<open>The count\<close>

datatype count_event = Lift | Clear | Reboot

fun count_run :: "count_event list \<Rightarrow> comm \<Rightarrow> comm run" where
  "count_run [] s = Done s"
| "count_run (Lift # es) s = and_run (count_lift s) (\<lambda>(msg, s). count_run es s)"
| "count_run (Clear # es) s = count_run es (clear_count s)"
| "count_run (Reboot # es) s = count_run es (load_count s)"

fun count_spec :: "count_event list \<Rightarrow> int32 \<Rightarrow> int32" where
  "count_spec [] n = n"
| "count_spec (Lift # es) n = count_spec es (n + 1)"
| "count_spec (Clear # es) n = count_spec es 0"
| "count_spec (Reboot # es) n = count_spec es n"

definition count_ok :: "comm \<Rightarrow> bool" where
  "count_ok s \<longleftrightarrow> works (fsys s) \<and> stored_count BINCOUNT_FILE_NAME (fsys s) = Some (bincount s)"

lemma clear_count_ok:
  assumes "works (fsys s)"
  shows "count_ok (clear_count s) \<and> bincount (clear_count s) = 0 \<and> esn_data (clear_count s) = esn_data s"
proof -
  obtain b fs1 where w: "write_bincount_to_file BINCOUNT_FILE_NAME 0 (fsys s) = (b, fs1)"
    by (cases "write_bincount_to_file BINCOUNT_FILE_NAME 0 (fsys s)")
  obtain c n fs2 where r: "read_bincount_from_file BINCOUNT_FILE_NAME 0 fs1 = (c, n, fs2)"
    by (cases "read_bincount_from_file BINCOUNT_FILE_NAME 0 fs1")
  note w1 = count_file.save_then [OF assms w]
  then have "n = 0 \<and> works fs2 \<and> stored_count BINCOUNT_FILE_NAME fs2 = Some 0"
    using count_file.load_then [OF _ _ r] by blast
  then show ?thesis by (simp add: clear_count_def w r count_ok_def)
qed

lemma load_count_ok:
  assumes "works (fsys s)" "stored_count BINCOUNT_FILE_NAME (fsys s) = Some n"
  shows "count_ok (load_count s) \<and> bincount (load_count s) = n \<and> esn_data (load_count s) = esn_data s"
proof -
  obtain c v fs2 where r: "read_bincount_from_file BINCOUNT_FILE_NAME 0 (fsys s) = (c, v, fs2)"
    by (cases "read_bincount_from_file BINCOUNT_FILE_NAME 0 (fsys s)")
  show ?thesis using count_file.load_then [OF assms r] by (simp add: load_count_def r count_ok_def)
qed

lemma load_count_first:
  assumes "works (fsys s)" "files (fsys s) BINCOUNT_FILE_NAME = None"
  shows "count_ok (load_count s) \<and> bincount (load_count s) = 0 \<and> esn_data (load_count s) = esn_data s"
proof -
  obtain fs where r: "read_bincount_from_file BINCOUNT_FILE_NAME 0 (fsys s) = (False, 0, fs)" "works fs"
    using assms by (simp add: read_bincount_from_file_def f_open_def tick_works)
  show ?thesis
    using count_file.save_then [OF r(2), of BINCOUNT_FILE_NAME 0]
    by (cases "write_bincount_to_file BINCOUNT_FILE_NAME 0 fs") (simp add: load_count_def r(1) count_ok_def)
qed

lemma count_lift_ok:
  assumes "works (fsys s)" "length (cstr (esn_data s)) \<le> 40"
  shows "\<exists>msg s'. count_lift s = Done (msg, s') \<and> count_ok s' \<and> bincount s' = bincount s + 1 \<and>
    esn_data s' = esn_data s"
proof -
  obtain b fs1 where w: "write_bincount_to_file BINCOUNT_FILE_NAME (bincount s + 1) (fsys s) = (b, fs1)"
    by (cases "write_bincount_to_file BINCOUNT_FILE_NAME (bincount s + 1) (fsys s)")
  obtain m h where m: "assemble_binlift_message (bincount s + 1) (esn_data s) (mem s) = Some (m, h)"
    using assemble_total [OF assms(2)] by blast
  show ?thesis
    using count_file.save_then [OF assms(1) w] by (simp add: count_lift_def w m count_ok_def)
qed

lemma count_run_ok:
  "count_ok s \<Longrightarrow> length (cstr (esn_data s)) \<le> 40 \<Longrightarrow>
    \<exists>s'. count_run es s = Done s' \<and> count_ok s' \<and> bincount s' = count_spec es (bincount s)"
proof (induction es arbitrary: s)
  case (Cons e es)
  have w: "works (fsys s)" "stored_count BINCOUNT_FILE_NAME (fsys s) = Some (bincount s)"
    using Cons.prems(1) by (simp_all add: count_ok_def)
  show ?case
  proof (cases e)
    case Lift
    obtain msg s1 where s1: "count_lift s = Done (msg, s1)" "count_ok s1" "bincount s1 = bincount s + 1"
      "esn_data s1 = esn_data s"
      using count_lift_ok [OF w(1) Cons.prems(2)] by blast
    then show ?thesis using Cons.IH [OF s1(2)] Cons.prems(2) Lift by simp
  next
    case Clear
    then show ?thesis using Cons.IH [of "clear_count s"] clear_count_ok [OF w(1)] Cons.prems(2) by simp
  next
    case Reboot
    then show ?thesis using Cons.IH [of "load_count s"] load_count_ok [OF w] Cons.prems(2) by simp
  qed
qed simp

text \<open>
  C3: the count survives: on a working file system, starting from whatever the file holds (or
  zero without a file), after any sequence of lifts, clears and restarts the count in memory
  is the number of lifts since the last clear added to it, as a 32-bit number, and the file
  holds the same count.
\<close>

theorem count_survives:
  assumes "works (fsys s)" "length (cstr (esn_data s)) \<le> 40"
    and "files (fsys s) BINCOUNT_FILE_NAME = None \<or> stored_count BINCOUNT_FILE_NAME (fsys s) \<noteq> None"
  shows "\<exists>s'. count_run (Reboot # es) s = Done s' \<and>
    bincount s' = count_spec es (case stored_count BINCOUNT_FILE_NAME (fsys s) of None \<Rightarrow> 0 | Some n \<Rightarrow> n) \<and>
    stored_count BINCOUNT_FILE_NAME (fsys s') = Some (bincount s')"
proof (cases "stored_count BINCOUNT_FILE_NAME (fsys s)")
  case None
  then have "files (fsys s) BINCOUNT_FILE_NAME = None" using assms(3) by simp
  from load_count_first [OF assms(1) this] show ?thesis
    using count_run_ok [of "load_count s" es] assms(2) None by (auto simp: count_ok_def)
next
  case (Some n)
  from load_count_ok [OF assms(1) this] show ?thesis
    using count_run_ok [of "load_count s" es] assms(2) Some by (auto simp: count_ok_def)
qed

definition example_comm :: comm where
  "example_comm =
     \<lparr>g_srv = example_srv, bincount = 0, gpio_bias = replicate 7 \<lparr>gb_bias = 0, gb_enable = 1\<rparr>, esn_data = ''46'',
      fsys = \<lparr>files = [BINCOUNT_FILE_NAME \<mapsto> int_bytes 7], io = (\<lambda>_. None), io_calls = 0\<rparr>,
      waiting = no_pending, mem = example_hooks\<rparr>"

lemma example_comm_facts:
  "works (fsys example_comm)" "length (cstr (esn_data example_comm)) \<le> 40"
  "stored_count BINCOUNT_FILE_NAME (fsys example_comm) = Some 7"
  by (simp_all add: example_comm_def works_def cstr_def stored_count_def)

theorem count_survives_witness:
  "\<exists>s'. count_run [Reboot, Lift, Reboot, Lift] example_comm = Done s' \<and> bincount s' = 9"
proof -
  have "stored_count BINCOUNT_FILE_NAME (fsys example_comm) \<noteq> None" by (simp add: example_comm_facts)
  from count_survives [OF example_comm_facts(1,2) disjI2 [OF this], of "[Lift, Reboot, Lift]"]
  show ?thesis by (simp add: example_comm_facts(3)) blast
qed

section \<open>A lift\<close>

text \<open>Memory for entries and texts: both allocations succeed and give blocks that are free.\<close>

definition fresh_pick :: "(pend \<Rightarrow> nat option \<times> nat option) \<Rightarrow> bool" where
  "fresh_pick pick \<longleftrightarrow> (\<forall>p. finite (dom (heap p)) \<and> finite (dom (msgs p)) \<longrightarrow>
     (\<exists>a m. pick p = (Some a, Some m) \<and> heap p a = None \<and> msgs p m = None))"

definition pend_all :: "fd list \<Rightarrow> string \<Rightarrow> int32 \<Rightarrow> int \<Rightarrow> pending_msg list \<Rightarrow> pending_msg list" where
  "pend_all fs msg bc now es = fold (\<lambda>f. abs_add (new_entry f msg bc now)) fs es"

lemma pend_clients_abs:
  "pend_abs p es \<Longrightarrow> fresh_pick pick \<Longrightarrow>
    \<exists>p'. pend_clients fs msg bc now pick p = Done p' \<and> pend_abs p' (pend_all fs msg bc now es)"
proof (induction fs arbitrary: p es)
  case (Cons f fs)
  obtain a m where pick: "pick p = (Some a, Some m)" and h: "heap p a = None" "\<forall>b. Some m = Some b \<longrightarrow> msgs p b = None"
    using Cons.prems pend_abs_blocks(1,2) [OF Cons.prems(1)] unfolding fresh_pick_def by fastforce
  obtain p1 where p1: "add_pending f msg bc now (pick p) p = Some p1"
    "pend_abs p1 (abs_add (new_entry f msg bc now) es)"
    using add_pending_abs [OF Cons.prems(1) h, of f msg bc now] pick by auto
  show ?case using Cons.IH [OF p1(2) Cons.prems(2)] p1(1) by (simp add: pend_all_def)
qed (simp add: pend_all_def)

lemma new_entry_fd [simp]: "pa_fd (new_entry f msg bc now) = f"
  by (simp add: new_entry_def)

lemma pend_all_keeps:
  "f \<notin> set fs \<Longrightarrow> filter (\<lambda>e. pa_fd e = f) (pend_all fs msg bc now es) = filter (\<lambda>e. pa_fd e = f) es"
  by (induction fs arbitrary: es) (auto simp: pend_all_def abs_add_def intro: filter_cong)

lemma pend_all_new:
  "f \<in> set fs \<Longrightarrow> filter (\<lambda>e. pa_fd e = f) (pend_all fs msg bc now es) = [new_entry f msg bc now]"
proof (induction fs arbitrary: es)
  case (Cons g fs)
  show ?case
  proof (cases "f \<in> set fs")
    case True
    then show ?thesis using Cons.IH by (simp add: pend_all_def)
  next
    case False
    then have "g = f" using Cons.prems by simp
    then show ?thesis
      using pend_all_keeps [OF False, of msg bc now "abs_add (new_entry g msg bc now) es"]
      by (simp add: pend_all_def abs_add_def)
  qed
qed simp

lemma broadcast_room:
  assumes "tcp_inv srv" "cnt (send_q srv) + clients_cnt srv \<le> cap (send_q srv)"
  shows "\<exists>srv'. SgTcpServer_broadcast srv d n = Some srv' \<and> tcp_inv srv' \<and>
    client_fds srv' = client_fds srv \<and> clients_cnt srv' = clients_cnt srv \<and>
    srv' = srv\<lparr>send_q := send_q srv'\<rparr> \<and>
    rb_list (send_q srv') = rb_list (send_q srv) @ map (msg_for d n) (client_fds srv)"
proof -
  have "length (client_fds srv) = clients_cnt srv" by (rule length_client_fds [OF assms(1)])
  then obtain srv' where b: "SgTcpServer_broadcast srv d n = Some srv'" "tcp_inv srv'"
    "srv' = srv\<lparr>send_q := send_q srv'\<rparr>"
    "rb_list (send_q srv') = rb_list (send_q srv) @ map (msg_for d n) (client_fds srv)"
    using broadcast_loop_spec [OF assms(1), of "client_fds srv" d n] assms(2)
    by (auto simp: SgTcpServer_broadcast_def split: option.splits)
  have "client_fds srv' = client_fds srv \<and> clients_cnt srv' = clients_cnt srv"
    by (subst (1 2) b(3)) (simp add: client_fds_def)
  then show ?thesis using b by blast
qed

lemma payload_msg_for: "n \<le> length d \<Longrightarrow> payload (msg_for d n f) = (f, take n d)"
  by (simp add: payload_def msg_for_def)

lemma length_cstr_le: "length (cstr s) \<le> length s" and take_cstr: "take (length (cstr s)) s = cstr s"
proof -
  have "cstr s @ dropWhile (\<lambda>c. c \<noteq> NUL) s = s" by (simp add: cstr_def)
  then show "take (length (cstr s)) s = cstr s" by (metis append_eq_conv_conj)
  then show "length (cstr s) \<le> length s" by (metis length_take min.cobounded1)
qed

lemma lift_change_done:
  assumes srv: "tcp_inv (g_srv s)" "cnt (send_q (g_srv s)) + clients_cnt (g_srv s) \<le> cap (send_q (g_srv s))"
    and mem: "plenty (mem s)" "length (cstr (esn_data s)) \<le> 40" and fs: "works (fsys s)"
    and p: "pend_abs (waiting s) es" "fresh_pick pick"
  shows "\<exists>s' m. lift_change now pick True s = Done s' \<and> count_ok s' \<and> bincount s' = bincount s + 1 \<and>
    cstr m = binlift_text (sint (bincount s + 1)) (cstr (esn_data s)) \<and>
    map payload (rb_list (send_q (g_srv s'))) =
      map payload (rb_list (send_q (g_srv s))) @ map (\<lambda>f. (f, cstr m)) (client_fds (g_srv s)) \<and>
    pend_abs (waiting s') (pend_all (client_fds (g_srv s)) m (bincount s + 1) now es) \<and>
    live (mem s') = live (mem s) \<and> gpio_bias s' = gpio_bias s \<and> esn_data s' = esn_data s"
proof -
  define n where "n = bincount s + 1"
  obtain b fs1 where w: "write_bincount_to_file BINCOUNT_FILE_NAME n (fsys s) = (b, fs1)"
    by (cases "write_bincount_to_file BINCOUNT_FILE_NAME n (fsys s)")
  note w1 = count_file.save_then [OF fs w]
  obtain m h where m: "assemble_binlift_message n (esn_data s) (mem s) = Some (Some m, h)"
    "cstr m = binlift_text (sint n) (cstr (esn_data s))" "live h = live (mem s) + 1"
    using assemble_binlift [OF mem, of n] by blast
  define s1 where "s1 = s\<lparr>bincount := n, fsys := fs1, mem := h\<rparr>"
  have c: "count_lift s = Done (Some m, s1)" by (simp add: count_lift_def n_def [symmetric] w m(1) s1_def)
  obtain srv' where b: "SgTcpServer_broadcast (g_srv s) m (length (cstr m)) = Some srv'"
    "client_fds srv' = client_fds (g_srv s)" "clients_cnt srv' = clients_cnt (g_srv s)"
    "rb_list (send_q srv') = rb_list (send_q (g_srv s)) @ map (msg_for m (length (cstr m))) (client_fds (g_srv s))"
    using broadcast_room [OF srv, of m "length (cstr m)"] by blast
  obtain p' where p': "pend_clients (client_fds (g_srv s)) m n now pick (waiting s) = Done p'"
    "pend_abs p' (pend_all (client_fds (g_srv s)) m n now es)"
    using pend_clients_abs [OF p, of "client_fds (g_srv s)" m n now] by blast
  have g: "SgTcpServer_get_clients srv' True = (0, client_fds (g_srv s), clients_cnt (g_srv s))"
    "take (clients_cnt (g_srv s)) (client_fds (g_srv s)) = client_fds (g_srv s)"
    using b length_client_fds [OF srv(1)] by (simp_all add: SgTcpServer_get_clients_def)
  have "map payload (rb_list (send_q srv')) =
      map payload (rb_list (send_q (g_srv s))) @ map (\<lambda>f. (f, cstr m)) (client_fds (g_srv s))"
    by (simp add: b(4) payload_msg_for length_cstr_le take_cstr)
  moreover have "lift_change now pick True s = Done (s1\<lparr>g_srv := srv', waiting := p', mem := deallocate h\<rparr>)"
    using b(1) p'(1) g unfolding lift_change_def c by (simp add: s1_def)
  ultimately show ?thesis
    using w1 m(2,3) p'(2) by (intro exI [of _ "s1\<lparr>g_srv := srv', waiting := p', mem := deallocate h\<rparr>"] exI [of _ m])
      (simp add: s1_def count_ok_def n_def deallocate_def)
qed

text \<open>
  C1: what a bin lift does, with memory and storage working and room in the send queue: the
  count goes up by one and is stored; every connected client is sent exactly the text of
  the lift, once, in table order; each of them has exactly one message waiting for its
  acknowledgement, the new one, while the messages of other clients wait as before; nothing
  leaks.
\<close>

theorem lift_is_counted_sent_and_pending:
  assumes "changed (inputs chg ! BINLIFT_PORT_NUM)" "\<not> changed (inputs chg ! REVERSE_PORT_NUM)"
    and "edge_is_enable (rising_edge (inputs chg ! BINLIFT_PORT_NUM)) (gb_enable (gpio_bias s ! BINLIFT_PORT_NUM))"
    and "tcp_inv (g_srv s)" "cnt (send_q (g_srv s)) + clients_cnt (g_srv s) \<le> cap (send_q (g_srv s))"
    and "\<forall>k. avail (mem s) k" "length (cstr (esn_data s)) \<le> 40" "works (fsys s)"
    and "pend_abs (waiting s) es" "fresh_pick pick"
  shows "\<exists>s' es' txt. gpio_change_callback now pick True chg s = Done s' \<and>
    txt = binlift_text (sint (bincount s + 1)) (cstr (esn_data s)) \<and>
    bincount s' = bincount s + 1 \<and>
    stored_count BINCOUNT_FILE_NAME (fsys s') = Some (bincount s + 1) \<and>
    map payload (rb_list (send_q (g_srv s'))) =
      map payload (rb_list (send_q (g_srv s))) @ map (\<lambda>f. (f, txt)) (client_fds (g_srv s)) \<and>
    pend_abs (waiting s') es' \<and>
    (\<forall>f. filter (\<lambda>e. pa_fd e = f) es' =
       (if f \<in> set (client_fds (g_srv s)) then [new_entry f txt (bincount s + 1) now]
        else filter (\<lambda>e. pa_fd e = f) es)) \<and>
    live (mem s') = live (mem s)"
proof -
  obtain s' m where l: "lift_change now pick True s = Done s'" "count_ok s'" "bincount s' = bincount s + 1"
    "cstr m = binlift_text (sint (bincount s + 1)) (cstr (esn_data s))"
    "map payload (rb_list (send_q (g_srv s'))) =
      map payload (rb_list (send_q (g_srv s))) @ map (\<lambda>f. (f, cstr m)) (client_fds (g_srv s))"
    "pend_abs (waiting s') (pend_all (client_fds (g_srv s)) m (bincount s + 1) now es)"
    "live (mem s') = live (mem s)"
    using lift_change_done [OF assms(4-10), of now] by blast
  have "gpio_change_callback now pick True chg s = Done s'"
    using assms(1-3) l(1) by (simp add: gpio_change_callback_def Let_def)
  moreover have "new_entry f m (bincount s + 1) now = new_entry f (cstr m) (bincount s + 1) now" for f
    by (simp add: new_entry_def)
  ultimately show ?thesis
    using l by (intro exI [of _ s'] exI [of _ "pend_all (client_fds (g_srv s)) m (bincount s + 1) now es"]
        exI [of _ "cstr m"]) (simp add: count_ok_def pend_all_new pend_all_keeps)
qed

definition lift_event :: GPIOChangeInfo where
  "lift_event = \<lparr>inputs = (replicate 7 \<lparr>changed = False, rising_edge = False\<rparr>)[1 := \<lparr>changed = True, rising_edge = True\<rparr>],
     current_state = 2\<rparr>"

definition next_block :: "pend \<Rightarrow> nat option \<times> nat option" where
  "next_block p = (Some (LEAST a. heap p a = None), Some (LEAST m. msgs p m = None))"

lemma least_free: "finite (dom f) \<Longrightarrow> f (LEAST a. f a = None) = None" for f :: "nat \<Rightarrow> 'b option"
proof (rule LeastI_ex)
  assume "finite (dom f)"
  from ex_new_if_finite [OF infinite_UNIV_nat this] show "\<exists>a. f a = None" unfolding domIff not_not .
qed

lemma fresh_next_block: "fresh_pick next_block"
  by (simp add: fresh_pick_def next_block_def least_free)

theorem lift_is_counted_sent_and_pending_witness:
  "\<exists>s'. gpio_change_callback 100 next_block True lift_event (load_count example_comm) = Done s' \<and> bincount s' = 8 \<and>
     map payload (rb_list (send_q (g_srv s'))) = map (\<lambda>f. (f, binlift_text 8 ''46'')) [7, 8, 9]"
proof -
  define s where "s = load_count example_comm"
  have s: "bincount s = 7" "works (fsys s)" "g_srv s = example_srv" "mem s = example_hooks" "esn_data s = ''46''"
    "waiting s = no_pending" "gpio_bias s = gpio_bias example_comm"
    using load_count_ok [OF example_comm_facts(1,3)]
    by (auto simp: s_def count_ok_def load_count_def example_comm_def split: prod.split bool.split)
  have c: "cstr ''46'' = ''46''" by (simp add: cstr_def)
  have q: "rb_list (send_q example_srv) = []" "client_fds example_srv = [7, 8, 9]"
    by (simp_all add: example_srv_def rb_list_def client_fds_def)
  have "\<exists>s' es' txt. gpio_change_callback 100 next_block True lift_event s = Done s' \<and>
    txt = binlift_text (sint (bincount s + 1)) (cstr (esn_data s)) \<and> bincount s' = bincount s + 1 \<and>
    map payload (rb_list (send_q (g_srv s'))) =
      map payload (rb_list (send_q (g_srv s))) @ map (\<lambda>f. (f, txt)) (client_fds (g_srv s))"
    using lift_is_counted_sent_and_pending [of lift_event s "[]" next_block 100] s fresh_next_block
      no_pending_abs example_srv_inv
    by (simp add: lift_event_def BINLIFT_PORT_NUM_def REVERSE_PORT_NUM_def example_comm_def edge_is_enable_def c)
      (auto simp: example_srv_def example_hooks_def)
  then show ?thesis unfolding s_def [symmetric] using s c q by auto
qed

section \<open>Requests to the end\<close>

lemma pop_task_cons:
  assumes "rb_inv q" "rb_list q = t # ts"
  shows "\<exists>q'. pop_task q = (Some t, q') \<and> rb_inv q' \<and> rb_list q' = ts"
proof -
  have ne: "\<not> rb_empty q" using assms(2) by (simp add: rb_empty_iff)
  then have "cnt q \<noteq> 0" by (simp add: rb_empty_def)
  then have "pop_task q = (Some (fst (rb_take q)), snd (rb_take q))"
    by (simp add: pop_task_def rb_timed_pop.simps [of q] split: prod.split)
  then show ?thesis
    using rb_list_take [OF assms(1) ne] rb_inv_take [OF assms(1) ne] assms(2) by simp
qed

lemma pop_task_empty: "rb_list q = [] \<Longrightarrow> pop_task q = (None, q)"
proof -
  assume "rb_list q = []"
  then have "cnt q = 0" by (metis length_rb_list list.size(3))
  then show ?thesis by (simp add: pop_task_def rb_timed_pop.simps [of q])
qed

text \<open>The handlers print into \<^verbatim>\<open>char str[256]\<close>: it is never cut.\<close>

lemma length_bin_text: "length (bin_text n) \<le> 18"
  using length_show_int [OF int32_exact(2) [of n]] by (simp add: bin_text_def)

text \<open>One task through its queue: what \<open>on_message\<close> pushes is what the next turn pops.\<close>

lemma push_then_pop:
  assumes q: "rb_inv q" "rb_list q = []" "cnt q < cap q"
  shows "\<exists>q1 q2. push_task (Some q) ws task = Done (1, Some q1) \<and> pop_task q1 = (Some task, q2) \<and>
    rb_inv q2 \<and> rb_list q2 = []"
proof -
  have full: "\<not> rb_full q" using q(3) by (simp add: rb_full_def)
  have "push_task (Some q) ws task = Done (1, Some (rb_put q task))"
    using q(3) by (simp add: push_task_def rb_timed_push.simps [of q])
  moreover obtain q2 where "pop_task (rb_put q task) = (Some task, q2)" "rb_inv q2" "rb_list q2 = []"
    using pop_task_cons [of "rb_put q task" task "[]"] rb_inv_put [OF q(1) full] rb_list_put [OF q(1) full] q(2)
    by auto
  ultimately show ?thesis by blast
qed

text \<open>
  a query is answered: the bytes \<^verbatim>\<open>{BIN?;}\<close> of a client travel through the query queue to
  its thread, which queues for that client, and for no other, the current count in decimal.
\<close>

theorem query_is_answered:
  assumes "take 7 (m_data msg) = CMD_QUES"
    and "bin_query_tasks qs = Some q" "rb_inv q" "rb_list q = []" "cnt q < cap q"
    and "tcp_inv (g_srv s)" "cnt (send_q (g_srv s)) < cap (send_q (g_srv s))"
  shows "\<exists>qs1 q1 q2 s'. on_message True msg ws qs = Done (1, qs1) \<and> bin_query_tasks qs1 = Some q1 \<and>
    bin_query_handler (q1, s) = Done (q2, s') \<and> rb_list q2 = [] \<and>
    map payload (rb_list (send_q (g_srv s'))) = map payload (rb_list (send_q (g_srv s))) @
      [(m_client_fd msg, ''{BIN='' @ show_int (sint (bincount s)) @ '';}'')] \<and>
    s' = s\<lparr>g_srv := g_srv s'\<rparr>"
proof -
  define task where "task = null_task\<lparr>r_client_fd := m_client_fd msg\<rparr>"
  have "strncmp_eq (m_data msg) CMD_QUES 7 = Some True"
    using assms(1) by (intro parse_strncmp_true [THEN iffD2]) (simp_all add: cmd_facts)
  then have p: "parse_client_request task (m_data msg) = Some (MSG_BIN_QUERY, task)"
    by (simp add: parse_client_request_def)
  obtain q1 q2 where q: "push_task (Some q) ws task = Done (1, Some q1)" "pop_task q1 = (Some task, q2)"
    "rb_list q2 = []" using push_then_pop [OF assms(3-5)] by blast
  define m where "m = msg_for (bin_text (bincount s)) (length (bin_text (bincount s))) (m_client_fd msg)"
  define srv where "srv = (g_srv s)\<lparr>send_q := rb_put (send_q (g_srv s)) m\<rparr>"
  have "SgTcpServer_send (g_srv s) (r_client_fd task) (bin_text (bincount s)) (length (bin_text (bincount s))) = Some srv"
    using assms(7) by (simp add: send_cases [OF assms(6)] srv_def m_def task_def)
  then have "bin_query_handler (q1, s) = Done (q2, s\<lparr>g_srv := srv\<rparr>)"
    by (simp add: bin_query_handler_def q(2) Let_def)
  moreover have "on_message True msg ws qs = Done (1, qs\<lparr>bin_query_tasks := Some q1\<rparr>)"
    using p assms(2) q(1) by (simp add: on_message_def task_def)
  moreover have "payload m = (m_client_fd msg, bin_text (bincount s))"
    by (simp add: m_def payload_def msg_for_def)
  ultimately show ?thesis
    using send_inv(2) [OF assms(6,7), of m] q(3)
    by (intro exI [of _ "qs\<lparr>bin_query_tasks := Some q1\<rparr>"] exI [of _ q1] exI [of _ q2]
        exI [of _ "s\<lparr>g_srv := srv\<rparr>"]) (simp add: srv_def bin_text_def)
qed

definition query_msg :: SgTcpMessage where
  "query_msg = \<lparr>m_client_fd = 8, m_data = CMD_QUES @ ''?'', m_len = 7\<rparr>"

theorem query_is_answered_witness:
  "\<exists>qs1 q1 q2 s'. on_message True query_msg [] example_queues = Done (1, qs1) \<and> bin_query_tasks qs1 = Some q1 \<and>
    bin_query_handler (q1, example_comm) = Done (q2, s') \<and>
    map payload (rb_list (send_q (g_srv s'))) = [(8, ''{BIN=0;}'')]"
proof -
  have d: "take 7 (m_data query_msg) = CMD_QUES" "m_client_fd query_msg = 8"
    by (simp_all add: query_msg_def CMD_QUES_def)
  have e: "bin_query_tasks example_queues = Some empty_tasks" by (simp add: example_queues_def)
  have g: "tcp_inv (g_srv example_comm)" "cnt (send_q (g_srv example_comm)) < cap (send_q (g_srv example_comm))"
    "rb_list (send_q (g_srv example_comm)) = []" "bincount example_comm = 0"
    by (simp_all add: example_comm_def example_srv_inv, simp_all add: example_srv_def rb_list_def)
  have n: "show_int (sint (0 :: int32)) = ''0''" by code_simp
  show ?thesis
    using query_is_answered [OF d(1) e empty_tasks_facts g(1,2), of "[]"] unfolding g(3,4) d(2) n by auto
qed

lemma ack_first_other: "f \<noteq> g \<Longrightarrow> filter (\<lambda>e. pa_fd e = f) (ack_first g bc es) = filter (\<lambda>e. pa_fd e = f) es"
  by (induction es) auto

lemma ack_first_only:
  "filter (\<lambda>e. pa_fd e = f) es = [e] \<Longrightarrow> pa_bincount e = bc \<Longrightarrow>
    filter (\<lambda>e. pa_fd e = f) (ack_first f bc es) = [e\<lparr>acked := True\<rparr>]"
proof (induction es)
  case (Cons x es)
  show ?case
  proof (cases "pa_fd x = f")
    case True
    then have "x = e" using Cons.prems(1) by simp
    then show ?thesis using True Cons.prems by simp
  qed (use Cons in simp)
qed simp

lemma no_pass_acked:
  assumes "filter (\<lambda>e. pa_fd e = f) es = [e]" "acked e"
  shows "\<forall>x \<in> set (resent now es). pa_fd x \<noteq> f" "\<forall>x \<in> set (abs_pass now es). pa_fd x \<noteq> f"
proof -
  have "acked x" if "x \<in> set es" "pa_fd x = f" for x
  proof -
    have "x \<in> set (filter (\<lambda>e. pa_fd e = f) es)" using that by simp
    then show ?thesis using assms by simp
  qed
  then show "\<forall>x \<in> set (resent now es). pa_fd x \<noteq> f" "\<forall>x \<in> set (abs_pass now es). pa_fd x \<noteq> f"
    by (auto simp: resent_def abs_pass_def keep_def bump_def)
qed

text \<open>
  C13: an acknowledgement stops the resending: when the only message waiting for a client is
  the one for lift \<open>n\<close>, and the client answers with the bytes that the server itself uses for
  the count \<open>n\<close>, then after the turn of the acknowledgement thread the next pass of the
  resend thread sends that client nothing and forgets its message. The text of a negative
  count is not recognised, so such a lift cannot be acknowledged.
\<close>

theorem ack_stops_resending:
  assumes "pend_abs (waiting s) es" "filter (\<lambda>e. pa_fd e = m_client_fd msg) es = [e]" "pa_bincount e = n"
    and "m_data msg = bin_text n @ rest"
    and "bin_ack_tasks qs = Some q" "rb_inv q" "rb_list q = []" "cnt q < cap q"
  shows "if sint n < 0 then on_message True msg ws qs = Done (0, qs)
    else \<exists>qs1 q1 q2 s' es'. on_message True msg ws qs = Done (1, qs1) \<and> bin_ack_tasks qs1 = Some q1 \<and>
      bin_ack_handler (q1, s) = Done (q2, s') \<and> pend_abs (waiting s') es' \<and>
      (\<forall>now. (\<forall>x \<in> set (resent now es'). pa_fd x \<noteq> m_client_fd msg) \<and>
             (\<forall>x \<in> set (abs_pass now es'). pa_fd x \<noteq> m_client_fd msg))"
proof -
  have d: "m_data msg = CMD_EQL @ show_int (sint n) @ '';}'' @ rest"
    by (simp add: assms(4) bin_text_def CMD_EQL_def)
  define task where "task = null_task\<lparr>r_client_fd := m_client_fd msg\<rparr>"
  show ?thesis
  proof (cases "sint n < 0")
    case True
    then have "parse_client_request task (m_data msg) = Some (MSG_UNKNOWN, task)"
      unfolding d parse_ack_body by (simp add: show_int_def is_digit_def)
    then show ?thesis using True by (simp add: on_message_def task_def)
  next
    case False
    define k where "k = nat (sint n)"
    have k: "show_int (sint n) = show_nat k" "(of_nat k :: int32) = n"
      using False by (simp_all add: show_int_def k_def)
    define t where "t = task\<lparr>r_bincount := n\<rparr>"
    have "parse_client_request task (m_data msg) = Some (MSG_BIN_ACK, t)"
      unfolding d k(1) using parse_ack_ok [of "show_nat k" task rest] show_nat_digits k(2) by (simp add: t_def)
    moreover obtain q1 q2 where q: "push_task (Some q) ws t = Done (1, Some q1)" "pop_task q1 = (Some t, q2)"
      using push_then_pop [OF assms(6-8)] by blast
    ultimately have "on_message True msg ws qs = Done (1, qs\<lparr>bin_ack_tasks := Some q1\<rparr>)"
      using assms(5) by (simp add: on_message_def task_def)
    moreover obtain p' where p': "mark_acked (m_client_fd msg) n (waiting s) = Some p'"
      "pend_abs p' (ack_first (m_client_fd msg) n es)"
      using mark_acked_abs [OF assms(1)] by blast
    have "bin_ack_handler (q1, s) = Done (q2, s\<lparr>waiting := p'\<rparr>)"
      using p'(1) by (simp add: bin_ack_handler_def q(2) t_def task_def)
    moreover note no_pass_acked [OF ack_first_only [OF assms(2,3)]]
    ultimately show ?thesis
      using False p'(2)
      by (intro iffD2 [OF if_not_P] exI [of _ "qs\<lparr>bin_ack_tasks := Some q1\<rparr>"] exI [of _ q1] exI [of _ q2]
          exI [of _ "s\<lparr>waiting := p'\<rparr>"] exI [of _ "ack_first (m_client_fd msg) n es"]) simp_all
  qed
qed

theorem ack_stops_resending_witness:
  "\<exists>p qs1 q1 q2 s' es'. pend_abs p [new_entry 7 ''hi'' 42 100] \<and>
     on_message True example_msg [] example_queues = Done (1, qs1) \<and> bin_ack_tasks qs1 = Some q1 \<and>
     bin_ack_handler (q1, example_comm\<lparr>waiting := p\<rparr>) = Done (q2, s') \<and> pend_abs (waiting s') es' \<and>
     (\<forall>x \<in> set (resent 200 es'). pa_fd x \<noteq> 7)"
proof -
  obtain p where p: "pend_abs p [new_entry 7 ''hi'' 42 100]"
    using add_first by blast
  have n: "show_int (sint (42 :: int32)) = ''42''" by code_simp
  have d: "m_data example_msg = bin_text 42 @ [NUL]" "m_client_fd example_msg = 7"
    unfolding bin_text_def n by (simp_all add: example_msg_def)
  have q: "bin_ack_tasks example_queues = Some empty_tasks" by (simp add: example_queues_def)
  have w: "pend_abs (waiting (example_comm\<lparr>waiting := p\<rparr>)) [new_entry 7 ''hi'' 42 100]" using p by simp
  have e: "filter (\<lambda>e. pa_fd e = m_client_fd example_msg) [new_entry 7 ''hi'' 42 100] = [new_entry 7 ''hi'' 42 100]"
    "pa_bincount (new_entry 7 ''hi'' 42 100) = 42" by (simp_all add: d new_entry_def)
  have "\<not> sint (42 :: int32) < 0" by code_simp
  note ack = iffD1 [OF if_not_P [OF this] ack_stops_resending [OF w e d(1) q empty_tasks_facts, of "[]"], unfolded d(2)]
  then obtain qs1 q1 q2 s' es' where r: "on_message True example_msg [] example_queues = Done (1, qs1)"
    "bin_ack_tasks qs1 = Some q1" "bin_ack_handler (q1, example_comm\<lparr>waiting := p\<rparr>) = Done (q2, s')"
    "pend_abs (waiting s') es'"
    and never: "\<forall>now. (\<forall>x \<in> set (resent now es'). pa_fd x \<noteq> 7) \<and> (\<forall>x \<in> set (abs_pass now es'). pa_fd x \<noteq> 7)"
    by (elim exE conjE) blast
  have "\<forall>x \<in> set (resent 200 es'). pa_fd x \<noteq> 7" using never by blast
  then show ?thesis using r p by (intro exI conjI)
qed

section \<open>Clearing\<close>

text \<open>
  a clear, with storage working and room to send: the count is zero in memory and in the
  file, and every connected client is told so.
\<close>

theorem clear_spec:
  assumes "rb_inv q" "rb_list q = t # ts" "works (fsys s)"
    and "tcp_inv (g_srv s)" "cnt (send_q (g_srv s)) + clients_cnt (g_srv s) \<le> cap (send_q (g_srv s))"
  shows "\<exists>q' s'. bin_clr_handler (q, s) = Done (q', s') \<and> rb_list q' = ts \<and> bincount s' = 0 \<and>
    stored_count BINCOUNT_FILE_NAME (fsys s') = Some 0 \<and>
    map payload (rb_list (send_q (g_srv s'))) =
      map payload (rb_list (send_q (g_srv s))) @ map (\<lambda>f. (f, ''{BIN=0;}'')) (client_fds (g_srv s)) \<and>
    waiting s' = waiting s"
proof -
  obtain q' where q': "pop_task q = (Some t, q')" "rb_list q' = ts" using pop_task_cons [OF assms(1,2)] by blast
  note c = clear_count_ok [OF assms(3)]
  have g: "g_srv (clear_count s) = g_srv s" "waiting (clear_count s) = waiting s"
    by (simp_all add: clear_count_def split: prod.split)
  have "bin_text (bincount (clear_count s)) = ''{BIN=0;}''"
  proof -
    have "show_int (sint (0 :: int32)) = ''0''" by code_simp
    then show ?thesis using c by (simp add: bin_text_def)
  qed
  moreover obtain srv' where "SgTcpServer_broadcast (g_srv s) ''{BIN=0;}'' (length ''{BIN=0;}'') = Some srv'"
    "rb_list (send_q srv') = rb_list (send_q (g_srv s)) @ map (msg_for ''{BIN=0;}'' (length ''{BIN=0;}'')) (client_fds (g_srv s))"
    using broadcast_room [OF assms(4,5), of "''{BIN=0;}''" "length ''{BIN=0;}''"] by blast
  ultimately show ?thesis
    using q' c g unfolding bin_clr_handler_def
    by (intro exI [of _ q'] exI [of _ "(clear_count s)\<lparr>g_srv := srv'\<rparr>"])
      (simp add: Let_def count_ok_def payload_msg_for)
qed

theorem clear_spec_witness:
  "\<exists>q' s'. bin_clr_handler (rb_put empty_tasks null_task, example_comm\<lparr>bincount := 7\<rparr>) = Done (q', s') \<and>
     bincount s' = 0 \<and> map payload (rb_list (send_q (g_srv s'))) = map (\<lambda>f. (f, ''{BIN=0;}'')) [7, 8, 9]"
proof -
  have q: "rb_inv (rb_put empty_tasks null_task)" "rb_list (rb_put empty_tasks null_task) = [null_task]"
    using rb_inv_put [OF empty_tasks_facts(1)] rb_list_put [OF empty_tasks_facts(1)] empty_tasks_facts(2,3)
    by (simp_all add: rb_full_def)
  define s where "s = example_comm\<lparr>bincount := 7\<rparr>"
  have s: "works (fsys s)" "tcp_inv (g_srv s)" "client_fds (g_srv s) = [7, 8, 9]" "rb_list (send_q (g_srv s)) = []"
    "cnt (send_q (g_srv s)) + clients_cnt (g_srv s) \<le> cap (send_q (g_srv s))"
    using example_comm_facts(1) example_srv_inv
    by (simp_all add: s_def example_comm_def) (simp_all add: example_srv_def client_fds_def rb_list_def)
  show ?thesis
    using clear_spec [OF q s(1,2,5)] unfolding s(3,4) s_def [symmetric] by auto
qed

end
