(* ===== verification/App.thy ===== *)
theory App
  imports Comm JParseSafe
begin

text \<open>
  The program as a whole, \<^verbatim>\<open>main.c\<close> and the start and stop of \<^verbatim>\<open>sg-comm.c\<close>: the
  configuration of the inputs, the order in which things are brought up and taken down.
\<close>

section \<open>The configuration\<close>

definition channel_name :: "string list" where
  "channel_name =
     [''ignition'', ''binlift'', ''reverse'', ''waterjet'', ''sweeper'', ''reserve1'', ''reserve2'']"

text \<open>One round of the loop: the bias table and \<open>gpio_bias_state\<close>.\<close>

definition config_channel :: "CJSON \<Rightarrow> nat \<Rightarrow> GpioBias list \<times> uint32 \<Rightarrow> (GpioBias list \<times> uint32) run" where
  "config_channel root i st =
     (let obj = cJSON_GetObjectItem (Some root) (Some (channel_name ! i)) in
      if cJSON_IsObject obj then
        (let b = cJSON_GetObjectItem obj (Some ''bias'');
             e = cJSON_GetObjectItem obj (Some ''enable'')
         in if cJSON_IsString b \<and> cJSON_IsString e then
              and_run (or_crash (valuestring (info (the b)))) (\<lambda>bv.
              and_run (or_crash (valuestring (info (the e)))) (\<lambda>ev.
                (let (tab, state) = st;
                     (bias, state) = (if cstr bv = ''high'' then (1, state OR push_bit i 1)
                                      else (0, state AND NOT (push_bit i 1)));
                     enable = (if cstr ev = ''high'' then 1 else 0)
                 in Done (tab[i := \<lparr>gb_bias = bias, gb_enable = enable\<rparr>], state))))
            else Done st)
      else Done st)"

fun config_loop :: "CJSON \<Rightarrow> nat list \<Rightarrow> GpioBias list \<times> uint32 \<Rightarrow> (GpioBias list \<times> uint32) run" where
  "config_loop root [] st = Done st"
| "config_loop root (i # is) st = and_run (config_channel root i st) (config_loop root is)"




section \<open>Starting and stopping\<close>

record app =
  cm :: comm
  dev :: gpio
  task_queues :: TaskQueueSet
  thread_stop :: bool
  handlers :: nat         \<comment> \<open>request and resend threads running\<close>
  server_threads :: bool
  monitor_on :: bool
  callback_set :: bool
  running :: bool



definition stop_gpio_monitor :: "app \<Rightarrow> app" where
  "stop_gpio_monitor a = a\<lparr>monitor_on := False\<rparr>"



text \<open>The three parts of \<open>stop_sg_server\<close>: join the threads, destroy the queues, free the server.\<close>

definition stop_threads :: "app \<Rightarrow> app" where
  "stop_threads a = (stop_gpio_monitor (a\<lparr>thread_stop := True\<rparr>))\<lparr>handlers := 0\<rparr>"

definition destroy_queues :: "app \<Rightarrow> app" where
  "destroy_queues a =
     a\<lparr>task_queues := \<lparr>bin_query_tasks = rb_destroy (bin_query_tasks (task_queues a)),
         bin_clear_tasks = rb_destroy (bin_clear_tasks (task_queues a)),
         bin_ack_tasks = rb_destroy (bin_ack_tasks (task_queues a))\<rparr>\<rparr>"

definition free_server :: "app \<Rightarrow> app" where
  "free_server a = a\<lparr>cm := (cm a)\<lparr>g_srv := SgTcpServer_free (g_srv (cm a))\<rparr>, server_threads := False\<rparr>"

definition stop_sg_server :: "app \<Rightarrow> app" where
  "stop_sg_server a = free_server (destroy_queues (stop_threads a))"

text \<open>The signal handler, which the program does not install.\<close>

definition handle_sigint :: "app \<Rightarrow> app" where
  "handle_sigint a = a\<lparr>running := False, cm := (cm a)\<lparr>g_srv := SgTcpServer_stop (g_srv (cm a))\<rparr>\<rparr>"

section \<open>The boot order\<close>

definition ESN_FILE_NAME :: string where "ESN_FILE_NAME = ''/etc/config/calamp_sysparams''"




text \<open>What is left when the waiting loop ends.\<close>

definition shut_down :: "app \<Rightarrow> app" where
  "shut_down a = (let a = stop_sg_server a in a\<lparr>dev := gpio_deinit (dev a)\<rparr>)"

section \<open>The configuration that is applied\<close>

text \<open>What a tree says of a channel: the two strings, when they are there.\<close>

definition channel_conf :: "CJSON \<Rightarrow> nat \<Rightarrow> (string \<times> string) option" where
  "channel_conf root i =
     (let obj = cJSON_GetObjectItem (Some root) (Some (channel_name ! i));
          b = cJSON_GetStringValue (cJSON_GetObjectItem obj (Some ''bias''));
          e = cJSON_GetStringValue (cJSON_GetObjectItem obj (Some ''enable''))
      in if cJSON_IsObject obj then
           (case (b, e) of (Some b, Some e) \<Rightarrow> Some (cstr b, cstr e) | _ \<Rightarrow> None)
         else None)"

lemma get_object_item_wf:
  assumes "get_object_item ob n cs = Some c" "\<forall>x. ob = Some x \<longrightarrow> wf_json x"
  shows "wf_json c"
proof -
  obtain x k where x: "ob = Some x" "n = Some k" using assms(1) by (auto simp: get_object_item_def split: option.splits)
  have "c \<in> set (child x)"
  proof -
    have s: "find_sensitive k cs = Some c \<Longrightarrow> c \<in> set cs" for k cs
      by (induction cs) (auto split: option.splits if_splits)
    have i: "find_insensitive k cs = Some c \<Longrightarrow> c \<in> set cs" for k cs
      by (induction cs) (auto split: if_splits)
    show ?thesis using assms(1) x s [of k "child x"] i [of k "child x"]
      by (auto simp: get_object_item_def split: option.splits if_splits)
  qed
  moreover have "wf_json x" using assms(2) x by simp
  ultimately show ?thesis by (cases x) (auto simp: wf_json.simps split: if_splits)
qed

lemma wf_type: "wf_json it \<Longrightarrow> jtype (info it) AND 0xFF = jtype (info it)"
  by (cases it) (auto simp: wf_json.simps json_types split: if_splits)

lemma wf_string:
  assumes "wf_json it" "cJSON_IsString (Some it)"
  shows "\<exists>v. valuestring (info it) = Some v"
  using assms wf_type [OF assms(1)]
  by (cases it) (auto simp: cJSON_IsString_def type_is_def wf_json.simps json_types)

lemma config_channel_eq:
  assumes "wf_json root"
  shows "config_channel root i (tab, state) = Done (case channel_conf root i of
      None \<Rightarrow> (tab, state)
    | Some (b, e) \<Rightarrow>
        (tab[i := \<lparr>gb_bias = (if b = ''high'' then 1 else 0), gb_enable = (if e = ''high'' then 1 else 0)\<rparr>],
         if b = ''high'' then state OR push_bit i 1 else state AND NOT (push_bit i 1)))"
proof -
  define obj where "obj = cJSON_GetObjectItem (Some root) (Some (channel_name ! i))"
  define b where "b = cJSON_GetObjectItem obj (Some ''bias'')"
  define e where "e = cJSON_GetObjectItem obj (Some ''enable'')"
  have wo: "\<forall>x. obj = Some x \<longrightarrow> wf_json x"
    using get_object_item_wf [of "Some root"] assms by (auto simp: obj_def cJSON_GetObjectItem_def)
  have wb: "wf_json x" if "b = Some x" for x
    using get_object_item_wf [OF that [unfolded b_def cJSON_GetObjectItem_def] wo] .
  have we: "wf_json x" if "e = Some x" for x
    using get_object_item_wf [OF that [unfolded e_def cJSON_GetObjectItem_def] wo] .
  have sb: "cJSON_IsString b \<Longrightarrow> \<exists>v. cJSON_GetStringValue b = Some v \<and> valuestring (info (the b)) = Some v"
    using wf_string wb by (cases b) (auto simp: cJSON_GetStringValue_def cJSON_IsString_def type_is_def)
  have se: "cJSON_IsString e \<Longrightarrow> \<exists>v. cJSON_GetStringValue e = Some v \<and> valuestring (info (the e)) = Some v"
    using wf_string we by (cases e) (auto simp: cJSON_GetStringValue_def cJSON_IsString_def type_is_def)
  have nb: "\<not> cJSON_IsString b \<Longrightarrow> cJSON_GetStringValue b = None" "\<not> cJSON_IsString e \<Longrightarrow> cJSON_GetStringValue e = None"
    by (auto simp: cJSON_GetStringValue_def split: option.split)
  show ?thesis
    unfolding config_channel_def channel_conf_def obj_def [symmetric] Let_def b_def [symmetric] e_def [symmetric]
    using sb se nb by (cases "cJSON_IsString b"; cases "cJSON_IsString e") auto
qed

lemma config_loop_spec:
  "wf_json root \<Longrightarrow> distinct is \<Longrightarrow> \<forall>i \<in> set is. i < 32 \<and> i < length tab \<Longrightarrow>
    \<exists>tab' state'. config_loop root is (tab, state) = Done (tab', state') \<and> length tab' = length tab \<and>
      (\<forall>i < length tab. tab' ! i = (if i \<in> set is then
          (case channel_conf root i of None \<Rightarrow> tab ! i
           | Some (b, e) \<Rightarrow> \<lparr>gb_bias = (if b = ''high'' then 1 else 0), gb_enable = (if e = ''high'' then 1 else 0)\<rparr>)
        else tab ! i)) \<and>
      (\<forall>i < 32. bit state' i = (if i \<in> set is then
          (case channel_conf root i of None \<Rightarrow> bit state i | Some (b, e) \<Rightarrow> b = ''high'') else bit state i))"
proof (induction "is" arbitrary: tab state)
  case (Cons i "is")
  show ?case
  proof (cases "channel_conf root i")
    case None
    then show ?thesis
      using Cons.IH [of tab state] Cons.prems by (auto simp: config_channel_eq)
  next
    case (Some be)
    obtain b e where be: "be = (b, e)" by (cases be)
    define tab1 where "tab1 = tab[i := \<lparr>gb_bias = (if b = ''high'' then 1 else 0 :: 8 word),
        gb_enable = (if e = ''high'' then 1 else 0 :: 8 word)\<rparr>]"
    define st1 where "st1 = (if b = ''high'' then state OR push_bit i 1 else state AND NOT (push_bit i 1))"
    have c: "config_channel root i (tab, state) = Done (tab1, st1)"
      using Cons.prems(1) Some be by (simp add: config_channel_eq tab1_def st1_def)
    have st1: "bit st1 j = (if j = i then b = ''high'' else bit state j)" if "j < 32" for j
      using that Cons.prems(3)
      by (auto simp: st1_def bit_or_iff bit_and_iff bit_not_iff bit_exp_iff)
    obtain tab' state' where r: "config_loop root is (tab1, st1) = Done (tab', state')"
      "length tab' = length tab"
      "\<forall>j < length tab. tab' ! j = (if j \<in> set is then
          (case channel_conf root j of None \<Rightarrow> tab1 ! j
           | Some (b, e) \<Rightarrow> \<lparr>gb_bias = (if b = ''high'' then 1 else 0), gb_enable = (if e = ''high'' then 1 else 0)\<rparr>)
        else tab1 ! j)"
      "\<forall>j < 32. bit state' j = (if j \<in> set is then
          (case channel_conf root j of None \<Rightarrow> bit st1 j | Some (b, e) \<Rightarrow> b = ''high'') else bit st1 j)"
      using Cons.IH [of tab1 st1] Cons.prems by (auto simp: tab1_def)
    have i: "i \<notin> set is" "i < length tab" using Cons.prems by auto
    show ?thesis
    proof (intro exI conjI allI impI)
      show "config_loop root (i # is) (tab, state) = Done (tab', state')" by (simp add: c r(1))
      show "length tab' = length tab" by (rule r(2))
      fix j
      show "tab' ! j = (if j \<in> set (i # is) then
          (case channel_conf root j of None \<Rightarrow> tab ! j
           | Some (b, e) \<Rightarrow> \<lparr>gb_bias = (if b = ''high'' then 1 else 0), gb_enable = (if e = ''high'' then 1 else 0)\<rparr>)
        else tab ! j)" if "j < length tab"
        using r(3) that i Some be by (cases "j = i") (auto simp: tab1_def split: option.split)
      show "bit state' j = (if j \<in> set (i # is) then
          (case channel_conf root j of None \<Rightarrow> bit state j | Some (b, e) \<Rightarrow> b = ''high'') else bit state j)"
        if "j < 32"
        using r(4) that i Some be st1 [OF that] by (cases "j = i") (auto split: option.split)
    qed
  qed
qed simp

text \<open>
  the configuration that is applied is the one in the tree: for every channel whose object
  has both strings, the table holds its bias and enable and the state word its bias, whatever
  the order and case of the names; every other channel keeps its entry and has a zero bit.
\<close>

theorem config_applied:
  assumes "wf_json root" "length bias = 7"
  shows "\<exists>bias' state. config_loop root [0..<7] (bias, 0) = Done (bias', state) \<and> length bias' = 7 \<and>
    (\<forall>i < 7. case channel_conf root i of
        None \<Rightarrow> bias' ! i = bias ! i \<and> \<not> bit state i
      | Some (b, e) \<Rightarrow> gb_bias (bias' ! i) = (if b = ''high'' then 1 else 0) \<and>
          gb_enable (bias' ! i) = (if e = ''high'' then 1 else 0) \<and> (bit state i \<longleftrightarrow> b = ''high'')) \<and>
    (\<forall>i. 7 \<le> i \<longrightarrow> \<not> bit state i)"
proof -
  have r: "set [0..<7] = {i::nat. i < 7}" "distinct [0..<7::nat]" "\<forall>i \<in> set [0..<7]. i < 32 \<and> i < length bias"
    using assms(2) by auto
  obtain bias' state where c: "config_loop root [0..<7] (bias, 0) = Done (bias', state)" "length bias' = length bias"
    "\<forall>i < length bias. bias' ! i = (if i \<in> set [0..<7] then
        (case channel_conf root i of None \<Rightarrow> bias ! i
         | Some (b, e) \<Rightarrow> \<lparr>gb_bias = (if b = ''high'' then 1 else 0), gb_enable = (if e = ''high'' then 1 else 0)\<rparr>)
      else bias ! i)"
    "\<forall>i < 32. bit state i = (if i \<in> set [0..<7] then
        (case channel_conf root i of None \<Rightarrow> bit (0 :: uint32) i | Some (b, e) \<Rightarrow> b = ''high'') else bit (0 :: uint32) i)"
    using config_loop_spec [OF assms(1) r(2,3), of 0] by blast
  have "\<not> bit state i" if "7 \<le> i" for i
    using c(4) that by (cases "i < 32") (auto dest: bit_imp_le_length)
  then show ?thesis
    using c assms(2) unfolding r(1) by (intro exI [of _ bias'] exI [of _ state]) (auto split: option.split)
qed

definition str_item :: "string \<Rightarrow> string \<Rightarrow> CJSON" where
  "str_item k v = CJSON (node0\<lparr>jtype := cJSON_String, valuestring := Some v, jstring := Some k\<rparr>) []"

definition example_config :: CJSON where
  "example_config = CJSON (node0\<lparr>jtype := cJSON_Object\<rparr>)
     [CJSON (node0\<lparr>jtype := cJSON_Object, jstring := Some ''Reverse''\<rparr>)
        [str_item ''enable'' ''low'', str_item ''bias'' ''high'']]"

lemma example_config_wf: "wf_json example_config"
  by (simp add: example_config_def str_item_def wf_json.simps node0_def json_types)

theorem config_applied_witness:
  "\<exists>bias' state. config_loop example_config [0..<7] (replicate 7 \<lparr>gb_bias = 0, gb_enable = 1\<rparr>, 0) = Done (bias', state) \<and>
     gb_bias (bias' ! 2) = 1 \<and> gb_enable (bias' ! 2) = 0 \<and> bit state 2 \<and> \<not> bit state 9"
proof -
  have "channel_conf example_config 2 = Some (''high'', ''low'')" by code_simp
  moreover have "(2::nat) < 7" "(7::nat) \<le> 9" by simp_all
  ultimately show ?thesis
    using config_applied [OF example_config_wf, of "replicate 7 \<lparr>gb_bias = 0, gb_enable = 1\<rparr>"]
    by (fastforce split: option.splits)
qed

section \<open>Any configuration file\<close>

















section \<open>Boot and shutdown\<close>











definition example_fsys :: filesys where
  "example_fsys = \<lparr>files = [ESN_FILE_NAME \<mapsto> esn_text, BINCOUNT_FILE_NAME \<mapsto> int_bytes 7],
     io = (\<lambda>_. None), io_calls = 0\<rparr>"

definition example_app :: app where
  "example_app = \<lparr>cm = example_comm\<lparr>fsys := example_fsys, esn_data := replicate 24 NUL\<rparr>, dev = gpio_start,
     task_queues = \<lparr>bin_query_tasks = None, bin_clear_tasks = None, bin_ack_tasks = None\<rparr>,
     thread_stop = True, handlers = 0, server_threads = False, monitor_on = False, callback_set = False, running = True\<rparr>"





text \<open>
  \<open>stop_sg_server\<close> destroys the task queues while the server still runs: between
  \<open>rb_destroy\<close> and \<open>SgTcpServer_free\<close> the worker thread has not been told to stop, and if a
  request is waiting in the receive queue its next turn uses a freed queue.
\<close>

theorem stop_uses_freed_queues:
  assumes "tcp_inv (g_srv (cm a))" "\<not> stopped (g_srv (cm a))" "rb_list (recv_q (g_srv (cm a))) = msg # ms"
    and "take 7 (m_data msg) = CMD_QUES"
  shows "stop_sg_server a = free_server (destroy_queues (stop_threads a)) \<and>
    \<not> stopped (g_srv (cm (destroy_queues (stop_threads a)))) \<and>
    worker_loop_turn (on_message_cb True ws)
      (g_srv (cm (destroy_queues (stop_threads a))), task_queues (destroy_queues (stop_threads a))) = Crash"
proof -
  define a1 where "a1 = destroy_queues (stop_threads a)"
  have g: "g_srv (cm a1) = g_srv (cm a)" "bin_query_tasks (task_queues a1) = None"
    by (simp_all add: a1_def destroy_queues_def rb_destroy_def stop_threads_def stop_gpio_monitor_def)
  have rb: "rb_inv (recv_q (g_srv (cm a)))" "\<not> rb_empty (recv_q (g_srv (cm a)))"
    using assms(1,3) by (simp_all add: tcp_inv_def rb_empty_iff)
  have "fst (rb_take (recv_q (g_srv (cm a)))) = msg" "cnt (recv_q (g_srv (cm a))) \<noteq> 0"
    using rb_list_take [OF rb] assms(3) rb(2) by (simp_all add: rb_empty_def)
  then obtain q where pop: "rb_timed_pop (recv_q (g_srv (cm a))) [(TimedOut, recv_q (g_srv (cm a)))] = Some (1, Some msg, q)"
    by (cases "rb_take (recv_q (g_srv (cm a)))") (auto simp: rb_timed_pop.simps)
  have "strncmp_eq (m_data msg) CMD_QUES 7 = Some True"
    using assms(4) by (intro parse_strncmp_true [THEN iffD2]) (simp_all add: cmd_facts)
  then have "on_message_cb True ws msg (task_queues a1) = Crash"
    by (simp add: on_message_cb_def on_message_def parse_client_request_def push_task_def g(2))
  then have "worker_loop_turn (on_message_cb True ws) (g_srv (cm a1), task_queues a1) = Crash"
    using pop by (simp add: worker_loop_turn_def g(1))
  then show ?thesis using assms(2) g(1) unfolding stop_sg_server_def a1_def by simp
qed

theorem stop_uses_freed_queues_witness:
  "\<exists>srv. worker_loop_turn (on_message_cb True []) (srv, task_queues (destroy_queues (stop_threads
       (example_app\<lparr>cm := example_comm\<lparr>g_srv := srv\<rparr>\<rparr>)))) = Crash \<and> \<not> stopped srv"
proof -
  define srv where "srv = example_srv\<lparr>recv_q := rb_put (recv_q example_srv) query_msg\<rparr>"
  have full: "\<not> rb_full (recv_q example_srv)" "rb_inv (recv_q example_srv)" "rb_list (recv_q example_srv) = []"
    using example_srv_inv by (simp_all add: tcp_inv_def, simp_all add: example_srv_def rb_full_def rb_list_def)
  have i: "tcp_inv srv" "rb_list (recv_q srv) = [query_msg]" "\<not> stopped srv"
    using example_srv_inv rb_inv_put [OF full(2,1)] rb_list_put [OF full(2,1)] full(3)
    by (simp_all add: srv_def tcp_inv_def, simp add: example_srv_def)
  have q: "take 7 (m_data query_msg) = CMD_QUES" by (simp add: query_msg_def CMD_QUES_def)
  define a where "a = example_app\<lparr>cm := example_comm\<lparr>g_srv := srv\<rparr>\<rparr>"
  have g: "g_srv (cm a) = srv" by (simp add: a_def)
  have "g_srv (cm (destroy_queues (stop_threads a))) = srv"
    by (simp add: destroy_queues_def rb_destroy_def stop_threads_def stop_gpio_monitor_def g)
  then show ?thesis
    using stop_uses_freed_queues [of a query_msg "[]" "[]", unfolded g, OF i(1,3,2) q] i(3)
    unfolding a_def by auto
qed

end
