(* ===== verification/Log.thy ===== *)
theory Log
  imports Storage
begin

text \<open>
  The log (\<^verbatim>\<open>sg-log.c\<close>): one file, emptied when it has reached its maximal size, one line
  per call. Here a stream only appends: the file is opened to append or has just been
  emptied, and nothing else writes it. The text of a call after its format has been expanded
  and the time stamp are arguments. \<open>None\<close> is what C leaves undefined: a call of stdio
  on \<open>NULL\<close>, a mutex that is not there.
\<close>

datatype LogLevel = LOG_LEVEL_DEBUG | LOG_LEVEL_INFO | LOG_LEVEL_ERROR

record log_state =
  log_fp :: "stream option"
  log_filename :: string
  log_max_size :: nat
  log_mutex :: bool    \<comment> \<open>initialised\<close>
  lfs :: filesys

section \<open>Appending streams\<close>

text \<open>\<open>fopen (name, "a")\<close> keeps what the file has and makes it when it is not there.\<close>

definition f_append :: "string \<Rightarrow> filesys \<Rightarrow> stream option \<times> filesys" where
  "f_append name s =
     (case tick s of
        (Some _, s) \<Rightarrow> (None, s)
      | (None, s) \<Rightarrow>
          (Some \<lparr>f_name = name, f_rest = [], f_out = []\<rparr>,
           s\<lparr>files := (files s)(name \<mapsto> (case files s name of None \<Rightarrow> [] | Some d \<Rightarrow> d))\<rparr>))"

text \<open>\<open>fprintf\<close> buffers the expanded text, \<open>fflush\<close> and \<open>fclose\<close> append the buffer to the file.\<close>

definition f_print :: "string \<Rightarrow> stream \<Rightarrow> filesys \<Rightarrow> stream \<times> filesys" where
  "f_print d fp s = (case f_write d fp s of (n, fp, s) \<Rightarrow> (fp, s))"

definition f_flush :: "stream \<Rightarrow> filesys \<Rightarrow> stream \<times> filesys" where
  "f_flush fp s =
     (case tick s of (r, s) \<Rightarrow>
        let n = (case r of None \<Rightarrow> length (f_out fp) | Some k \<Rightarrow> k)
        in (fp\<lparr>f_out := drop n (f_out fp)\<rparr>,
            s\<lparr>files := (files s)(f_name fp := map_option (\<lambda>d. d @ take n (f_out fp)) (files s (f_name fp)))\<rparr>))"

section \<open>Operations\<close>

definition log_rotate_if_needed :: "log_state \<Rightarrow> log_state option" where
  "log_rotate_if_needed l =
     (case f_stat (log_filename l) (lfs l) of
        (None, s) \<Rightarrow> Some (l\<lparr>lfs := s\<rparr>)
      | (Some st_size, s) \<Rightarrow>
          if log_max_size l \<le> st_size then
            (case log_fp l of
               None \<Rightarrow> None
             | Some fp \<Rightarrow>
                 (case f_create (log_filename l) (snd (f_flush fp s)) of
                    (fp', s) \<Rightarrow> Some (l\<lparr>log_fp := fp', lfs := s\<rparr>)))
          else Some (l\<lparr>lfs := s\<rparr>))"

definition level_str :: "LogLevel \<Rightarrow> string" where
  "level_str level =
     (case level of LOG_LEVEL_DEBUG \<Rightarrow> ''DEBUG'' | LOG_LEVEL_INFO \<Rightarrow> ''INFO'' | LOG_LEVEL_ERROR \<Rightarrow> ''ERROR'')"

text \<open>The two \<open>fprintf\<close> calls, the \<open>vfprintf\<close> between them, and the flush.\<close>

definition log_prefix :: "string \<Rightarrow> LogLevel \<Rightarrow> string" where
  "log_prefix timebuf level = ''['' @ timebuf @ ''] ['' @ level_str level @ ''] ''"

definition put_line :: "string \<Rightarrow> LogLevel \<Rightarrow> string \<Rightarrow> stream \<Rightarrow> filesys \<Rightarrow> stream \<times> filesys" where
  "put_line timebuf level msg fp s =
     (case f_print (log_prefix timebuf level) fp s of (fp, s) \<Rightarrow>
      (case f_print msg fp s of (fp, s) \<Rightarrow>
      (case f_print [CHR 0x0A] fp s of (fp, s) \<Rightarrow> f_flush fp s)))"

definition log_write :: "string \<Rightarrow> LogLevel \<Rightarrow> string \<Rightarrow> log_state \<Rightarrow> log_state option" where
  "log_write timebuf level msg l =
     (if log_fp l = None then Some l
      else if \<not> log_mutex l then None
      else case log_rotate_if_needed l of
          None \<Rightarrow> None
        | Some l \<Rightarrow>
            (case log_fp l of
               None \<Rightarrow> None
             | Some fp \<Rightarrow>
                 (case put_line timebuf level msg fp (lfs l) of
                    (fp, s) \<Rightarrow> Some (l\<lparr>log_fp := Some fp, lfs := s\<rparr>))))"

definition log_debug :: "string \<Rightarrow> string \<Rightarrow> log_state \<Rightarrow> log_state option" where
  "log_debug timebuf = log_write timebuf LOG_LEVEL_DEBUG"

definition log_info :: "string \<Rightarrow> string \<Rightarrow> log_state \<Rightarrow> log_state option" where
  "log_info timebuf = log_write timebuf LOG_LEVEL_INFO"

definition log_error :: "string \<Rightarrow> string \<Rightarrow> log_state \<Rightarrow> log_state option" where
  "log_error timebuf = log_write timebuf LOG_LEVEL_ERROR"

text \<open>\<open>strncpy\<close> keeps 255 characters of the name; a file that was open stays open and is lost.\<close>

definition log_init :: "string option \<Rightarrow> nat \<Rightarrow> log_state \<Rightarrow> int \<times> log_state" where
  "log_init filename max_size l =
     (case filename of
        None \<Rightarrow> (-1, l)
      | Some name \<Rightarrow>
          let name = take 255 (cstr name) in
          (case f_append name (lfs l) of
             (fp, s) \<Rightarrow>
               (if fp = None then -1 else 0,
                l\<lparr>log_filename := name, log_max_size := max_size, log_mutex := True, log_fp := fp, lfs := s\<rparr>)))"

definition log_close :: "log_state \<Rightarrow> log_state option" where
  "log_close l =
     (if \<not> log_mutex l then None
      else Some (case log_fp l of
          None \<Rightarrow> l\<lparr>log_mutex := False\<rparr>
        | Some fp \<Rightarrow> l\<lparr>log_mutex := False, log_fp := None, lfs := snd (f_flush fp (lfs l))\<rparr>))"

section \<open>A log in a working system\<close>

type_synonym log_entry = "string \<times> LogLevel \<times> string"

fun log_run :: "log_entry list \<Rightarrow> log_state \<Rightarrow> log_state option" where
  "log_run [] l = Some l"
| "log_run ((t, v, m) # es) l = (case log_write t v m l of None \<Rightarrow> None | Some l \<Rightarrow> log_run es l)"

fun log_line :: "log_entry \<Rightarrow> string" where
  "log_line (t, v, m) = log_prefix t v @ m @ [CHR 0x0A]"

definition log_open :: "log_state \<Rightarrow> bool" where
  "log_open l \<longleftrightarrow> works (lfs l) \<and> log_mutex l \<and>
     log_fp l = Some \<lparr>f_name = log_filename l, f_rest = [], f_out = []\<rparr> \<and>
     files (lfs l) (log_filename l) \<noteq> None"

definition log_text :: "log_state \<Rightarrow> string" where
  "log_text l = the (files (lfs l) (log_filename l))"

text \<open>What a call does to the text: the line goes to its end, or makes a new text when it is full.\<close>

definition log_add :: "nat \<Rightarrow> string \<Rightarrow> log_entry \<Rightarrow> string" where
  "log_add maxi d e = (if maxi \<le> length d then [] else d) @ log_line e"

lemma f_print_works [simp]:
  "works s \<Longrightarrow> f_print d fp s = (fp\<lparr>f_out := f_out fp @ d\<rparr>, s\<lparr>io_calls := io_calls s + 1\<rparr>)"
  by (simp add: f_print_def f_write_def tick_works Let_def)

lemma f_flush_works [simp]:
  "works s \<Longrightarrow> f_flush fp s = (fp\<lparr>f_out := []\<rparr>, s\<lparr>io_calls := io_calls s + 1,
     files := (files s)(f_name fp := map_option (\<lambda>d. d @ f_out fp) (files s (f_name fp)))\<rparr>)"
  by (simp add: f_flush_def tick_works Let_def)

lemma put_line_works:
  "works s \<Longrightarrow> put_line t v m fp s = (fp\<lparr>f_out := []\<rparr>, s\<lparr>io_calls := io_calls s + 4,
     files := (files s)(f_name fp := map_option (\<lambda>d. d @ f_out fp @ log_line (t, v, m)) (files s (f_name fp)))\<rparr>)"
  by (simp add: put_line_def)

lemma log_write_works:
  assumes "log_open l"
  shows "\<exists>l'. log_write t v m l = Some l' \<and> log_open l' \<and> log_filename l' = log_filename l \<and>
     log_max_size l' = log_max_size l \<and> log_text l' = log_add (log_max_size l) (log_text l) (t, v, m)"
proof -
  obtain d where d: "files (lfs l) (log_filename l) = Some d" using assms by (auto simp: log_open_def)
  note l = assms [unfolded log_open_def]
  show ?thesis
  proof (cases "log_max_size l \<le> length d")
    case True
    then show ?thesis using l d
      by (simp add: log_write_def log_rotate_if_needed_def f_stat_def f_create_def tick_works put_line_works
          log_open_def log_text_def log_add_def)
  next
    case False
    then show ?thesis using l d
      by (simp add: log_write_def log_rotate_if_needed_def f_stat_def tick_works put_line_works
          log_open_def log_text_def log_add_def)
  qed
qed

lemma log_run_works:
  "log_open l \<Longrightarrow> \<exists>l'. log_run es l = Some l' \<and> log_open l' \<and> log_filename l' = log_filename l \<and>
     log_max_size l' = log_max_size l \<and> log_text l' = foldl (log_add (log_max_size l)) (log_text l) es"
proof (induction es arbitrary: l)
  case (Cons e es)
  obtain t v m where e: "e = (t, v, m)" by (cases e)
  show ?case using log_write_works [OF Cons.prems, of t v m] Cons.IH by (fastforce simp: e)
qed simp

lemma log_fold_suffix:
  "\<exists>pre suf old. es = pre @ suf \<and> foldl (log_add maxi) d es = old @ concat (map log_line suf) \<and>
     (old = [] \<or> old = d \<and> pre = []) \<and>
     (es \<noteq> [] \<longrightarrow> suf \<noteq> [] \<and>
       length (foldl (log_add maxi) d es) \<le> maxi - 1 + length (log_line (last es)))"
proof (induction es rule: rev_induct)
  case (snoc e es)
  let ?t = "foldl (log_add maxi) d es"
  obtain pre suf old where IH: "es = pre @ suf" "?t = old @ concat (map log_line suf)"
      "old = [] \<or> old = d \<and> pre = []"
    using snoc.IH by blast
  have len: "length (foldl (log_add maxi) d (es @ [e])) \<le> maxi - 1 + length (log_line e)"
    by (auto simp: log_add_def)
  show ?case
  proof (cases "maxi \<le> length ?t")
    case True
    then have "foldl (log_add maxi) d (es @ [e]) = [] @ concat (map log_line [e])" by (simp add: log_add_def)
    then show ?thesis using len by (intro exI [of _ es] exI [of _ "[e]"] exI [of _ "[]"]) simp
  next
    case False
    then have "foldl (log_add maxi) d (es @ [e]) = old @ concat (map log_line (suf @ [e]))"
      using IH(2) by (simp add: log_add_def)
    then show ?thesis using len IH(1,3)
      by (intro exI [of _ pre] exI [of _ "suf @ [e]"] exI [of _ old]) simp
  qed
qed simp

lemma log_init_works:
  assumes "works (lfs l)" "log_init (Some name) maxi l = (r, l')"
  shows "r = 0 \<and> log_open l' \<and> log_filename l' = take 255 (cstr name) \<and> log_max_size l' = maxi \<and>
    log_text l' = (case files (lfs l) (take 255 (cstr name)) of None \<Rightarrow> [] | Some d \<Rightarrow> d)"
  using assms by (auto simp: log_init_def f_append_def tick_works Let_def log_open_def log_text_def)

section \<open>Properties\<close>

text \<open>
  C39: the log of a working system holds the last lines written, each whole and in order,
  behind what the file had before unless it has been emptied since, and is shorter than its
  maximal size and one line; no call of it goes wrong.
\<close>

theorem log_keeps_last_lines:
  assumes "works (lfs l)" "log_init (Some name) maxi l = (r, l1)"
  shows "r = 0 \<and> (\<exists>l' pre suf. log_run es l1 = Some l' \<and> es = pre @ suf \<and>
    (\<exists>old. log_text l' = old @ concat (map log_line suf) \<and> (old = [] \<or> old = log_text l1 \<and> pre = [])) \<and>
    (es \<noteq> [] \<longrightarrow> suf \<noteq> [] \<and> length (log_text l') \<le> maxi - 1 + length (log_line (last es))))"
proof -
  note l1 = log_init_works [OF assms]
  obtain l' where l': "log_run es l1 = Some l'" "log_text l' = foldl (log_add maxi) (log_text l1) es"
    using log_run_works [of l1 es] l1 by auto
  obtain pre suf old where "es = pre @ suf" "log_text l' = old @ concat (map log_line suf)"
    "old = [] \<or> old = log_text l1 \<and> pre = []"
    "es \<noteq> [] \<longrightarrow> suf \<noteq> [] \<and> length (log_text l') \<le> maxi - 1 + length (log_line (last es))"
    using log_fold_suffix [of es maxi "log_text l1"] unfolding l'(2) by blast
  then show ?thesis using l1 l'(1)
    by (intro conjI exI [of _ l'] exI [of _ pre] exI [of _ suf]) auto
qed

definition example_log :: log_state where
  "example_log = \<lparr>log_fp = None, log_filename = [], log_max_size = 0, log_mutex = False,
     lfs = \<lparr>files = [''log'' \<mapsto> ''old''], io = (\<lambda>_. None), io_calls = 0\<rparr>\<rparr>"

theorem log_keeps_last_lines_witness:
  "\<exists>l'. log_run [(''t'', LOG_LEVEL_INFO, ''started''), (''u'', LOG_LEVEL_ERROR, ''no input'')]
       (snd (log_init (Some ''log'') 20 example_log)) = Some l' \<and>
     log_text l' = log_line (''u'', LOG_LEVEL_ERROR, ''no input'')"
proof -
  obtain r l1 where l1: "log_init (Some ''log'') 20 example_log = (r, l1)" by (cases "log_init (Some ''log'') 20 example_log")
  have w: "works (lfs example_log)" by (simp add: example_log_def works_def)
  note i = log_init_works [OF w l1]
  have "foldl (log_add 20) ''old'' [(''t'', LOG_LEVEL_INFO, ''started''), (''u'', LOG_LEVEL_ERROR, ''no input'')] =
      log_line (''u'', LOG_LEVEL_ERROR, ''no input'')"
    by code_simp
  moreover have "log_text l1 = ''old''" using i by (simp add: example_log_def cstr_def)
  ultimately show ?thesis
    using log_keeps_last_lines [OF w l1, of "[(''t'', LOG_LEVEL_INFO, ''started''), (''u'', LOG_LEVEL_ERROR, ''no input'')]"]
      log_run_works [of l1 "[(''t'', LOG_LEVEL_INFO, ''started''), (''u'', LOG_LEVEL_ERROR, ''no input'')]"] i l1
    by auto
qed

text \<open>
  C40: a rotation that cannot open the file again leaves no stream, and the call that
  attempted it goes on to print on it: the program's behaviour is undefined as soon as one
  \<open>fopen\<close> fails on a full log.
\<close>

theorem failed_rotation_prints_on_null:
  assumes "log_fp l = Some fp" "files (lfs l) (log_filename l) = Some d" "log_max_size l \<le> length d"
    and "f_name fp = log_filename l"
    and "io (lfs l) (io_calls (lfs l)) = None" "io (lfs l) (io_calls (lfs l) + 2) \<noteq> None"
  shows "log_write t v m l = None"
  using assms
  by (auto simp: log_write_def log_rotate_if_needed_def f_stat_def f_create_def f_flush_def tick_def Let_def)

theorem failed_rotation_prints_on_null_witness:
  "log_write ''t'' LOG_LEVEL_INFO ''hello'' (example_log\<lparr>log_mutex := True, log_filename := ''log'',
     log_fp := Some \<lparr>f_name = ''log'', f_rest = [], f_out = []\<rparr>, log_max_size := 3,
     lfs := (lfs example_log)\<lparr>io := (\<lambda>n. if n = 2 then Some 0 else None)\<rparr>\<rparr>) = None"
  by (rule failed_rotation_prints_on_null [where d = "''old''" and fp = "\<lparr>f_name = ''log'', f_rest = [], f_out = []\<rparr>"])
    (simp_all add: example_log_def)

end
