(* ===== verification/JLinks.thy ===== *)
theory JLinks
  imports JTree "HOL-Library.Monad_Syntax"
begin

text \<open>
  The child lists of \<^verbatim>\<open>cJSON.c\<close> as the code has them: items at addresses, joined by \<open>next\<close>
  and \<open>prev\<close>, the first item's \<open>prev\<close> pointing to the last. The operations that only follow
  or change these pointers, on a heap with one function per field; a result \<open>None\<close> is the use
  of \<open>NULL\<close> or of a freed item, or a loop that does not end. \<open>chain\<close> relates a parent to the
  list of its children; \<open>JLinksTree\<close> relates whole trees to the ones of \<open>JTree\<close>.
\<close>

section \<open>The heap of items\<close>

type_synonym addr = nat
type_synonym ptr = "addr option"

record jheap =
  l_cells :: "addr set"
  l_data :: "addr \<Rightarrow> node"
  l_child :: "addr \<Rightarrow> ptr"
  l_next :: "addr \<Rightarrow> ptr"
  l_prev :: "addr \<Rightarrow> ptr"
  l_hooks :: hooks

definition deref :: "ptr \<Rightarrow> jheap \<Rightarrow> addr option" where
  "deref p h = (case p of None \<Rightarrow> None | Some a \<Rightarrow> if a \<in> l_cells h then Some a else None)"

definition set_child :: "ptr \<Rightarrow> ptr \<Rightarrow> jheap \<Rightarrow> jheap option" where
  "set_child p v h = do { a \<leftarrow> deref p h; Some (h\<lparr>l_child := (l_child h)(a := v)\<rparr>) }"

definition set_next :: "ptr \<Rightarrow> ptr \<Rightarrow> jheap \<Rightarrow> jheap option" where
  "set_next p v h = do { a \<leftarrow> deref p h; Some (h\<lparr>l_next := (l_next h)(a := v)\<rparr>) }"

definition set_prev :: "ptr \<Rightarrow> ptr \<Rightarrow> jheap \<Rightarrow> jheap option" where
  "set_prev p v h = do { a \<leftarrow> deref p h; Some (h\<lparr>l_prev := (l_prev h)(a := v)\<rparr>) }"

section \<open>Reading\<close>

partial_function (option) size_loop :: "ptr \<Rightarrow> nat \<Rightarrow> jheap \<Rightarrow> nat option" where
  "size_loop p n h =
     (case p of None \<Rightarrow> Some n
      | Some _ \<Rightarrow> do { c \<leftarrow> deref p h; size_loop (l_next h c) (n + 1) h })"

text \<open>The cast to \<open>int\<close> wraps.\<close>

definition cJSON_GetArraySize :: "ptr \<Rightarrow> jheap \<Rightarrow> int32 option" where
  "cJSON_GetArraySize array h =
     (if array = None then Some 0
      else do { a \<leftarrow> deref array h; n \<leftarrow> size_loop (l_child h a) 0 h; Some (of_nat n) })"

fun item_loop :: "ptr \<Rightarrow> nat \<Rightarrow> jheap \<Rightarrow> ptr option" where
  "item_loop p 0 h = Some p"
| "item_loop p (Suc i) h =
     (case p of None \<Rightarrow> Some None | Some _ \<Rightarrow> do { c \<leftarrow> deref p h; item_loop (l_next h c) i h })"

definition get_array_item :: "ptr \<Rightarrow> nat \<Rightarrow> jheap \<Rightarrow> ptr option" where
  "get_array_item array index h =
     (if array = None then Some None else do { a \<leftarrow> deref array h; item_loop (l_child h a) index h })"

definition cJSON_GetArrayItem :: "ptr \<Rightarrow> int \<Rightarrow> jheap \<Rightarrow> ptr option" where
  "cJSON_GetArrayItem array index h =
     (if index < 0 then Some None else get_array_item array (nat index) h)"

text \<open>The test of the two loops of \<open>get_object_item\<close>: whether the walk goes on behind an item.\<close>

definition passes_by :: "bool \<Rightarrow> string \<Rightarrow> node \<Rightarrow> bool" where
  "passes_by case_sensitive name n \<longleftrightarrow>
     (if case_sensitive then (case jstring n of None \<Rightarrow> False | Some k \<Rightarrow> cstr name \<noteq> cstr k)
      else case_insensitive_strcmp (Some name) (jstring n) \<noteq> 0)"

partial_function (option) find_loop :: "bool \<Rightarrow> string \<Rightarrow> ptr \<Rightarrow> jheap \<Rightarrow> ptr option" where
  "find_loop cs name p h =
     (case p of None \<Rightarrow> Some None
      | Some _ \<Rightarrow> do { c \<leftarrow> deref p h;
          if passes_by cs name (l_data h c) then find_loop cs name (l_next h c) h else Some p })"

definition get_object_item_at :: "ptr \<Rightarrow> string option \<Rightarrow> bool \<Rightarrow> jheap \<Rightarrow> ptr option" where
  "get_object_item_at object name case_sensitive h =
     (case (object, name) of
        (Some _, Some n) \<Rightarrow> do {
          a \<leftarrow> deref object h;
          p \<leftarrow> find_loop case_sensitive n (l_child h a) h;
          case p of None \<Rightarrow> Some None
          | Some _ \<Rightarrow> do { c \<leftarrow> deref p h; Some (if jstring (l_data h c) = None then None else p) } }
      | _ \<Rightarrow> Some None)"

section \<open>Linking\<close>

definition suffix_object :: "ptr \<Rightarrow> ptr \<Rightarrow> jheap \<Rightarrow> jheap option" where
  "suffix_object prev item h = do { h \<leftarrow> set_next prev item h; set_prev item prev h }"

definition add_item_to_array_at :: "ptr \<Rightarrow> ptr \<Rightarrow> jheap \<Rightarrow> (bool \<times> jheap) option" where
  "add_item_to_array_at array item h =
     (if item = None \<or> array = None \<or> array = item then Some (False, h)
      else do {
        a \<leftarrow> deref array h;
        if l_child h a = None then do {
          h \<leftarrow> set_child array item h;
          h \<leftarrow> set_prev item item h;
          h \<leftarrow> set_next item None h;
          Some (True, h) }
        else do {
          c \<leftarrow> deref (l_child h a) h;
          if l_prev h c \<noteq> None then do {
            h \<leftarrow> suffix_object (l_prev h c) item h;
            h \<leftarrow> set_prev (l_child h a) item h;
            Some (True, h) }
          else Some (True, h) } })"

definition cJSON_DetachItemViaPointer :: "ptr \<Rightarrow> ptr \<Rightarrow> jheap \<Rightarrow> (ptr \<times> jheap) option" where
  "cJSON_DetachItemViaPointer parent item h =
     (if parent = None \<or> item = None then Some (None, h)
      else do {
        a \<leftarrow> deref parent h;
        i \<leftarrow> deref item h;
        if item \<noteq> l_child h a \<and> l_prev h i = None then Some (None, h)
        else do {
          h \<leftarrow> (if item \<noteq> l_child h a then set_next (l_prev h i) (l_next h i) h else Some h);
          h \<leftarrow> (if l_next h i \<noteq> None then set_prev (l_next h i) (l_prev h i) h else Some h);
          h \<leftarrow> (if item = l_child h a then set_child parent (l_next h i) h
                else if l_next h i = None then set_prev (l_child h a) (l_prev h i) h
                else Some h);
          h \<leftarrow> set_prev item None h;
          h \<leftarrow> set_next item None h;
          Some (item, h) } })"

definition cJSON_DetachItemFromArray :: "ptr \<Rightarrow> int \<Rightarrow> jheap \<Rightarrow> (ptr \<times> jheap) option" where
  "cJSON_DetachItemFromArray array which h =
     (if which < 0 then Some (None, h)
      else do { p \<leftarrow> get_array_item array (nat which) h; cJSON_DetachItemViaPointer array p h })"

definition detach_item_from_object :: "bool \<Rightarrow> ptr \<Rightarrow> string option \<Rightarrow> jheap \<Rightarrow> (ptr \<times> jheap) option" where
  "detach_item_from_object case_sensitive object name h =
     do { p \<leftarrow> get_object_item_at object name case_sensitive h; cJSON_DetachItemViaPointer object p h }"

definition cJSON_DetachItemFromObject :: "ptr \<Rightarrow> string option \<Rightarrow> jheap \<Rightarrow> (ptr \<times> jheap) option" where
  "cJSON_DetachItemFromObject = detach_item_from_object False"

definition cJSON_DetachItemFromObjectCaseSensitive ::
    "ptr \<Rightarrow> string option \<Rightarrow> jheap \<Rightarrow> (ptr \<times> jheap) option" where
  "cJSON_DetachItemFromObjectCaseSensitive = detach_item_from_object True"

definition cJSON_InsertItemInArray :: "ptr \<Rightarrow> int \<Rightarrow> ptr \<Rightarrow> jheap \<Rightarrow> (bool \<times> jheap) option" where
  "cJSON_InsertItemInArray array which newitem h =
     (if which < 0 \<or> newitem = None then Some (False, h)
      else do {
        after_inserted \<leftarrow> get_array_item array (nat which) h;
        if after_inserted = None then add_item_to_array_at array newitem h
        else do {
          a \<leftarrow> deref array h;
          i \<leftarrow> deref after_inserted h;
          if after_inserted \<noteq> l_child h a \<and> l_prev h i = None then Some (False, h)
          else do {
            h \<leftarrow> set_next newitem after_inserted h;
            h \<leftarrow> set_prev newitem (l_prev h i) h;
            h \<leftarrow> set_prev after_inserted newitem h;
            h \<leftarrow> (if after_inserted = l_child h a then set_child array newitem h
                  else do { n \<leftarrow> deref newitem h; set_next (l_prev h n) newitem h });
            Some (True, h) } } })"

section \<open>Freeing and replacing\<close>

definition free_block :: "bool \<Rightarrow> jheap \<Rightarrow> jheap" where
  "free_block b h = (if b then h\<lparr>l_hooks := deallocate (l_hooks h)\<rparr> else h)"

partial_function (option) delete_at :: "ptr \<Rightarrow> jheap \<Rightarrow> jheap option" where
  "delete_at item h =
     (case item of None \<Rightarrow> Some h
      | Some _ \<Rightarrow> do {
          i \<leftarrow> deref item h;
          h1 \<leftarrow> (if \<not> is_reference (l_data h i) \<and> l_child h i \<noteq> None then delete_at (l_child h i) h else Some h);
          _ \<leftarrow> deref item h1;
          let h2 = free_block (\<not> is_reference (l_data h1 i) \<and> valuestring (l_data h1 i) \<noteq> None) h1;
              h3 = free_block (\<not> has_const_key (l_data h1 i) \<and> jstring (l_data h1 i) \<noteq> None) h2
          in delete_at (l_next h i) (free_block True (h3\<lparr>l_cells := l_cells h3 - {i}\<rparr>)) })"

definition cJSON_DeleteItemFromArray :: "ptr \<Rightarrow> int \<Rightarrow> jheap \<Rightarrow> jheap option" where
  "cJSON_DeleteItemFromArray array which h =
     do { (p, h) \<leftarrow> cJSON_DetachItemFromArray array which h; delete_at p h }"

definition cJSON_DeleteItemFromObject :: "ptr \<Rightarrow> string option \<Rightarrow> jheap \<Rightarrow> jheap option" where
  "cJSON_DeleteItemFromObject object name h =
     do { (p, h) \<leftarrow> cJSON_DetachItemFromObject object name h; delete_at p h }"

definition cJSON_DeleteItemFromObjectCaseSensitive :: "ptr \<Rightarrow> string option \<Rightarrow> jheap \<Rightarrow> jheap option" where
  "cJSON_DeleteItemFromObjectCaseSensitive object name h =
     do { (p, h) \<leftarrow> cJSON_DetachItemFromObjectCaseSensitive object name h; delete_at p h }"

text \<open>\<open>cJSON_ReplaceItemViaPointer\<close> up to the deletion, for a replacement that is another item.\<close>

definition relink_replacement :: "ptr \<Rightarrow> ptr \<Rightarrow> ptr \<Rightarrow> jheap \<Rightarrow> jheap option" where
  "relink_replacement parent item replacement h = do {
     a \<leftarrow> deref parent h;
     i \<leftarrow> deref item h;
     r \<leftarrow> deref replacement h;
     h \<leftarrow> set_next replacement (l_next h i) h;
     h \<leftarrow> set_prev replacement (l_prev h i) h;
     h \<leftarrow> (if l_next h r \<noteq> None then set_prev (l_next h r) replacement h else Some h);
     h \<leftarrow> (if l_child h a = item then do {
             c \<leftarrow> deref (l_child h a) h;
             h \<leftarrow> (if l_prev h c = l_child h a then set_prev replacement replacement h else Some h);
             set_child parent replacement h }
           else do {
             h \<leftarrow> (if l_prev h r \<noteq> None then set_next (l_prev h r) replacement h else Some h);
             if l_next h r = None then set_prev (l_child h a) replacement h else Some h });
     h \<leftarrow> set_next item None h;
     set_prev item None h }"

definition cJSON_ReplaceItemViaPointer :: "ptr \<Rightarrow> ptr \<Rightarrow> ptr \<Rightarrow> jheap \<Rightarrow> (bool \<times> jheap) option" where
  "cJSON_ReplaceItemViaPointer parent item replacement h =
     (case parent of None \<Rightarrow> Some (False, h)
      | Some _ \<Rightarrow> do {
          a \<leftarrow> deref parent h;
          if l_child h a = None \<or> replacement = None \<or> item = None then Some (False, h)
          else if replacement = item then Some (True, h)
          else do {
            h \<leftarrow> relink_replacement parent item replacement h;
            h \<leftarrow> delete_at item h;
            Some (True, h) } })"

definition cJSON_ReplaceItemInArray :: "ptr \<Rightarrow> int \<Rightarrow> ptr \<Rightarrow> jheap \<Rightarrow> (bool \<times> jheap) option" where
  "cJSON_ReplaceItemInArray array which newitem h =
     (if which < 0 then Some (False, h)
      else do { p \<leftarrow> get_array_item array (nat which) h; cJSON_ReplaceItemViaPointer array p newitem h })"

definition set_data :: "addr \<Rightarrow> (node \<Rightarrow> node) \<Rightarrow> jheap \<Rightarrow> jheap" where
  "set_data a f h = h\<lparr>l_data := (l_data h)(a := f (l_data h a))\<rparr>"

definition replace_item_in_object ::
    "ptr \<Rightarrow> string option \<Rightarrow> ptr \<Rightarrow> bool \<Rightarrow> jheap \<Rightarrow> (bool \<times> jheap) option" where
  "replace_item_in_object object name replacement case_sensitive h =
     (if replacement = None \<or> name = None then Some (False, h)
      else do {
        r \<leftarrow> deref replacement h;
        let h = free_block (\<not> has_const_key (l_data h r) \<and> jstring (l_data h r) \<noteq> None) h;
            (key, hk) = cJSON_strdup name (l_hooks h);
            h = set_data r (\<lambda>n. n\<lparr>jstring := key\<rparr>) (h\<lparr>l_hooks := hk\<rparr>)
        in if key = None then Some (False, h)
           else do {
             let h = set_data r (\<lambda>n. n\<lparr>jtype := jtype n AND NOT cJSON_StringIsConst\<rparr>) h
             in do { p \<leftarrow> get_object_item_at object name case_sensitive h;
                     cJSON_ReplaceItemViaPointer object p replacement h } } })"

definition cJSON_ReplaceItemInObject :: "ptr \<Rightarrow> string option \<Rightarrow> ptr \<Rightarrow> jheap \<Rightarrow> (bool \<times> jheap) option" where
  "cJSON_ReplaceItemInObject object name newitem = replace_item_in_object object name newitem False"

definition cJSON_ReplaceItemInObjectCaseSensitive ::
    "ptr \<Rightarrow> string option \<Rightarrow> ptr \<Rightarrow> jheap \<Rightarrow> (bool \<times> jheap) option" where
  "cJSON_ReplaceItemInObjectCaseSensitive object name newitem = replace_item_in_object object name newitem True"

section \<open>Chains\<close>

text \<open>
  \<open>walk\<close>: following \<open>next\<close> from one pointer to another meets these items; \<open>behind\<close>: each of
  them has its predecessor behind \<open>prev\<close>, the first one the given pointer.
\<close>

fun walk :: "(addr \<Rightarrow> ptr) \<Rightarrow> ptr \<Rightarrow> addr list \<Rightarrow> ptr \<Rightarrow> bool" where
  "walk f p [] q \<longleftrightarrow> p = q"
| "walk f p (x # xs) q \<longleftrightarrow> p = Some x \<and> walk f (f x) xs q"

fun behind :: "(addr \<Rightarrow> ptr) \<Rightarrow> ptr \<Rightarrow> addr list \<Rightarrow> bool" where
  "behind f r [] \<longleftrightarrow> True"
| "behind f r (x # xs) \<longleftrightarrow> f x = r \<and> behind f (Some x) xs"

definition chain :: "jheap \<Rightarrow> addr \<Rightarrow> addr list \<Rightarrow> bool" where
  "chain h a xs \<longleftrightarrow> walk (l_next h) (l_child h a) xs None \<and>
     (xs \<noteq> [] \<longrightarrow> behind (l_prev h) (Some (last xs)) xs)"

named_theorems links \<open>walking and updating chains\<close>

lemma walk_append [links]: "walk f p (xs @ ys) q \<longleftrightarrow> (\<exists>r. walk f p xs r \<and> walk f r ys q)"
  by (induction xs arbitrary: p) auto

lemma behind_append [links]: "behind f r (xs @ ys) \<longleftrightarrow> behind f r xs \<and> behind f (if xs = [] then r else Some (last xs)) ys"
  by (induction xs arbitrary: r) auto

lemma walk_upd [links]: "x \<notin> set xs \<Longrightarrow> walk (f(x := v)) p xs q \<longleftrightarrow> walk f p xs q"
  by (induction xs arbitrary: p) auto

lemma behind_upd [links]: "x \<notin> set xs \<Longrightarrow> behind (f(x := v)) r xs \<longleftrightarrow> behind f r xs"
  by (induction xs arbitrary: r) auto

lemma walk_cong: "(\<And>x. x \<in> set xs \<Longrightarrow> f x = g x) \<Longrightarrow> walk f p xs q \<longleftrightarrow> walk g p xs q"
  by (induction xs arbitrary: p) auto

lemma behind_cong: "(\<And>x. x \<in> set xs \<Longrightarrow> f x = g x) \<Longrightarrow> behind f r xs \<longleftrightarrow> behind g r xs"
  by (induction xs arbitrary: r) auto

lemma chain_cong:
  "l_child h' a = l_child h a \<Longrightarrow> (\<And>x. x \<in> set xs \<Longrightarrow> l_next h' x = l_next h x \<and> l_prev h' x = l_prev h x) \<Longrightarrow>
    chain h' a xs \<longleftrightarrow> chain h a xs"
  by (simp add: chain_def walk_cong [of xs "l_next h'" "l_next h"] behind_cong [of xs "l_prev h'" "l_prev h"])

lemma walk_start: "walk f p xs None \<Longrightarrow> p = (case xs of [] \<Rightarrow> None | x # _ \<Rightarrow> Some x)"
  by (cases xs) auto

text \<open>What an operation on the children of \<open>a\<close> may change: the links of the items it relinks.\<close>

definition relinked :: "jheap \<Rightarrow> jheap \<Rightarrow> addr \<Rightarrow> addr set \<Rightarrow> bool" where
  "relinked h h' a X \<longleftrightarrow> l_cells h' = l_cells h \<and> l_data h' = l_data h \<and> l_hooks h' = l_hooks h \<and>
     (\<forall>x. x \<noteq> a \<longrightarrow> l_child h' x = l_child h x) \<and>
     (\<forall>x. x \<notin> X \<longrightarrow> l_next h' x = l_next h x \<and> l_prev h' x = l_prev h x)"

lemma deref_Some [simp]: "deref (Some a) h = (if a \<in> l_cells h then Some a else None)"
  by (simp add: deref_def)

lemma deref_None [simp]: "deref None h = None"
  by (simp add: deref_def)

lemmas set_links = set_child_def set_next_def set_prev_def suffix_object_def

lemma add_chain:
  assumes "chain h a xs" "a \<in> l_cells h" "set xs \<subseteq> l_cells h" "x \<in> l_cells h"
    and "x \<noteq> a" "distinct (xs @ [x])" "l_next h x = None"
  shows "\<exists>h'. add_item_to_array_at (Some a) (Some x) h = Some (True, h') \<and> chain h' a (xs @ [x]) \<and>
     relinked h h' a (set (xs @ [x]))"
proof (cases xs rule: rev_cases)
  case Nil
  then show ?thesis using assms
    by (auto simp: add_item_to_array_at_def set_links chain_def relinked_def)
next
  case (snoc ys z)
  then show ?thesis using assms
    by (cases ys) (auto simp: add_item_to_array_at_def set_links chain_def relinked_def links split: if_splits)
qed

lemma detach_chain:
  assumes "chain h a (us @ x # vs)" "a \<in> l_cells h" "set (us @ x # vs) \<subseteq> l_cells h" "distinct (us @ x # vs)"
  shows "\<exists>h'. cJSON_DetachItemViaPointer (Some a) (Some x) h = Some (Some x, h') \<and> chain h' a (us @ vs) \<and>
     l_next h' x = None \<and> l_prev h' x = None \<and> relinked h h' a (set (us @ x # vs))"
proof (cases us rule: rev_cases)
  case Nil
  then show ?thesis using assms
    by (cases vs) (auto simp: cJSON_DetachItemViaPointer_def set_links chain_def relinked_def links split: if_splits)
next
  case (snoc ys z)
  then show ?thesis using assms
    by (cases ys; cases vs) (auto simp: cJSON_DetachItemViaPointer_def set_links chain_def relinked_def links split: if_splits)
qed

lemma relink_chain:
  assumes "chain h a (us @ x # vs)" "a \<in> l_cells h" "set (us @ x # vs) \<subseteq> l_cells h" "distinct (us @ x # vs)"
    and "y \<in> l_cells h" "y \<notin> set (us @ x # vs)"
  shows "\<exists>h'. relink_replacement (Some a) (Some x) (Some y) h = Some h' \<and> chain h' a (us @ y # vs) \<and>
     l_next h' x = None \<and> l_prev h' x = None \<and> relinked h h' a (insert y (set (us @ x # vs)))"
proof (cases us rule: rev_cases)
  case Nil
  then show ?thesis using assms
    by (cases vs)
      (auto simp: relink_replacement_def set_links chain_def relinked_def links split: if_splits)
next
  case (snoc ys z)
  then show ?thesis using assms
    by (cases ys; cases vs) (auto simp: relink_replacement_def set_links chain_def relinked_def links split: if_splits)
qed

text \<open>Reading a chain.\<close>

lemma size_loop_walk:
  "walk (l_next h) p xs None \<Longrightarrow> set xs \<subseteq> l_cells h \<Longrightarrow> size_loop p n h = Some (n + length xs)"
  by (induction xs arbitrary: p n) (auto simp: size_loop.simps)

lemma item_loop_walk:
  "walk (l_next h) p xs None \<Longrightarrow> set xs \<subseteq> l_cells h \<Longrightarrow>
    item_loop p i h = Some (if i < length xs then Some (xs ! i) else None)"
proof (induction xs arbitrary: p i)
  case Nil
  then show ?case by (cases i) auto
next
  case (Cons x xs)
  then show ?case by (cases i) auto
qed

lemma get_array_item_chain:
  "chain h a xs \<Longrightarrow> a \<in> l_cells h \<Longrightarrow> set xs \<subseteq> l_cells h \<Longrightarrow>
    get_array_item (Some a) i h = Some (if i < length xs then Some (xs ! i) else None)"
  by (simp add: get_array_item_def chain_def item_loop_walk)

lemma insert_chain:
  assumes "chain h a (us @ x # vs)" "a \<in> l_cells h" "set (us @ x # vs) \<subseteq> l_cells h" "distinct (us @ x # vs)"
    and "y \<in> l_cells h" "y \<notin> set (us @ x # vs)"
  shows "\<exists>h'. cJSON_InsertItemInArray (Some a) (int (length us)) (Some y) h = Some (True, h') \<and>
     chain h' a (us @ y # x # vs) \<and> relinked h h' a (insert y (set (us @ x # vs)))"
proof -
  define w where "w = int (length us)"
  have i: "\<not> w < 0" "get_array_item (Some a) (nat w) h = Some (Some x)"
    using get_array_item_chain [OF assms(1-3), of "length us"] by (simp_all add: w_def)
  have "\<exists>h'. cJSON_InsertItemInArray (Some a) w (Some y) h = Some (True, h') \<and>
     chain h' a (us @ y # x # vs) \<and> relinked h h' a (insert y (set (us @ x # vs)))"
  proof (cases us rule: rev_cases)
    case Nil
    then show ?thesis using assms i
      by (cases vs) (auto simp: cJSON_InsertItemInArray_def set_links chain_def relinked_def links split: if_splits)
  next
    case (snoc ys z)
    then show ?thesis using assms i
      by (cases ys; cases vs) (auto simp: cJSON_InsertItemInArray_def set_links chain_def relinked_def links split: if_splits)
  qed
  then show ?thesis by (simp add: w_def)
qed

lemma insert_chain_end:
  assumes "chain h a xs" "a \<in> l_cells h" "set xs \<subseteq> l_cells h" "y \<in> l_cells h" "length xs \<le> i"
    and "y \<noteq> a" "distinct (xs @ [y])" "l_next h y = None"
  shows "\<exists>h'. cJSON_InsertItemInArray (Some a) (int i) (Some y) h = Some (True, h') \<and> chain h' a (xs @ [y]) \<and>
     relinked h h' a (set (xs @ [y]))"
  using add_chain [of h a xs y] get_array_item_chain [of h a xs i] assms
  by (auto simp: cJSON_InsertItemInArray_def)

lemma find_loop_walk:
  "walk (l_next h) p xs None \<Longrightarrow> set xs \<subseteq> l_cells h \<Longrightarrow>
    find_loop cs n p h = Some (find (\<lambda>x. \<not> passes_by cs n (l_data h x)) xs)"
proof (induction xs arbitrary: p)
  case Nil
  then show ?case by (simp add: find_loop.simps)
next
  case (Cons x xs)
  then have "p = Some x" "x \<in> l_cells h" by auto
  then have "find_loop cs n p h = (if passes_by cs n (l_data h x) then find_loop cs n (l_next h x) h else Some p)"
    by (subst find_loop.simps) simp
  then show ?case using Cons by auto
qed

end
