(* ===== verification/JLinksTree.thy ===== *)
theory JLinksTree
  imports JLinks
begin

text \<open>
  Whole trees in the heap of \<open>JLinks\<close>: \<open>at_heap\<close> says that the items of a tree of addresses
  are live, own what they point to and are joined as \<open>cJSON.c\<close> keeps them; \<open>tree_of\<close> is the
  tree of \<open>JTree\<close> they stand for. Each pointer operation is the list operation on the
  children; deletion frees exactly the tree.
\<close>

section \<open>Trees of addresses\<close>

datatype atree = AT (root: addr) (kids: "atree list")

fun addrs :: "atree \<Rightarrow> addr list" where
  "addrs (AT a ts) = a # concat (map addrs ts)"

definition inner :: "atree \<Rightarrow> addr list" where
  "inner t = concat (map addrs (kids t))"

lemma addrs_eq: "addrs t = root t # inner t"
  by (cases t) (simp add: inner_def)

fun at_heap :: "jheap \<Rightarrow> atree \<Rightarrow> bool" where
  "at_heap h (AT a ts) \<longleftrightarrow> a \<in> l_cells h \<and> \<not> is_reference (l_data h a) \<and> chain h a (map root ts) \<and>
     (\<forall>t \<in> set ts. at_heap h t)"

fun tree_of :: "jheap \<Rightarrow> atree \<Rightarrow> CJSON" where
  "tree_of h (AT a ts) = CJSON (l_data h a) (map (tree_of h) ts)"

definition tree :: "jheap \<Rightarrow> atree \<Rightarrow> bool" where
  "tree h t \<longleftrightarrow> at_heap h t \<and> distinct (addrs t)"

lemma root_in_addrs [simp]: "root t \<in> set (addrs t)"
  by (cases t) simp

lemma at_heap_cells: "at_heap h t \<Longrightarrow> set (addrs t) \<subseteq> l_cells h"
  by (induction t) (auto simp: Ball_def)

lemma info_tree_of [simp]: "info (tree_of h t) = l_data h (root t)"
  by (cases t) simp

text \<open>A tree depends on the links of its inner items only, and on nothing outside it.\<close>

definition same_tree :: "jheap \<Rightarrow> jheap \<Rightarrow> atree \<Rightarrow> bool" where
  "same_tree h h' t \<longleftrightarrow>
     (\<forall>x \<in> set (addrs t). x \<in> l_cells h' \<and> l_data h' x = l_data h x \<and> l_child h' x = l_child h x) \<and>
     (\<forall>x \<in> set (inner t). l_next h' x = l_next h x \<and> l_prev h' x = l_prev h x)"

lemma tree_frame:
  "at_heap h t \<Longrightarrow> same_tree h h' t \<Longrightarrow> at_heap h' t \<and> tree_of h' t = tree_of h t"
proof (induction t)
  case (AT a ts)
  have kid: "at_heap h' t \<and> tree_of h' t = tree_of h t" if t: "t \<in> set ts" for t
  proof (rule AT.IH [OF t])
    show "at_heap h t" using AT.prems(1) t by simp
    have "set (addrs t) \<subseteq> set (inner (AT a ts))" using t by (auto simp: inner_def)
    moreover have "set (inner (AT a ts)) \<subseteq> set (addrs (AT a ts))" by (simp add: addrs_eq subset_insertI)
    moreover have "set (inner t) \<subseteq> set (addrs t)" by (simp add: addrs_eq subset_insertI)
    ultimately show "same_tree h h' t" using AT.prems(2) unfolding same_tree_def by blast
  qed
  have "chain h' a (map root ts) \<longleftrightarrow> chain h a (map root ts)"
    using AT.prems(2) by (intro chain_cong) (auto simp: same_tree_def inner_def Bex_def intro: root_in_addrs)
  then show ?case using AT.prems kid by (auto simp: same_tree_def)
qed

text \<open>An operation that relinks the children of \<open>a\<close>.\<close>

lemma relinked_tree:
  assumes h: "relinked h h' a X" and X: "X \<subseteq> root ` set ss"
    and ss: "\<forall>t \<in> set ss. at_heap h t" "distinct (a # concat (map addrs ss))"
    and t: "t \<in> set ss"
  shows "at_heap h' t \<and> tree_of h' t = tree_of h t"
proof (rule tree_frame)
  show th: "at_heap h t" using ss t by blast
  have "a \<notin> set (addrs t)" using ss(2) t by auto
  moreover have "x \<notin> X" if x: "x \<in> set (inner t)" for x
  proof
    assume "x \<in> X"
    then obtain s where s: "s \<in> set ss" "x = root s" using X by blast
    have d: "distinct (concat (map addrs ss))" using ss(2) by simp
    have "distinct (addrs t)" using d t by (auto simp: distinct_concat_iff)
    then have "s \<noteq> t" using s x by (auto simp: addrs_eq)
    have "x \<in> set (addrs s)" "x \<in> set (addrs t)" using s x by (simp_all add: addrs_eq)
    moreover have "set (addrs s) \<inter> set (addrs t) = {}"
      using d s(1) t \<open>s \<noteq> t\<close> by (induction ss) auto
    ultimately show False by blast
  qed
  ultimately show "same_tree h h' t"
    using h at_heap_cells [OF th] unfolding relinked_def same_tree_def by (metis subsetD)
qed

lemma relinked_parent:
  assumes "relinked h h' a X" "X \<subseteq> root ` set ss" "\<forall>t \<in> set ss. at_heap h t" "distinct (a # concat (map addrs ss))"
    and "chain h' a (map root ts)" "set ts \<subseteq> set ss" "a \<in> l_cells h" "\<not> is_reference (l_data h a)"
  shows "at_heap h' (AT a ts) \<and> tree_of h' (AT a ts) = CJSON (l_data h a) (map (tree_of h) ts)"
  using relinked_tree [OF assms(1-4)] assms(1,5-8) by (auto simp: relinked_def)

lemma distinct_roots: "distinct (concat (map addrs ts)) \<Longrightarrow> distinct (map root ts)"
proof (induction ts)
  case (Cons t ts)
  then show ?case by (auto simp: addrs_eq image_iff)
qed simp

lemma distinct_at_heap:
  assumes "\<forall>t \<in> set ss. at_heap h t" "distinct (a # concat (map addrs ss))"
  shows "set (map root ss) \<subseteq> l_cells h" "distinct (map root ss)" "a \<notin> set (map root ss)"
proof -
  show "set (map root ss) \<subseteq> l_cells h" using assms(1) at_heap_cells root_in_addrs by fastforce
  show "distinct (map root ss)" using assms(2) distinct_roots by simp
  show "a \<notin> set (map root ss)" using assms(2) by (auto simp: addrs_eq)
qed

section \<open>Operations on trees\<close>

lemma tree_parts:
  "tree h (AT a ts) \<longleftrightarrow> a \<in> l_cells h \<and> \<not> is_reference (l_data h a) \<and> chain h a (map root ts) \<and>
     (\<forall>t \<in> set ts. at_heap h t) \<and> distinct (a # concat (map addrs ts))"
  by (auto simp: tree_def)

lemma add_tree:
  assumes p: "tree h (AT a ts)" and t: "at_heap h t" "l_next h (root t) = None"
    and d: "distinct (addrs (AT a (ts @ [t])))"
  shows "\<exists>h'. add_item_to_array_at (Some a) (Some (root t)) h = Some (True, h') \<and> tree h' (AT a (ts @ [t])) \<and>
     tree_of h' (AT a (ts @ [t])) = CJSON (l_data h a) (map (tree_of h) (ts @ [t])) \<and>
     relinked h h' a (set (map root (ts @ [t])))"
proof -
  have ss: "\<forall>s \<in> set (ts @ [t]). at_heap h s" "distinct (a # concat (map addrs (ts @ [t])))"
    using p t d by (auto simp: tree_parts)
  note r = distinct_at_heap [OF ss]
  obtain h' where h': "add_item_to_array_at (Some a) (Some (root t)) h = Some (True, h')"
      "chain h' a (map root ts @ [root t])" "relinked h h' a (set (map root ts @ [root t]))"
    using add_chain [of h a "map root ts" "root t"] p r t(2) by (auto simp: tree_parts)
  show ?thesis
    using relinked_parent [OF h'(3) _ ss, of "ts @ [t]"] h' p d
    by (intro exI [of _ h']) (auto simp: tree_def)
qed

lemma detach_tree:
  assumes p: "tree h (AT a (us @ t # vs))"
  shows "\<exists>h'. cJSON_DetachItemViaPointer (Some a) (Some (root t)) h = Some (Some (root t), h') \<and>
     tree h' (AT a (us @ vs)) \<and> tree_of h' (AT a (us @ vs)) = CJSON (l_data h a) (map (tree_of h) (us @ vs)) \<and>
     tree h' t \<and> tree_of h' t = tree_of h t \<and> l_next h' (root t) = None \<and>
     relinked h h' a (set (map root (us @ t # vs)))"
proof -
  have ss: "\<forall>s \<in> set (us @ t # vs). at_heap h s" "distinct (a # concat (map addrs (us @ t # vs)))"
    using p unfolding tree_parts by blast+
  note r = distinct_at_heap [OF ss]
  obtain h' where h': "cJSON_DetachItemViaPointer (Some a) (Some (root t)) h = Some (Some (root t), h')"
      "chain h' a (map root us @ map root vs)" "l_next h' (root t) = None"
      "relinked h h' a (set (map root us @ root t # map root vs))"
    using detach_chain [of h a "map root us" "root t" "map root vs"] p r by (auto simp: tree_parts)
  have "at_heap h' (AT a (us @ vs)) \<and> tree_of h' (AT a (us @ vs)) = CJSON (l_data h a) (map (tree_of h) (us @ vs))"
    using p h' by (intro relinked_parent [OF h'(4) _ ss]) (auto simp: tree_parts)
  moreover have "at_heap h' t \<and> tree_of h' t = tree_of h t"
    by (rule relinked_tree [OF h'(4) _ ss]) auto
  moreover have "distinct (addrs (AT a (us @ vs)))" "distinct (addrs t)" using ss(2) by auto
  ultimately show ?thesis using h' by (intro exI [of _ h']) (auto simp: tree_def)
qed

lemma insert_tree:
  assumes p: "tree h (AT a ts)" and t: "at_heap h t" "l_next h (root t) = None"
    and d: "distinct (addrs (AT a (t # ts)))"
  shows "\<exists>h'. cJSON_InsertItemInArray (Some a) (int i) (Some (root t)) h = Some (True, h') \<and>
     tree h' (AT a (take i ts @ t # drop i ts)) \<and>
     tree_of h' (AT a (take i ts @ t # drop i ts)) = CJSON (l_data h a) (map (tree_of h) (take i ts @ t # drop i ts)) \<and>
     relinked h h' a (set (map root (t # ts)))"
proof -
  let ?new = "take i ts @ t # drop i ts"
  have ss: "\<forall>s \<in> set (t # ts). at_heap h s" "distinct (a # concat (map addrs (t # ts)))"
    using p t d by (auto simp: tree_parts)
  note r = distinct_at_heap [OF ss]
  have new: "set ?new = set (t # ts)"
    using set_append [of "take i ts" "drop i ts"] by auto
  have "concat (map addrs ts) = concat (map addrs (take i ts)) @ concat (map addrs (drop i ts))"
    by (metis append_take_drop_id concat_append map_append)
  then have dn: "distinct (addrs (AT a ?new))" using ss(2) by auto
  have "\<exists>h'. cJSON_InsertItemInArray (Some a) (int i) (Some (root t)) h = Some (True, h') \<and>
      chain h' a (map root ?new) \<and> relinked h h' a (set (map root (t # ts)))"
  proof (cases "i < length ts")
    case True
    then have ts: "ts = take i ts @ ts ! i # drop (Suc i) ts" by (simp add: id_take_nth_drop)
    have "map root ts = map root (take i ts) @ root (ts ! i) # map root (drop (Suc i) ts)"
      by (metis ts list.simps(9) map_append)
    then show ?thesis
      using insert_chain [of h a "map root (take i ts)" "root (ts ! i)" "map root (drop (Suc i) ts)" "root t"] p r True
      by (auto simp: tree_parts Cons_nth_drop_Suc [symmetric])
  next
    case False
    then show ?thesis
      using insert_chain_end [of h a "map root ts" "root t" i] p r t(2) by (auto simp: tree_parts)
  qed
  then obtain h' where h': "cJSON_InsertItemInArray (Some a) (int i) (Some (root t)) h = Some (True, h')"
      "chain h' a (map root ?new)" "relinked h h' a (set (map root (t # ts)))"
    by blast
  have "at_heap h' (AT a ?new) \<and> tree_of h' (AT a ?new) = CJSON (l_data h a) (map (tree_of h) ?new)"
    using p h' new by (intro relinked_parent [OF h'(3) _ ss]) (auto simp: tree_parts)
  then show ?thesis using h'(1,3) dn unfolding tree_def by blast
qed

section \<open>Deletion\<close>

definition freed :: "jheap \<Rightarrow> addr set \<Rightarrow> int \<Rightarrow> jheap" where
  "freed h A n = h\<lparr>l_cells := l_cells h - A, l_hooks := (l_hooks h)\<lparr>live := live (l_hooks h) - n\<rparr>\<rparr>"

lemma freed_simps [simp]:
  "l_cells (freed h A n) = l_cells h - A" "l_data (freed h A n) = l_data h"
  "l_child (freed h A n) = l_child h" "l_next (freed h A n) = l_next h" "l_prev (freed h A n) = l_prev h"
  "freed (freed h A n) B m = freed h (A \<union> B) (n + m)" "freed h {} 0 = h"
  "live (l_hooks (freed h A n)) = live (l_hooks h) - n"
  by (simp_all add: freed_def diff_diff_eq Diff_Diff_Int Un_Diff_Int Compl_Un Diff_eq Int_assoc)

lemma free_block_freed: "free_block b h = freed h {} (if b then 1 else 0)"
  by (simp add: free_block_def freed_def deallocate_def)

lemma cell_freed: "h\<lparr>l_cells := l_cells h - {i}\<rparr> = freed h {i} 0"
  by (simp add: freed_def)

lemma at_heap_freed:
  assumes "at_heap h t" "set (addrs t) \<inter> A = {}"
  shows "at_heap (freed h A n) t" "tree_of (freed h A n) t = tree_of h t"
  using tree_frame [OF assms(1), of "freed h A n"] assms(2) at_heap_cells [OF assms(1)]
  by (auto simp: same_tree_def)

lemma delete_trees:
  "walk (l_next h) p (map root ts) None \<Longrightarrow> \<forall>t \<in> set ts. at_heap h t \<Longrightarrow> distinct (concat (map addrs ts)) \<Longrightarrow>
    delete_at p h = Some (freed h (set (concat (map addrs ts))) (int (blocks_list (map (tree_of h) ts))))"
proof (induction "length (concat (map addrs ts))" arbitrary: ts p h rule: less_induct)
  case less
  show ?case
  proof (cases ts)
    case Nil
    then show ?thesis using less.prems(1) by (simp add: delete_at.simps)
  next
    case (Cons t ts')
    obtain a ks where t: "t = AT a ks" by (cases t)
    have ta: "at_heap h (AT a ks)" using less.prems(2) by (simp add: Cons t)
    then have a: "a \<in> l_cells h" "\<not> is_reference (l_data h a)" "chain h a (map root ks)" "\<forall>k \<in> set ks. at_heap h k"
      by auto
    have d: "a \<notin> set (concat (map addrs ks))" "distinct (concat (map addrs ks))"
        "distinct (concat (map addrs ts'))" "set (addrs t) \<inter> set (concat (map addrs ts')) = {}"
      using less.prems(3) by (auto simp: Cons t)
    define K where "K = set (concat (map addrs ks))"
    define m where "m = int (blocks_list (map (tree_of h) ks))"
    have kids: "(if \<not> is_reference (l_data h a) \<and> l_child h a \<noteq> None then delete_at (l_child h a) h else Some h) = Some (freed h K m)"
    proof (cases "ks = []")
      case True
      then show ?thesis using a(3) by (simp add: chain_def K_def m_def)
    next
      case False
      then have "l_child h a \<noteq> None" using a(3) by (cases ks) (auto simp: chain_def)
      moreover have "delete_at (l_child h a) h = Some (freed h K m)"
        unfolding K_def m_def using a(3,4) d(2) by (intro less.hyps) (auto simp: Cons t chain_def)
      ultimately show ?thesis using a(2) by simp
    qed
    define h4 where "h4 = freed h (insert a K) (m + int (node_blocks (l_data h a)))"
    have rest: "delete_at (l_next h a) h4 =
        Some (freed h4 (set (concat (map addrs ts'))) (int (blocks_list (map (tree_of h) ts'))))"
    proof -
      have fr: "at_heap h4 s \<and> tree_of h4 s = tree_of h s" if "s \<in> set ts'" for s
        unfolding h4_def using less.prems(2) d(4) that
        by (intro conjI at_heap_freed) (auto simp: Cons t K_def)
      then have e: "map (tree_of h4) ts' = map (tree_of h) ts'" by simp
      have "delete_at (l_next h a) h4 =
          Some (freed h4 (set (concat (map addrs ts'))) (int (blocks_list (map (tree_of h4) ts'))))"
        using less.prems(1) fr d(3) by (intro less.hyps) (auto simp: Cons t h4_def)
      then show ?thesis unfolding e .
    qed
    have m4: "free_block True (free_block (\<not> has_const_key (l_data h a) \<and> jstring (l_data h a) \<noteq> None)
        (free_block (\<not> is_reference (l_data h a) \<and> valuestring (l_data h a) \<noteq> None) (freed h K m))
          \<lparr>l_cells := l_cells (free_block (\<not> has_const_key (l_data h a) \<and> jstring (l_data h a) \<noteq> None)
        (free_block (\<not> is_reference (l_data h a) \<and> valuestring (l_data h a) \<noteq> None) (freed h K m))) - {a}\<rparr>) = h4"
      using a(2) unfolding cell_freed free_block_freed by (simp add: h4_def node_blocks_def algebra_simps)
    have "p = Some a" using less.prems(1) by (simp add: Cons t)
    then have "delete_at p h = delete_at (l_next h a) h4"
      using a(1,2) d(1) kids m4 by (subst delete_at.simps) (simp add: K_def Let_def)
    moreover have "freed h4 (set (concat (map addrs ts'))) (int (blocks_list (map (tree_of h) ts'))) =
        freed h (set (concat (map addrs ts))) (int (blocks_list (map (tree_of h) ts)))"
      by (simp add: h4_def Cons t K_def m_def a(2) Un_assoc algebra_simps)
    ultimately show ?thesis using rest by simp
  qed
qed

lemma delete_tree:
  assumes "tree h t" "l_next h (root t) = None"
  shows "delete_at (Some (root t)) h = Some (freed h (set (addrs t)) (int (blocks (tree_of h t))))"
  using delete_trees [of h "Some (root t)" "[t]"] assms by (simp add: tree_def)

lemma replace_tree:
  assumes p: "tree h (AT a (us @ t # vs))" and r: "tree h r"
    and d: "distinct (addrs (AT a (us @ t # vs)) @ addrs r)"
  shows "\<exists>h'. cJSON_ReplaceItemViaPointer (Some a) (Some (root t)) (Some (root r)) h = Some (True, h') \<and>
     tree h' (AT a (us @ r # vs)) \<and>
     tree_of h' (AT a (us @ r # vs)) = CJSON (l_data h a) (map (tree_of h) (us @ r # vs)) \<and>
     l_cells h' = l_cells h - set (addrs t) \<and>
     live (l_hooks h') = live (l_hooks h) - int (blocks (tree_of h t))"
proof -
  have ss: "\<forall>s \<in> set (r # us @ t # vs). at_heap h s" "distinct (a # concat (map addrs (r # us @ t # vs)))"
    using p r d by (auto simp: tree_parts tree_def)
  note x = distinct_at_heap [OF ss]
  obtain h1 where h1: "relink_replacement (Some a) (Some (root t)) (Some (root r)) h = Some h1"
      "chain h1 a (map root us @ root r # map root vs)" "l_next h1 (root t) = None"
      "relinked h h1 a (insert (root r) (set (map root us @ root t # map root vs)))"
    using relink_chain [of h a "map root us" "root t" "map root vs" "root r"] p x by (auto simp: tree_parts)
  have new: "at_heap h1 (AT a (us @ r # vs)) \<and>
      tree_of h1 (AT a (us @ r # vs)) = CJSON (l_data h a) (map (tree_of h) (us @ r # vs))"
    using p h1 by (intro relinked_parent [OF h1(4) _ ss]) (auto simp: tree_parts)
  have "at_heap h1 t \<and> tree_of h1 t = tree_of h t"
    by (rule relinked_tree [OF h1(4) _ ss]) auto
  moreover have "distinct (addrs t)" using ss(2) by auto
  ultimately have del: "delete_at (Some (root t)) h1 = Some (freed h1 (set (addrs t)) (int (blocks (tree_of h t))))"
    using delete_tree [of h1 t] h1(3) by (simp add: tree_def)
  define h' where "h' = freed h1 (set (addrs t)) (int (blocks (tree_of h t)))"
  have dn: "distinct (addrs (AT a (us @ r # vs)))" "set (addrs (AT a (us @ r # vs))) \<inter> set (addrs t) = {}"
    using ss(2) by auto
  have "at_heap h' (AT a (us @ r # vs)) \<and>
      tree_of h' (AT a (us @ r # vs)) = CJSON (l_data h a) (map (tree_of h) (us @ r # vs))"
    unfolding h'_def using at_heap_freed [OF conjunct1 [OF new] dn(2)] new by metis
  moreover have "l_child h a \<noteq> None" using p by (cases us) (auto simp: tree_parts chain_def)
  moreover have "root r \<noteq> root t" using x(2) by auto
  ultimately show ?thesis
    using p h1 del dn(1) by (intro exI [of _ h'])
      (auto simp: cJSON_ReplaceItemViaPointer_def tree_parts tree_def relinked_def h'_def)
qed

section \<open>Lookup\<close>

lemma find_map_option: "find P (map f xs) = map_option f (find (\<lambda>x. P (f x)) xs)"
  by (induction xs) auto

lemma find_split:
  "find P xs = Some x \<Longrightarrow> \<exists>us vs. xs = us @ x # vs \<and> P x \<and> (\<forall>u \<in> set us. \<not> P u)"
proof (induction xs)
  case (Cons y xs)
  show ?case
  proof (cases "P y")
    case True
    then show ?thesis using Cons.prems by (intro exI [of _ "[]"] exI [of _ xs]) simp
  next
    case False
    then obtain us vs where "xs = us @ x # vs" "P x" "\<forall>u \<in> set us. \<not> P u" using Cons by auto
    then show ?thesis using False by (intro exI [of _ "y # us"] exI [of _ vs]) simp
  qed
qed simp

definition stops_at :: "bool \<Rightarrow> string \<Rightarrow> jheap \<Rightarrow> atree \<Rightarrow> bool" where
  "stops_at cs n h t \<longleftrightarrow> \<not> passes_by cs n (l_data h (root t))"

lemma finds_trees:
  "(if cs then find_sensitive n (map (tree_of h) ts) else find_insensitive n (map (tree_of h) ts)) =
     map_option (tree_of h) (find (stops_at cs n h) ts)"
proof -
  have "find_sensitive n (map (tree_of h) ts) = map_option (tree_of h) (find (stops_at True n h) ts)"
    by (induction ts) (auto simp: stops_at_def passes_by_def split: option.split)
  moreover have "find_insensitive n (map (tree_of h) ts) = map_option (tree_of h) (find (stops_at False n h) ts)"
    by (induction ts) (auto simp: stops_at_def passes_by_def)
  ultimately show ?thesis by simp
qed

lemma lookup_tree:
  assumes "tree h (AT a ts)"
  shows "get_object_item_at (Some a) (Some n) cs h =
      Some (case find (stops_at cs n h) ts of None \<Rightarrow> None
            | Some t \<Rightarrow> if jstring (l_data h (root t)) = None then None else Some (root t))"
    and "get_object_item (Some (tree_of h (AT a ts))) (Some n) cs =
      (case find (stops_at cs n h) ts of None \<Rightarrow> None
       | Some t \<Rightarrow> if jstring (l_data h (root t)) = None then None else Some (tree_of h t))"
proof -
  have ts: "\<forall>t \<in> set ts. at_heap h t" "distinct (a # concat (map addrs ts))" and a: "a \<in> l_cells h"
      and c: "walk (l_next h) (l_child h a) (map root ts) None"
    using assms by (auto simp: tree_parts chain_def)
  have "find_loop cs n (l_child h a) h = Some (map_option root (find (stops_at cs n h) ts))"
    using find_loop_walk [OF c, of cs n] distinct_at_heap(1) [OF ts]
    by (simp add: find_map_option stops_at_def [abs_def])
  moreover have "root t \<in> l_cells h" if "find (stops_at cs n h) ts = Some t" for t
    using find_split [OF that] distinct_at_heap(1) [OF ts] by auto
  ultimately show "get_object_item_at (Some a) (Some n) cs h =
      Some (case find (stops_at cs n h) ts of None \<Rightarrow> None
            | Some t \<Rightarrow> if jstring (l_data h (root t)) = None then None else Some (root t))"
    using a by (auto simp: get_object_item_at_def split: option.split)
  show "get_object_item (Some (tree_of h (AT a ts))) (Some n) cs =
      (case find (stops_at cs n h) ts of None \<Rightarrow> None
       | Some t \<Rightarrow> if jstring (l_data h (root t)) = None then None else Some (tree_of h t))"
    using finds_trees [of cs n h ts] by (cases cs) (auto simp: get_object_item_def split: option.split)
qed

lemma lookup_same:
  assumes "tree h (AT a ts)" "tree h' (AT a ts)" "tree_of h' (AT a ts) = tree_of h (AT a ts)"
  shows "get_object_item_at (Some a) (Some n) cs h' = get_object_item_at (Some a) (Some n) cs h"
proof -
  have "l_data h' (root t) = l_data h (root t)" if "t \<in> set ts" for t
    using assms(3) that by (auto simp flip: info_tree_of)
  then have "find (stops_at cs n h') ts = find (stops_at cs n h) ts"
      "find (stops_at cs n h) ts = Some t \<Longrightarrow> l_data h' (root t) = l_data h (root t)" for t
    by (auto simp: stops_at_def intro!: find_cong dest!: find_split)
  then show ?thesis using lookup_tree(1) [OF assms(1)] lookup_tree(1) [OF assms(2)]
    by (auto split: option.split)
qed

text \<open>Taking out a child and deleting it: exactly its tree is freed.\<close>

lemma delete_child:
  assumes "tree h (AT a (us @ c # vs))"
  shows "\<exists>h1 h'. cJSON_DetachItemViaPointer (Some a) (Some (root c)) h = Some (Some (root c), h1) \<and>
    delete_at (Some (root c)) h1 = Some h' \<and> tree h' (AT a (us @ vs)) \<and>
    tree_of h' (AT a (us @ vs)) = CJSON (l_data h a) (map (tree_of h) (us @ vs)) \<and>
    l_cells h' = l_cells h - set (addrs c) \<and>
    live (l_hooks h') = live (l_hooks h) - int (blocks (tree_of h c))"
proof -
  obtain h1 where h1: "cJSON_DetachItemViaPointer (Some a) (Some (root c)) h = Some (Some (root c), h1)"
      "tree h1 (AT a (us @ vs))" "tree_of h1 (AT a (us @ vs)) = CJSON (l_data h a) (map (tree_of h) (us @ vs))"
      "tree h1 c" "tree_of h1 c = tree_of h c" "l_next h1 (root c) = None"
      "l_cells h1 = l_cells h" "l_hooks h1 = l_hooks h"
    using detach_tree [OF assms] unfolding relinked_def by blast
  define h1' where "h1' = freed h1 (set (addrs c)) (int (blocks (tree_of h c)))"
  have "set (addrs (AT a (us @ vs))) \<inter> set (addrs c) = {}" using assms by (auto simp: tree_parts)
  then have "tree h1' (AT a (us @ vs)) \<and> tree_of h1' (AT a (us @ vs)) = CJSON (l_data h a) (map (tree_of h) (us @ vs))"
    using at_heap_freed [of h1 "AT a (us @ vs)" "set (addrs c)" "int (blocks (tree_of h c))"] h1(2,3)
    unfolding h1'_def tree_def by metis
  moreover have "delete_at (Some (root c)) h1 = Some h1'"
    using delete_tree [OF h1(4,6)] h1(5) by (simp add: h1'_def)
  ultimately show ?thesis
    using h1(1,7,8) by (intro exI [of _ h1] exI [of _ h1']) (simp add: h1'_def)
qed

section \<open>Properties\<close>

text \<open>
  C6: the pointer code of the array operations is list surgery. On a tree in the heap, and a
  detached item of its own: adding is the \<open>add_item_to_array\<close> of the tree model; inserting
  puts the item at the index, or at the end; detaching takes out one child, whole, and leaves
  the others; deleting does the same and frees exactly that child's tree, and changes nothing
  for an index without a child; replacing puts the item in a child's place and frees exactly
  the old child; size and indexing read the list. Every link, \<open>prev\<close> of the first item included, is right
  afterwards, no freed item is used, and every walk ends.
\<close>

theorem array_ops_refine:
  assumes p: "tree h (AT a ts)" and t: "tree h t" "l_next h (root t) = None"
    and d: "distinct (addrs (AT a ts) @ addrs t)"
  shows "cJSON_GetArraySize (Some a) h = Some (of_nat (length ts)) \<and>
    cJSON_GetArrayItem (Some a) (int i) h = Some (if i < length ts then Some (root (ts ! i)) else None) \<and>
    (\<exists>h'. add_item_to_array_at (Some a) (Some (root t)) h = Some (True, h') \<and> tree h' (AT a (ts @ [t])) \<and>
       add_item_to_array (Some (tree_of h (AT a ts))) (Some (tree_of h t)) = (True, Some (tree_of h' (AT a (ts @ [t]))))) \<and>
    (\<exists>h'. cJSON_InsertItemInArray (Some a) (int i) (Some (root t)) h = Some (True, h') \<and>
       tree h' (AT a (take i ts @ t # drop i ts)) \<and>
       tree_of h' (AT a (take i ts @ t # drop i ts)) = CJSON (l_data h a) (map (tree_of h) (take i ts @ t # drop i ts))) \<and>
    (length ts \<le> i \<longrightarrow> cJSON_DeleteItemFromArray (Some a) (int i) h = Some h) \<and>
    cJSON_DeleteItemFromArray (Some a) (- int (Suc i)) h = Some h \<and>
    (i < length ts \<longrightarrow>
      (\<exists>h'. cJSON_DetachItemFromArray (Some a) (int i) h = Some (Some (root (ts ! i)), h') \<and>
         tree h' (AT a (take i ts @ drop (Suc i) ts)) \<and> tree h' (ts ! i) \<and>
         tree_of h' (AT a (take i ts @ drop (Suc i) ts)) = CJSON (l_data h a) (map (tree_of h) (take i ts @ drop (Suc i) ts)) \<and>
         tree_of h' (ts ! i) = tree_of h (ts ! i)) \<and>
      (\<exists>h'. cJSON_DeleteItemFromArray (Some a) (int i) h = Some h' \<and>
         tree h' (AT a (take i ts @ drop (Suc i) ts)) \<and>
         tree_of h' (AT a (take i ts @ drop (Suc i) ts)) = CJSON (l_data h a) (map (tree_of h) (take i ts @ drop (Suc i) ts)) \<and>
         l_cells h' = l_cells h - set (addrs (ts ! i)) \<and>
         live (l_hooks h') = live (l_hooks h) - int (blocks (tree_of h (ts ! i)))) \<and>
      (\<exists>h'. cJSON_ReplaceItemInArray (Some a) (int i) (Some (root t)) h = Some (True, h') \<and>
         tree h' (AT a (ts[i := t])) \<and>
         tree_of h' (AT a (ts[i := t])) = CJSON (l_data h a) (map (tree_of h) (ts[i := t])) \<and>
         l_cells h' = l_cells h - set (addrs (ts ! i)) \<and>
         live (l_hooks h') = live (l_hooks h) - int (blocks (tree_of h (ts ! i)))))"
proof -
  have ts: "\<forall>t \<in> set ts. at_heap h t" "distinct (a # concat (map addrs ts))"
      and a: "a \<in> l_cells h" "chain h a (map root ts)"
    using p by (auto simp: tree_parts)
  note r = distinct_at_heap [OF ts]
  note item = get_array_item_chain [OF a(2,1) r(1)]
  have size: "cJSON_GetArraySize (Some a) h = Some (of_nat (length ts))"
    using a r(1) size_loop_walk [of h "l_child h a" "map root ts" 0] by (simp add: cJSON_GetArraySize_def chain_def)
  have add: "\<exists>h'. add_item_to_array_at (Some a) (Some (root t)) h = Some (True, h') \<and> tree h' (AT a (ts @ [t])) \<and>
       add_item_to_array (Some (tree_of h (AT a ts))) (Some (tree_of h t)) = (True, Some (tree_of h' (AT a (ts @ [t]))))"
    using add_tree [OF p, of t] t d by (auto simp: tree_def add_item_to_array_def)
  have ins: "\<exists>h'. cJSON_InsertItemInArray (Some a) (int i) (Some (root t)) h = Some (True, h') \<and>
       tree h' (AT a (take i ts @ t # drop i ts)) \<and>
       tree_of h' (AT a (take i ts @ t # drop i ts)) = CJSON (l_data h a) (map (tree_of h) (take i ts @ t # drop i ts))"
  proof -
    have "distinct (addrs (AT a (t # ts)))" using d by auto
    then show ?thesis using insert_tree [OF p _ t(2), of i] t(1) unfolding tree_def by blast
  qed
  have at: "(\<exists>h'. cJSON_DetachItemFromArray (Some a) (int i) h = Some (Some (root (ts ! i)), h') \<and>
         tree h' (AT a (take i ts @ drop (Suc i) ts)) \<and> tree h' (ts ! i) \<and>
         tree_of h' (AT a (take i ts @ drop (Suc i) ts)) = CJSON (l_data h a) (map (tree_of h) (take i ts @ drop (Suc i) ts)) \<and>
         tree_of h' (ts ! i) = tree_of h (ts ! i)) \<and>
      (\<exists>h'. cJSON_DeleteItemFromArray (Some a) (int i) h = Some h' \<and>
         tree h' (AT a (take i ts @ drop (Suc i) ts)) \<and>
         tree_of h' (AT a (take i ts @ drop (Suc i) ts)) = CJSON (l_data h a) (map (tree_of h) (take i ts @ drop (Suc i) ts)) \<and>
         l_cells h' = l_cells h - set (addrs (ts ! i)) \<and>
         live (l_hooks h') = live (l_hooks h) - int (blocks (tree_of h (ts ! i)))) \<and>
      (\<exists>h'. cJSON_ReplaceItemInArray (Some a) (int i) (Some (root t)) h = Some (True, h') \<and>
         tree h' (AT a (ts[i := t])) \<and>
         tree_of h' (AT a (ts[i := t])) = CJSON (l_data h a) (map (tree_of h) (ts[i := t])) \<and>
         l_cells h' = l_cells h - set (addrs (ts ! i)) \<and>
         live (l_hooks h') = live (l_hooks h) - int (blocks (tree_of h (ts ! i))))" if i: "i < length ts"
  proof -
    define us vs where "us = take i ts" and "vs = drop (Suc i) ts"
    have e: "ts = us @ ts ! i # vs" using i by (simp add: us_def vs_def id_take_nth_drop)
    have u: "ts[i := t] = us @ t # vs" using i by (simp add: us_def vs_def upd_conv_take_nth_drop)
    have p': "tree h (AT a (us @ ts ! i # vs))" using p e by simp
    have d': "distinct (addrs (AT a (us @ ts ! i # vs)) @ addrs t)" using d e by simp
    show ?thesis
      using detach_tree [OF p'] delete_child [OF p'] replace_tree [OF p' t(1) d'] item [of i] i
      unfolding u us_def [symmetric] vs_def [symmetric]
      by (auto simp: cJSON_DetachItemFromArray_def cJSON_DeleteItemFromArray_def cJSON_ReplaceItemInArray_def)
  qed
  have none: "cJSON_DeleteItemFromArray (Some a) (- int (Suc i)) h = Some h"
    "length ts \<le> i \<longrightarrow> cJSON_DeleteItemFromArray (Some a) (int i) h = Some h"
    using item [of i]
    by (auto simp: cJSON_DeleteItemFromArray_def cJSON_DetachItemFromArray_def cJSON_DetachItemViaPointer_def
        delete_at.simps)
  show ?thesis using size add ins at none item [of i] by (auto simp: cJSON_GetArrayItem_def)
qed

text \<open>Two children and an item of its own.\<close>

definition example_heap :: jheap where
  "example_heap = \<lparr>l_cells = {0, 1, 2, 3},
     l_data = (\<lambda>a. node0\<lparr>jtype := (if a = 0 then cJSON_Object else cJSON_True),
       jstring := (if a = 1 then Some ''A'' else if a = 2 then Some ''B'' else None)\<rparr>),
     l_child = (\<lambda>a. if a = 0 then Some 1 else None),
     l_next = (\<lambda>a. if a = 1 then Some 2 else None),
     l_prev = (\<lambda>a. if a = 1 then Some 2 else if a = 2 then Some 1 else None),
     l_hooks = example_hooks\<lparr>live := 6\<rparr>\<rparr>"

lemma example_heap_trees:
  "tree example_heap (AT 0 [AT 1 [], AT 2 []])" "tree example_heap (AT 3 [])" "l_next example_heap 3 = None"
  by (simp_all add: tree_parts example_heap_def chain_def is_reference_def json_types node0_def)

theorem array_ops_refine_witness:
  "cJSON_GetArraySize (Some 0) example_heap = Some 2 \<and>
   (\<exists>h'. cJSON_ReplaceItemInArray (Some 0) 1 (Some 3) example_heap = Some (True, h') \<and>
      tree h' (AT 0 [AT 1 [], AT 3 []]) \<and> l_cells h' = {0, 1, 3} \<and> live (l_hooks h') = 4) \<and>
   (\<exists>h'. cJSON_DeleteItemFromArray (Some 0) 1 example_heap = Some h' \<and>
      tree h' (AT 0 [AT 1 []]) \<and> l_cells h' = {0, 1, 3} \<and> live (l_hooks h') = 4)"
proof -
  have "l_cells example_heap - {2} = {0, 1, 3}" "live (l_hooks example_heap) = 6"
      "blocks (tree_of example_heap (AT 2 [])) = 2"
    by (auto simp: example_heap_def node_blocks_def is_reference_def has_const_key_def json_types node0_def)
  then show ?thesis
    using array_ops_refine [OF example_heap_trees(1,2), of 1] example_heap_trees(3) by auto
qed

text \<open>The replacement under its new name.\<close>

definition renamed :: "jheap \<Rightarrow> addr \<Rightarrow> string \<Rightarrow> jheap" where
  "renamed h r n =
     (let h1 = free_block (\<not> has_const_key (l_data h r) \<and> jstring (l_data h r) \<noteq> None) h
      in set_data r (\<lambda>x. x\<lparr>jstring := Some (cstr n), jtype := jtype x AND NOT cJSON_StringIsConst\<rparr>)
           (h1\<lparr>l_hooks := snd (allocate (l_hooks h1))\<rparr>))"

lemma renamed_simps [simp]:
  "l_cells (renamed h r n) = l_cells h" "l_child (renamed h r n) = l_child h"
  "l_next (renamed h r n) = l_next h" "l_prev (renamed h r n) = l_prev h"
  "x \<noteq> r \<Longrightarrow> l_data (renamed h r n) x = l_data h x"
  "l_data (renamed h r n) r = (l_data h r)\<lparr>jstring := Some (cstr n), jtype := jtype (l_data h r) AND NOT cJSON_StringIsConst\<rparr>"
  by (simp_all add: renamed_def set_data_def free_block_def Let_def)

text \<open>The two entry points of each operation, by whether the case of the name counts.\<close>

definition delete_member :: "bool \<Rightarrow> ptr \<Rightarrow> string option \<Rightarrow> jheap \<Rightarrow> jheap option" where
  "delete_member b = (if b then cJSON_DeleteItemFromObjectCaseSensitive else cJSON_DeleteItemFromObject)"

definition replace_member :: "bool \<Rightarrow> ptr \<Rightarrow> string option \<Rightarrow> ptr \<Rightarrow> jheap \<Rightarrow> (bool \<times> jheap) option" where
  "replace_member b = (if b then cJSON_ReplaceItemInObjectCaseSensitive else cJSON_ReplaceItemInObject)"

lemma delete_member: "delete_member b object n h = do { (p, h) \<leftarrow> detach_item_from_object b object n h; delete_at p h }"
  by (simp add: delete_member_def cJSON_DeleteItemFromObject_def cJSON_DetachItemFromObject_def
      cJSON_DeleteItemFromObjectCaseSensitive_def cJSON_DetachItemFromObjectCaseSensitive_def)

lemma replace_renamed:
  assumes "r \<in> l_cells h" "avail (l_hooks h) (calls (l_hooks h))"
  shows "replace_member b object (Some n) (Some r) h =
    do { p \<leftarrow> get_object_item_at object (Some n) b (renamed h r n);
         cJSON_ReplaceItemViaPointer object p (Some r) (renamed h r n) }"
  using assms
  by (auto simp: replace_member_def cJSON_ReplaceItemInObject_def cJSON_ReplaceItemInObjectCaseSensitive_def
      replace_item_in_object_def renamed_def cJSON_strdup_def allocate_def set_data_def free_block_def
      deallocate_def Let_def split: if_splits)

lemma renamed_tree:
  assumes p: "tree h (AT a ts)" and t: "tree h t" and d: "distinct (addrs (AT a ts) @ addrs t)"
    and k: "avail (l_hooks h) (calls (l_hooks h))"
  shows "tree (renamed h (root t) n) (AT a ts)" "tree (renamed h (root t) n) t"
    "tree_of (renamed h (root t) n) (AT a ts) = tree_of h (AT a ts)"
    "live (l_hooks (renamed h (root t) n)) - int (blocks (tree_of (renamed h (root t) n) t)) =
     live (l_hooks h) - int (blocks (tree_of h t))"
proof -
  let ?h = "renamed h (root t) n"
  have "root t \<notin> set (addrs (AT a ts))" using d root_in_addrs [of t] by auto
  then have "x \<noteq> root t" if "x \<in> set (addrs (AT a ts))" for x using that by blast
  then have "same_tree h ?h (AT a ts)"
    using at_heap_cells [of h "AT a ts"] p unfolding same_tree_def tree_def
    by (auto simp del: addrs.simps at_heap.simps)
  then show "tree ?h (AT a ts)" "tree_of ?h (AT a ts) = tree_of h (AT a ts)"
    using tree_frame [of h "AT a ts" ?h] p by (simp_all add: tree_def del: addrs.simps at_heap.simps tree_of.simps)
  obtain r ks where r: "t = AT r ks" by (cases t)
  have ks: "at_heap ?h s \<and> tree_of ?h s = tree_of h s" if s: "s \<in> set ks" for s
  proof (rule tree_frame)
    show "at_heap h s" using t s by (auto simp: r tree_def)
    have "x \<noteq> r" if "x \<in> set (addrs s)" for x using t s that by (auto simp: r tree_def)
    then show "same_tree h ?h s"
      using at_heap_cells [of h s] t s by (auto simp: same_tree_def r tree_def)
  qed
  have ref: "is_reference (l_data ?h r) = is_reference (l_data h r)"
    by (simp add: r is_reference_def key_flags [unfolded is_reference_def])
  have "chain ?h r (map root ks) = chain h r (map root ks)" by (intro chain_cong) auto
  then show "tree ?h t" using t ks ref by (auto simp: tree_def r)
  have m: "map (tree_of (renamed h r n)) ks = map (tree_of h) ks" using ks by (simp add: r)
  have e: "blocks_list (map (tree_of (renamed h r n)) ks) = blocks_list (map (tree_of h) ks)" unfolding m ..
  have key: "\<not> has_const_key (l_data ?h r)" by (simp add: r has_const_key_def)
  have "live (l_hooks ?h) = live (l_hooks h) + 1 - (if \<not> has_const_key (l_data h r) \<and> jstring (l_data h r) \<noteq> None then 1 else 0)"
    using k by (simp add: r renamed_def set_data_def free_block_def Let_def allocate_def deallocate_def)
  moreover have "\<not> is_reference (l_data h r)" using t by (simp add: r tree_def)
  ultimately show "live (l_hooks ?h) - int (blocks (tree_of ?h t)) = live (l_hooks h) - int (blocks (tree_of h t))"
    using ref key e by (auto simp: r node_blocks_def)
qed

text \<open>
  C34: deleting and replacing by name, with case or without. Deleting takes out the member the
  lookup of the tree model finds, frees exactly its tree and leaves the others in order;
  when there is none it changes nothing. Replacing puts the new item in the place of that
  member under the given name; when there is none it reports failure, but the item has been
  renamed all the same.
\<close>

theorem member_ops_refine:
  assumes p: "tree h (AT a ts)" and t: "tree h t" and d: "distinct (addrs (AT a ts) @ addrs t)"
    and k: "avail (l_hooks h) (calls (l_hooks h))"
  shows "(\<exists>us c vs. ts = us @ c # vs \<and> get_object_item (Some (tree_of h (AT a ts))) (Some n) b = Some (tree_of h c) \<and>
      (\<exists>h'. delete_member b (Some a) (Some n) h = Some h' \<and> tree h' (AT a (us @ vs)) \<and>
         tree_of h' (AT a (us @ vs)) = CJSON (l_data h a) (map (tree_of h) (us @ vs)) \<and>
         l_cells h' = l_cells h - set (addrs c) \<and>
         live (l_hooks h') = live (l_hooks h) - int (blocks (tree_of h c))) \<and>
      (\<exists>h'. replace_member b (Some a) (Some n) (Some (root t)) h = Some (True, h') \<and>
         tree h' (AT a (us @ t # vs)) \<and>
         tree_of h' (AT a (us @ t # vs)) = CJSON (l_data h a) (map (tree_of h) us @ tree_of h' t # map (tree_of h) vs) \<and>
         l_cells h' = l_cells h - set (addrs c) \<and>
         live (l_hooks h') - int (blocks (tree_of h' t)) =
           live (l_hooks h) - int (blocks (tree_of h t)) - int (blocks (tree_of h c)) \<and>
         l_data h' (root t) = (l_data h (root t))\<lparr>jstring := Some (cstr n),
           jtype := jtype (l_data h (root t)) AND NOT cJSON_StringIsConst\<rparr>)) \<or>
    get_object_item (Some (tree_of h (AT a ts))) (Some n) b = None \<and>
      delete_member b (Some a) (Some n) h = Some h \<and>
      (\<exists>h'. replace_member b (Some a) (Some n) (Some (root t)) h = Some (False, h') \<and>
         jstring (l_data h' (root t)) = Some (cstr n))"
proof -
  define h2 where "h2 = renamed h (root t) n"
  note h2 = renamed_tree [OF p t d k, of n, folded h2_def]
  have "root t \<in> l_cells h" using t by (cases t) (simp add: tree_def)
  note repl = replace_renamed [OF this k, of b "Some a" n, folded h2_def]
  note same = lookup_same [OF p h2(1,3)]
  show ?thesis
  proof (cases "get_object_item (Some (tree_of h (AT a ts))) (Some n) b")
    case None
    then have "get_object_item_at (Some a) (Some n) b h = Some None"
      using lookup_tree [OF p, of n b] by (auto split: option.splits if_splits)
    then show ?thesis using None repl same p h2(1)
      by (auto simp: delete_member detach_item_from_object_def
          cJSON_DetachItemViaPointer_def cJSON_ReplaceItemViaPointer_def delete_at.simps tree_parts h2_def)
  next
    case (Some x)
    then obtain c where c: "find (stops_at b n h) ts = Some c" "x = tree_of h c"
        "get_object_item_at (Some a) (Some n) b h = Some (Some (root c))"
      using lookup_tree [OF p, of n b] by (auto split: option.splits if_splits)
    obtain us vs where ts: "ts = us @ c # vs" using find_split [OF c(1)] by blast
    have pu: "tree h (AT a (us @ c # vs))" "tree h2 (AT a (us @ c # vs))" using p h2(1) ts by simp_all
    have du: "distinct (addrs (AT a (us @ c # vs)) @ addrs t)" using d ts by simp
    have del: "\<exists>h'. delete_member b (Some a) (Some n) h = Some h' \<and> tree h' (AT a (us @ vs)) \<and>
         tree_of h' (AT a (us @ vs)) = CJSON (l_data h a) (map (tree_of h) (us @ vs)) \<and>
         l_cells h' = l_cells h - set (addrs c) \<and>
         live (l_hooks h') = live (l_hooks h) - int (blocks (tree_of h c))"
      using delete_child [OF pu(1)] c(3) by (auto simp: delete_member detach_item_from_object_def)
    obtain h' where h': "cJSON_ReplaceItemViaPointer (Some a) (Some (root c)) (Some (root t)) h2 = Some (True, h')"
        "tree h' (AT a (us @ t # vs))"
        "tree_of h' (AT a (us @ t # vs)) = CJSON (l_data h2 a) (map (tree_of h2) (us @ t # vs))"
        "l_cells h' = l_cells h2 - set (addrs c)"
        "live (l_hooks h') = live (l_hooks h2) - int (blocks (tree_of h2 c))"
      using replace_tree [OF pu(2) h2(2) du] by blast
    have old: "l_data h2 a = l_data h a" "map (tree_of h2) us = map (tree_of h) us"
        "map (tree_of h2) vs = map (tree_of h) vs" "tree_of h2 c = tree_of h c"
      using h2(3) unfolding ts by simp_all
    have new: "tree_of h' t = tree_of h2 t" using h'(3) by simp
    then have "l_data h' (root t) = l_data h2 (root t)" by (metis info_tree_of)
    then have rep: "\<exists>h'. replace_member b (Some a) (Some n) (Some (root t)) h = Some (True, h') \<and>
         tree h' (AT a (us @ t # vs)) \<and>
         tree_of h' (AT a (us @ t # vs)) = CJSON (l_data h a) (map (tree_of h) us @ tree_of h' t # map (tree_of h) vs) \<and>
         l_cells h' = l_cells h - set (addrs c) \<and>
         live (l_hooks h') - int (blocks (tree_of h' t)) =
           live (l_hooks h) - int (blocks (tree_of h t)) - int (blocks (tree_of h c)) \<and>
         l_data h' (root t) = (l_data h (root t))\<lparr>jstring := Some (cstr n),
           jtype := jtype (l_data h (root t)) AND NOT cJSON_StringIsConst\<rparr>"
      using h' repl same c(3) old new h2(4) by (intro exI [of _ h']) (auto simp: h2_def)
    show ?thesis using Some c(2) ts del rep by blast
  qed
qed

theorem member_ops_refine_witness:
  "\<exists>h'. cJSON_ReplaceItemInObject (Some 0) (Some ''b'') (Some 3) example_heap = Some (True, h') \<and>
     tree h' (AT 0 [AT 1 [], AT 3 []]) \<and> jstring (l_data h' 3) = Some ''b''"
proof -
  let ?ts = "[AT 1 [], AT 2 []]"
  have l: "get_object_item (Some (tree_of example_heap (AT 0 ?ts))) (Some ''b'') False = Some (tree_of example_heap (AT 2 []))"
    by (simp add: get_object_item_def example_heap_def node0_def case_insensitive_strcmp_def cstr_def c_tolower_def)
  have ne: "tree_of example_heap (AT 1 []) \<noteq> tree_of example_heap (AT 2 [])"
    by (simp add: example_heap_def node0_def)
  have av: "avail (l_hooks example_heap) (calls (l_hooks example_heap))"
    by (simp add: example_heap_def example_hooks_def)
  from member_ops_refine [OF example_heap_trees(1,2) _ av, of "''b''" False] obtain us c vs h' where
      "?ts = us @ c # vs" "tree_of example_heap c = tree_of example_heap (AT 2 [])"
      "replace_member False (Some 0) (Some ''b'') (Some 3) example_heap = Some (True, h')"
      "tree h' (AT 0 (us @ AT 3 [] # vs))" "jstring (l_data h' 3) = Some (cstr ''b'')"
    unfolding l by auto
  moreover from this ne have "us = [AT 1 []] \<and> vs = []" by (auto simp: Cons_eq_append_conv)
  ultimately show ?thesis by (auto simp: cstr_def replace_member_def)
qed

end
