(* ===== verification/JRoundtrip.thy ===== *)
theory JRoundtrip
  imports JParse JPrintApi
begin

text \<open>
  Parsing what has been printed (\<^verbatim>\<open>cJSON.c\<close>): on the text of a tree, plain or formatted, the
  parser builds the tree again. \<open>feeds\<close> says what is left to read; each parsing function is
  followed over the text its counterpart in the printer writes.
\<close>

section \<open>What comes back\<close>

definition text_of :: "string option \<Rightarrow> string" where
  "text_of s = (case s of None \<Rightarrow> [] | Some t \<Rightarrow> cstr t)"

text \<open>The tree as the parser builds it: flags and unused fields are cleared, \<open>true\<close> has the integer 1.\<close>

fun reread :: "string option \<Rightarrow> CJSON \<Rightarrow> CJSON" where
  "reread key (CJSON n ch) =
     (let t = jtype n AND 0xFF; x = node0\<lparr>jstring := key, jtype := t\<rparr> in
      if t = cJSON_True then CJSON (x\<lparr>valueint := 1\<rparr>) []
      else if t = cJSON_Number then CJSON (x\<lparr>valuedouble := valuedouble n, valueint := valueint n\<rparr>) []
      else if t = cJSON_String then CJSON (x\<lparr>valuestring := Some (text_of (valuestring n))\<rparr>) []
      else if t = cJSON_Array then CJSON x (map (reread None) ch)
      else if t = cJSON_Object then CJSON x (map (\<lambda>c. reread (Some (text_of (jstring (info c)))) c) ch)
      else CJSON x [])"

text \<open>
  A number that its text gives back: the text is a JSON number that fits the parser's buffer,
  and \<open>strtod\<close> reads the number from all of it.
\<close>

definition reads_as :: "string \<Rightarrow> dbl \<Rightarrow> int \<Rightarrow> bool" where
  "reads_as s d i \<longleftrightarrow> s \<noteq> [] \<and> (hd s = CHR ''-'' \<or> is_digit (hd s)) \<and> list_all number_char s \<and> length s \<le> 63 \<and>
     strtod s = (d, length s) \<and> saturate d = Some i"

definition readable :: "node \<Rightarrow> bool" where
  "readable n \<longleftrightarrow>
     (case number_text (valuedouble n) (valueint n) of None \<Rightarrow> False
      | Some s \<Rightarrow> reads_as s (valuedouble n) (valueint n))"

fun plain :: "nat \<Rightarrow> CJSON \<Rightarrow> bool" where
  "plain d (CJSON n ch) \<longleftrightarrow>
     (let t = jtype n AND 0xFF in
      t \<in> {cJSON_NULL, cJSON_False, cJSON_True, cJSON_String} \<or> t = cJSON_Number \<and> readable n \<or>
      t \<in> {cJSON_Array, cJSON_Object} \<and> d < CJSON_NESTING_LIMIT \<and> (\<forall>c \<in> set ch. plain (d + 1) c))"

fun cost :: "CJSON \<Rightarrow> nat" where
  "cost (CJSON n ch) =
     (if jtype n AND 0xFF \<in> {cJSON_Array, cJSON_Object}
      then 2 + foldr (\<lambda>c m. Suc (max (cost c) m)) ch 0 else 1)"

section \<open>What is left to read\<close>

definition feeds :: "parse_buffer \<Rightarrow> string \<Rightarrow> bool" where
  "feeds b u \<longleftrightarrow> (\<exists>pre post. content b = pre @ u @ post \<and> offset b = length pre \<and> blen b = length pre + length u)"

text \<open>The buffer when \<open>u\<close> is left.\<close>

definition leaving :: "parse_buffer \<Rightarrow> string \<Rightarrow> parse_buffer" where
  "leaving b u = b\<lparr>offset := blen b - length u\<rparr>"

lemma feeds_leaving: "feeds b (s @ u) \<Longrightarrow> feeds (leaving b u) u"
  unfolding feeds_def leaving_def
  by (elim exE) (rule_tac x = "pre @ s" in exI, rule_tac x = post in exI, simp)

lemma feeds_self: "feeds b u \<Longrightarrow> leaving b u = b"
  by (auto simp: feeds_def leaving_def)

lemma feeds_leaving_eq: "feeds b (s @ u) \<Longrightarrow> leaving b u = advance (length s) b"
  by (auto simp: feeds_def leaving_def advance_def)

lemma leaving_twice [simp]: "leaving (leaving b u) v = leaving b v"
  by (simp add: leaving_def)

lemma feeds_hk [simp]: "feeds (b\<lparr>hk := h\<rparr>) u = feeds b u" "feeds (b\<lparr>depth := n\<rparr>) u = feeds b u"
  by (simp_all add: feeds_def)

lemma leaving_hk [simp]: "leaving (b\<lparr>hk := h\<rparr>) u = (leaving b u)\<lparr>hk := h\<rparr>" "leaving (b\<lparr>depth := n\<rparr>) u = (leaving b u)\<lparr>depth := n\<rparr>"
  by (simp_all add: leaving_def)

lemma leaving_simps [simp]: "hk (leaving b u) = hk b" "depth (leaving b u) = depth b" "content (leaving b u) = content b"
  by (simp_all add: leaving_def)

lemma feeds_rd: "feeds b u \<Longrightarrow> k < length u \<Longrightarrow> rd (content b) (offset b + k) = Some (u ! k)"
  by (auto simp: feeds_def rd_def nth_append)

lemma feeds_rd0: "feeds b (c # u) \<Longrightarrow> rd (content b) (offset b) = Some c"
  using feeds_rd [of b "c # u" 0] by simp

lemma feeds_access: "feeds b u \<Longrightarrow> can_access b k \<longleftrightarrow> k < length u"
  by (auto simp: feeds_def can_access_def)

lemma next_sat_feeds: "feeds b (c # u) \<Longrightarrow> next_sat P b = POk (P c) b"
  by (simp add: next_sat_def feeds_access feeds_rd0)

lemma next_is_feeds: "feeds b (c # u) \<Longrightarrow> next_is x b = POk (c = x) b"
  by (simp add: next_is_def next_sat_feeds)

lemma literal_feeds:
  assumes "feeds b u" "no_nul w"
  shows "literal w b = POk (take (length w) u = w) b"
proof -
  obtain pre post where b: "content b = pre @ u @ post" "offset b = length pre" "blen b = length pre + length u"
    using assms(1) unfolding feeds_def by blast
  show ?thesis
  proof (cases "length w \<le> length u")
    case True
    then show ?thesis using assms(2) b by (auto simp: literal_def can_read_def strncmp_eq_prefix)
  next
    case False
    then have "take (length w) u \<noteq> w" by (metis length_take min.absorb_iff1 nat_le_linear)
    then show ?thesis using False b by (simp add: literal_def can_read_def)
  qed
qed

definition blank :: "string \<Rightarrow> bool" where
  "blank ws \<longleftrightarrow> (\<forall>c \<in> set ws. byte c \<le> 32)"

lemma blank_simps [simp]:
  "blank []" "blank (c # s) \<longleftrightarrow> byte c \<le> 32 \<and> blank s" "blank (s @ t) \<longleftrightarrow> blank s \<and> blank t" "blank (tabs n)"
  by (auto simp: blank_def tabs_def)

lemma skip_loop_blank:
  "blank ws \<Longrightarrow> 32 < byte x \<Longrightarrow> length pre + length ws < len \<Longrightarrow>
    skip_loop (pre @ ws @ x # r) len (length pre) = Some (length pre + length ws)"
proof (induction ws arbitrary: pre)
  case Nil
  then show ?case by (simp add: skip_loop.simps [of _ _ "length pre"])
next
  case (Cons c ws)
  have "skip_loop ((pre @ [c]) @ ws @ x # r) len (length (pre @ [c])) = Some (length (pre @ [c]) + length ws)"
    using Cons.prems by (intro Cons.IH) auto
  then show ?case using Cons.prems by (simp add: skip_loop.simps [of _ _ "length pre"])
qed

lemma skip_feeds:
  assumes "feeds b (ws @ x # u)" "blank ws" "32 < byte x"
  shows "buffer_skip_whitespace b = POk () (leaving b (x # u))"
proof -
  obtain pre post where b: "content b = pre @ (ws @ x # u) @ post" "offset b = length pre"
      "blen b = length pre + length (ws @ x # u)"
    using assms(1) unfolding feeds_def by blast
  have "skip_loop (content b) (blen b) (offset b) = Some (length pre + length ws)"
    using skip_loop_blank [OF assms(2,3), of pre "blen b" "u @ post"] b by simp
  then show ?thesis using b by (simp add: buffer_skip_whitespace_def can_access_def leaving_def)
qed

section \<open>String literals\<close>

definition escapes :: "string \<Rightarrow> nat" where
  "escapes s = length (filter (\<lambda>c. esc_char c \<noteq> [c]) s)"

lemma esc_char_cases:
  "esc_char c = [c] \<and> c \<noteq> CHR 0x22 \<and> c \<noteq> CHR 0x5C \<or>
   (\<exists>e. esc_char c = [CHR 0x5C, e] \<and> e \<noteq> CHR ''u'' \<and> simple_escape e = Some c) \<or>
   esc_char c = [CHR 0x5C, CHR ''u''] @ hex4_text (byte c) \<and> byte c < 32"
proof (cases "31 < byte c \<and> c \<noteq> CHR 0x22 \<and> c \<noteq> CHR 0x5C")
  case True
  then show ?thesis by (simp add: esc_char_def)
next
  case False
  show ?thesis
  proof (cases "short_escape c")
    case (Some e)
    then show ?thesis using False
      by (auto simp: esc_char_def short_escape_def simple_escape_def split: if_splits)
  next
    case None
    then have "c \<noteq> CHR 0x22" "c \<noteq> CHR 0x5C" by (auto simp: short_escape_def split: if_splits)
    then show ?thesis using False None by (simp add: esc_char_def)
  qed
qed

lemma esc_char_self: "esc_char c = [c] \<Longrightarrow> c \<noteq> CHR 0x22 \<and> c \<noteq> CHR 0x5C"
  using esc_char_cases [of c] by auto

lemma hex_char_plain: "v < 16 \<Longrightarrow> hex_char v \<noteq> CHR 0x22 \<and> hex_char v \<noteq> CHR 0x5C"
  by (auto simp: hex_char_def char_of_eq_iff take_bit_eq_mod)

lemma scan_step:
  "rd c i = Some ch \<Longrightarrow> i < len \<Longrightarrow> ch \<noteq> CHR 0x22 \<Longrightarrow> ch \<noteq> CHR 0x5C \<Longrightarrow>
    scan_string c len i sk = scan_string c len (i + 1) sk"
  "rd c i = Some (CHR 0x5C) \<Longrightarrow> i + 1 < len \<Longrightarrow> scan_string c len i sk = scan_string c len (i + 2) (sk + 1)"
  by (simp_all add: scan_string.simps [of c len i])

lemma scan_escape:
  "length pre + length (escape s) < len \<Longrightarrow>
    scan_string (pre @ escape s @ CHR 0x22 # r) len (length pre) sk =
      Found (length pre + length (escape s)) (sk + escapes s)"
proof (induction s arbitrary: pre sk)
  case Nil
  then show ?case by (simp add: escape_def escapes_def scan_string.simps [of _ _ "length pre"])
next
  case (Cons c s)
  define R where "R = escape s @ CHR 0x22 # r"
  have e: "escape (c # s) = esc_char c @ escape s" by (simp add: escape_def)
  have IH: "scan_string (pre @ esc_char c @ R) len (length pre + length (esc_char c)) k =
      Found (length pre + length (escape (c # s))) (k + escapes s)" for k
    using Cons.IH [of "pre @ esc_char c" k] Cons.prems by (simp add: e R_def)
  have len: "length pre + length (esc_char c) < len" using Cons.prems by (simp add: e)
  have "scan_string (pre @ esc_char c @ R) len (length pre) sk =
      scan_string (pre @ esc_char c @ R) len (length pre + length (esc_char c))
        (sk + (if esc_char c = [c] then 0 else 1))"
    using esc_char_cases [of c]
  proof (elim disjE exE conjE)
    assume "esc_char c = [c]" "c \<noteq> CHR 0x22" "c \<noteq> CHR 0x5C"
    then show ?thesis using len scan_step(1) [of "pre @ c # R" "length pre" c len sk] by simp
  next
    fix e assume "esc_char c = [CHR 0x5C, e]"
    then show ?thesis using len scan_step(2) [of "pre @ CHR 0x5C # e # R" "length pre" len sk] by simp
  next
    assume h: "esc_char c = [CHR 0x5C, CHR ''u''] @ hex4_text (byte c)" "byte c < 32"
    obtain x1 x2 x3 x4 where x: "hex4_text (byte c) = [x1, x2, x3, x4]"
        "\<forall>x \<in> {x1, x2, x3, x4}. x \<noteq> CHR 0x22 \<and> x \<noteq> CHR 0x5C"
      unfolding hex4_text_def using hex_char_plain by auto
    let ?c = "pre @ CHR 0x5C # CHR ''u'' # x1 # x2 # x3 # x4 # R"
    have r: "rd ?c (length pre + k) = rd (CHR 0x5C # CHR ''u'' # x1 # x2 # x3 # x4 # R) k" for k
      by (rule rd_append)
    have "scan_string ?c len (length pre) sk = scan_string ?c len (length pre + 2) (sk + 1)"
      using len h x r [of 0] by (intro scan_step(2)) auto
    also have "\<dots> = scan_string ?c len (length pre + 2 + 1) (sk + 1)"
      using len h x r [of 2] by (intro scan_step(1) [of _ _ x1]) (auto simp: numeral_2_eq_2)
    also have "\<dots> = scan_string ?c len (length pre + 3 + 1) (sk + 1)"
      using len h x r [of 3] by (subst scan_step(1) [of _ _ x2]) (auto simp: numeral_3_eq_3)
    also have "\<dots> = scan_string ?c len (length pre + 4 + 1) (sk + 1)"
      using len h x r [of 4] by (subst scan_step(1) [of _ _ x3]) (auto simp: eval_nat_numeral)
    also have "\<dots> = scan_string ?c len (length pre + 5 + 1) (sk + 1)"
      using len h x r [of 5] by (subst scan_step(1) [of _ _ x4]) (auto simp: eval_nat_numeral)
    finally show ?thesis using h x by (simp add: numeral_eq_Suc)
  qed
  then show ?case using IH by (simp add: e R_def escapes_def)
qed

lemma unit_unescaped:
  assumes "v < 0x80" "length pre + 6 \<le> ie"
  shows "utf16_literal_to_utf8 (pre @ json_unit v @ r) (length pre) ie = UOk 6 [char_of v]"
  using assms parse_hex4_unit [of v pre r] utf8_encode_simps(1) [of v]
  by (simp add: utf16_literal_to_utf8_def utf16_finish_def)

lemma length_s_escape: "length s + escapes s \<le> length (escape s)"
proof (induction s)
  case (Cons c s)
  have "1 + (if esc_char c = [c] then 0 else 1) \<le> length (esc_char c)" using esc_char_cases [of c] by auto
  then show ?case using Cons by (auto simp: escape_def escapes_def)
qed (simp add: escape_def escapes_def)

lemma unescape_escape:
  "ie = length pre + length (escape s) \<Longrightarrow> length out + length s < cp \<Longrightarrow>
    unescape (pre @ escape s @ CHR 0x22 # r) ie cp (length pre) out = SOk (out @ s)"
proof (induction s arbitrary: pre out)
  case Nil
  then show ?case by (simp add: escape_def unescape.simps [of _ "length pre"])
next
  case (Cons c s)
  define R where "R = escape s @ CHR 0x22 # r"
  have e: "escape (c # s) = esc_char c @ escape s" by (simp add: escape_def)
  have IH: "unescape (pre @ esc_char c @ R) ie cp (length pre + length (esc_char c)) (out @ [c]) = SOk (out @ c # s)"
    using Cons.IH [of "pre @ esc_char c" "out @ [c]"] Cons.prems by (simp add: e R_def)
  have ie: "length pre + length (esc_char c) \<le> ie" using Cons.prems by (simp add: e)
  have out: "length out < cp" using Cons.prems by simp
  have "unescape (pre @ esc_char c @ R) ie cp (length pre) out =
      unescape (pre @ esc_char c @ R) ie cp (length pre + length (esc_char c)) (out @ [c])"
    using esc_char_cases [of c]
  proof (elim disjE exE conjE)
    assume "esc_char c = [c]" "c \<noteq> CHR 0x5C"
    then show ?thesis using ie out by (subst unescape.simps) simp
  next
    fix e assume "esc_char c = [CHR 0x5C, e]" "e \<noteq> CHR ''u''" "simple_escape e = Some c"
    then show ?thesis using ie out by (subst unescape.simps) simp
  next
    assume h: "esc_char c = [CHR 0x5C, CHR ''u''] @ hex4_text (byte c)" "byte c < 32"
    have l: "length (esc_char c) = 6" by (simp add: h hex4_text_def)
    have j: "esc_char c = json_unit (byte c)" by (simp add: h json_unit_def)
    have u: "utf16_literal_to_utf8 (pre @ esc_char c @ R) (length pre) ie = UOk 6 [c]"
      using unit_unescaped [of "byte c" pre ie R] h(2) ie l by (simp add: j)
    have "rd (pre @ esc_char c @ R) (length pre) = Some (CHR 0x5C)"
        "rd (pre @ esc_char c @ R) (length pre + 1) = Some (CHR ''u'')"
      using rd_append [of pre "esc_char c @ R" 0] rd_append [of pre "esc_char c @ R" 1] by (simp_all add: h)
    then show ?thesis using ie out u l by (subst unescape.simps) simp
  qed
  then show ?case using IH by (simp add: e R_def)
qed

definition plentiful :: "hooks \<Rightarrow> bool" where
  "plentiful h \<longleftrightarrow> (\<forall>k. avail h k)"

lemma plentiful_allocate: "plentiful h \<Longrightarrow> \<exists>h'. allocate h = (True, h') \<and> plentiful h'"
  by (simp add: plentiful_def allocate_def)

text \<open>Success with this value, this text left and the allocator as good as before.\<close>

definition yields :: "'a pres \<Rightarrow> 'a \<Rightarrow> parse_buffer \<Rightarrow> string \<Rightarrow> bool" where
  "yields m x b u \<longleftrightarrow> (\<exists>h. plentiful h \<and> m = POk x ((leaving b u)\<lparr>hk := h\<rparr>))"

lemma quoted_text: "quoted k = CHR 0x22 # escape (text_of k) @ [CHR 0x22]"
  by (simp add: quoted_def text_of_def escape_def split: option.split)

lemma string_feeds:
  assumes "feeds b (quoted k @ u)" "plentiful (hk b)"
  shows "yields (parse_string it b)
    (set_info (\<lambda>x. x\<lparr>jtype := cJSON_String, valuestring := Some (text_of k)\<rparr>) it) b u"
proof -
  define s where "s = text_of k"
  obtain pre post where b: "content b = pre @ (quoted k @ u) @ post" "offset b = length pre"
      "blen b = length pre + length (quoted k @ u)"
    using assms(1) unfolding feeds_def by blast
  define pre1 where "pre1 = pre @ [CHR 0x22]"
  have c: "content b = pre1 @ escape s @ CHR 0x22 # u @ post" by (simp add: b pre1_def s_def quoted_text)
  have o: "offset b + 1 = length pre1" by (simp add: b pre1_def)
  define ie where "ie = length pre1 + length (escape s)"
  have "length pre1 + length (escape s) < blen b" by (simp add: b pre1_def s_def quoted_text)
  then have sc: "scan_string (content b) (blen b) (offset b + 1) 0 = Found ie (escapes s)"
    unfolding c o ie_def using scan_escape [of pre1 s "blen b" "u @ post" 0] by simp
  have un: "unescape (content b) ie (ie - offset b - escapes s + 1) (offset b + 1) [] = SOk s"
    unfolding c o using length_s_escape [of s] unescape_escape [of ie pre1 s "[]"] o
    by (simp add: ie_def)
  obtain h where h: "allocate (hk b) = (True, h)" "plentiful h" using plentiful_allocate assms(2) by blast
  have "rd (content b) (offset b) = Some (CHR 0x22)"
    by (simp add: b rd_append [of pre _ 0, simplified] quoted_text)
  moreover have "ie + 1 = blen b - length u" by (simp add: ie_def b pre1_def s_def quoted_text)
  ultimately show ?thesis using sc un h
    by (auto simp: yields_def parse_string_def leaving_def s_def intro!: exI [of _ h])
qed

section \<open>Numbers\<close>

definition stop :: "string \<Rightarrow> bool" where
  "stop u \<longleftrightarrow> u \<noteq> [] \<and> \<not> number_char (hd u)"

lemma number_copy_feeds:
  "list_all number_char t \<Longrightarrow> length acc + length t \<le> 63 \<Longrightarrow> \<not> number_char x \<Longrightarrow>
    length pre + length acc + length t < len \<Longrightarrow>
    number_copy (pre @ acc @ t @ x # r) len (length pre) (length acc) acc = Some (acc @ t)"
proof (induction t arbitrary: acc)
  case Nil
  then show ?case
    using rd_append [of "pre @ acc" "x # r" 0] by (simp add: number_copy.simps [of _ _ _ "length acc"])
next
  case (Cons c t)
  have "number_copy (pre @ (acc @ [c]) @ t @ x # r) len (length pre) (length (acc @ [c])) (acc @ [c]) =
      Some ((acc @ [c]) @ t)"
    using Cons.prems by (intro Cons.IH) auto
  then show ?case
    using Cons.prems rd_append [of "pre @ acc" "c # t @ x # r" 0]
    by (simp add: number_copy.simps [of _ _ _ "length acc"])
qed

lemma number_feeds:
  assumes "feeds b (s @ u)" "reads_as s d i" "stop u" "plentiful (hk b)"
  shows "yields (parse_number it b) (set_info (\<lambda>x. x\<lparr>valuedouble := d, valueint := i, jtype := cJSON_Number\<rparr>) it) b u"
proof -
  obtain pre post where b: "content b = pre @ (s @ u) @ post" "offset b = length pre"
      "blen b = length pre + length (s @ u)"
    using assms(1) unfolding feeds_def by blast
  obtain x u' where u: "u = x # u'" "\<not> number_char x" using assms(3) by (cases u) (auto simp: stop_def)
  have "number_copy (content b) (blen b) (offset b) 0 [] = Some s"
    using number_copy_feeds [of s "[]" x pre "blen b" "u' @ post"] assms(2) b u by (simp add: reads_as_def)
  moreover have "length s \<noteq> 0" "strtod s = (d, length s)" "saturate d = Some i"
    using assms(2) by (simp_all add: reads_as_def)
  ultimately show ?thesis
    using assms(4) feeds_leaving_eq [OF assms(1)]
    by (auto simp: yields_def parse_number_def advance_def intro!: exI [of _ "hk b"])
qed

lemma readable_int:
  assumes "in_int32 i" "valuedouble n = dbl_of_int i" "valueint n = i"
  shows "readable n"
proof -
  have b: "\<bar>i\<bar> < 2 ^ 53" using assms(1) by (auto simp: in_int32_def INT_MAX_def INT_MIN_def)
  have "number_text (dbl_of_int i) i = Some (show_int i)"
    using b length_show_int [OF assms(1)] by (simp add: number_text_def sprintf26_def)
  moreover have "list_all number_char (show_nat k)" for k
    using show_nat_digits by (auto simp: list_all_iff number_char_def)
  moreover have "is_digit (hd (show_nat k))" for k
    using show_nat_digits [of _ k] show_nat_nonempty [of k] by (cases "show_nat k") auto
  moreover have "show_nat k \<noteq> []" for k by (rule show_nat_nonempty)
  ultimately show ?thesis
    using assms length_show_int [OF assms(1)] strtod_show_int [OF b] saturate_int [OF assms(1)]
    by (auto simp: readable_def reads_as_def show_int_def number_char_def)
qed

section \<open>Steps\<close>

lemma yields_from [simp]: "yields m x ((leaving b v)\<lparr>hk := h\<rparr>) w \<longleftrightarrow> yields m x b w"
  by (simp add: yields_def)

lemma yields_leaving [simp]: "yields m x (leaving b v) w \<longleftrightarrow> yields m x b w"
  by (simp add: yields_def)

lemma yields_hk [simp]: "yields m x (b\<lparr>hk := h\<rparr>) w \<longleftrightarrow> yields m x b w"
  by (simp add: yields_def)

lemma yields_bind:
  assumes "yields m x b v" "\<And>h. plentiful h \<Longrightarrow> yields (F x ((leaving b v)\<lparr>hk := h\<rparr>)) y b w"
  shows "yields (pbind m F) y b w" "yields (pbind (pfailing m g) F) y b w"
  using assms by (auto simp: yields_def pbind_def pfailing_def)

lemma new_item_yields: "plentiful (hk b) \<Longrightarrow> feeds b u \<Longrightarrow> yields (new_item b) (CJSON node0 []) b u"
  using plentiful_allocate [of "hk b"]
  by (auto simp: yields_def new_item_def cJSON_New_Item_def feeds_self)

lemma pbind_POk [simp]: "pbind (POk x b) F = F x b"
  by (simp add: pbind_def)

lemma feeds_step: "feeds b (c # u) \<Longrightarrow> advance 1 b = leaving b u" "feeds b (c # u) \<Longrightarrow> feeds (leaving b u) u"
  using feeds_leaving_eq [of b "[c]" u] feeds_leaving [of b "[c]" u] by simp_all

lemma feeds_step_back:
  assumes "feeds b (p @ u)" "p \<noteq> []"
  shows "feeds (step_back (leaving b u)) (last p # u)" "leaving (step_back (leaving b u)) v = leaving b v"
proof -
  obtain pre post where b: "content b = pre @ (p @ u) @ post" "offset b = length pre"
      "blen b = length pre + length (p @ u)"
    using assms(1) unfolding feeds_def by blast
  have p: "p = butlast p @ [last p]" using assms(2) by simp
  have "length p = Suc (length (butlast p))" using assms(2) by (cases p) auto
  then show "feeds (step_back (leaving b u)) (last p # u)"
    unfolding feeds_def using b p
    by (intro exI [of _ "pre @ butlast p"] exI [of _ post]) (simp add: step_back_def leaving_def)
  show "leaving (step_back (leaving b u)) v = leaving b v" by (simp add: leaving_def step_back_def)
qed

text \<open>The text of a value starts with a character that is no space.\<close>

lemma is_digit_visible: "is_digit c \<Longrightarrow> 32 < byte c \<and> byte c < 128 \<and> c \<noteq> CHR '']''"
  by (auto simp: is_digit_def)

lemma render_hd:
  assumes "plain k t" "render f d t = Some s"
  shows "s \<noteq> [] \<and> 32 < byte (hd s) \<and> byte (hd s) < 128 \<and> hd s \<noteq> CHR '']''"
proof (cases t)
  case (CJSON n ch)
  have "reads_as r x i \<Longrightarrow> r \<noteq> [] \<and> 32 < byte (hd r) \<and> byte (hd r) < 128 \<and> hd r \<noteq> CHR '']''" for r x i
    by (cases r) (auto simp: reads_as_def dest: is_digit_visible)
  then show ?thesis
    using assms by (auto simp: CJSON render.simps readable_def json_types quoted_def Let_def split: if_splits option.splits)
qed

section \<open>Values\<close>

definition item0 :: "int32 \<Rightarrow> string option \<Rightarrow> CJSON" where
  "item0 ty key = CJSON (node0\<lparr>jtype := ty, jstring := key\<rparr>) []"

definition value_reads :: "bool \<Rightarrow> CJSON \<Rightarrow> bool" where
  "value_reads f t \<longleftrightarrow> (\<forall>n d s b u key ty. plain (depth b) t \<longrightarrow> render f d t = Some s \<longrightarrow> feeds b (s @ u) \<longrightarrow>
     stop u \<longrightarrow> plentiful (hk b) \<longrightarrow> cost t \<le> n \<longrightarrow> yields (parse_value n (item0 ty key) b) (reread key t) b u)"

lemma value_readsD:
  "value_reads f c \<Longrightarrow> plain (depth b) c \<Longrightarrow> render f d c = Some s \<Longrightarrow> feeds b (s @ u) \<Longrightarrow> stop u \<Longrightarrow>
    plentiful (hk b) \<Longrightarrow> cost c \<le> n \<Longrightarrow> yields (parse_value n (item0 ty key) b) (reread key c) b u"
  unfolding value_reads_def by blast

abbreviation costs :: "CJSON list \<Rightarrow> nat" where
  "costs cs \<equiv> foldr (\<lambda>c m. Suc (max (cost c) m)) cs 0"

lemma node0_item: "CJSON node0 [] = item0 0 None"
  by (simp add: item0_def node0_def)

lemma visible: "32 < byte (CHR '','')" "32 < byte (CHR '']'')" "32 < byte (CHR ''}'')" "32 < byte (CHR '':'')"
    "32 < byte (CHR 0x22)" "\<not> number_char (CHR '','')" "\<not> number_char (CHR '']'')" "\<not> number_char (CHR ''}'')"
    "\<not> number_char (CHR 0x0A)"
  by (simp_all add: number_char_def is_digit_def)

lemma elems_feed:
  assumes "cs \<noteq> []" "\<forall>c \<in> set cs. value_reads f c \<and> plain (depth b) c"
    and "render_elems f d cs = Some s" "feeds b (x # ws @ s @ CHR '']'' # u)" "blank ws" "plentiful (hk b)"
    and "costs cs \<le> n"
  shows "yields (parse_elems n items b) (items @ map (reread None) cs) b (CHR '']'' # u)"
  using assms
proof (induction cs arbitrary: s x ws b n items)
  case (Cons c cs)
  obtain m where n: "n = Suc m" "cost c \<le> m" "costs cs \<le> m" using Cons.prems(7) by (cases n) auto
  obtain s1 s2 where s: "render f d c = Some s1" "render_elems f d cs = Some s2"
      "s = s1 @ (if cs \<noteq> [] then elem_sep f else []) @ s2"
    using Cons.prems(3) by (auto simp: render_elems.simps split: option.splits)
  define v where "v = (if cs \<noteq> [] then elem_sep f else []) @ s2 @ CHR '']'' # u"
  have pl: "plain (depth b) c" and vr: "value_reads f c" using Cons.prems(2) by auto
  obtain y s1' where s1: "s1 = y # s1'" "32 < byte y" using render_hd [OF pl s(1)] by (cases s1) auto
  have feeds: "feeds b (x # ws @ s1 @ v)" using Cons.prems(4) by (simp add: s(3) v_def)
  obtain z v' where v: "v = z # v'" "32 < byte z" "stop v" "z = CHR '','' \<longleftrightarrow> cs \<noteq> []"
    using s(2) by (cases cs) (auto simp: v_def stop_def elem_sep_def visible render_elems.simps)
  show ?case
    unfolding n(1) parse_elems.simps
  proof (rule yields_bind(2) [OF new_item_yields [OF Cons.prems(6) feeds]])
    fix h assume h: "plentiful h"
    let ?b = "(leaving b (x # ws @ s1 @ v))\<lparr>hk := h\<rparr>"
    have fb: "feeds ?b (x # ws @ s1 @ v)" using feeds by (simp add: feeds_self)
    have sk: "buffer_skip_whitespace (advance 1 ?b) = POk () ((leaving b (s1 @ v))\<lparr>hk := h\<rparr>)"
      unfolding feeds_step(1) [OF fb] using skip_feeds [OF _ Cons.prems(5) s1(2), of "leaving ?b (ws @ s1 @ v)" "s1' @ v"]
        feeds_step(2) [OF fb] s1(1) by simp
    have f1: "feeds ((leaving b (s1 @ v))\<lparr>hk := h\<rparr>) (s1 @ v)"
      using feeds_leaving [of b "x # ws" "s1 @ v"] feeds by simp
    show "yields (pbind (buffer_skip_whitespace (advance 1 ?b)) (\<lambda>_ b.
        pbind (pfailing (parse_value m (CJSON node0 []) b) (delete_all (items @ [CJSON node0 []]))) (\<lambda>it b.
        pbind (buffer_skip_whitespace b) (\<lambda>_ b.
        pbind (next_is (CHR '','') b) (\<lambda>more b.
        if more then parse_elems m (items @ [it]) b else POk (items @ [it]) b)))))
      (items @ map (reread None) (c # cs)) b (CHR '']'' # u)"
      unfolding sk pbind_POk
    proof (rule yields_bind(2))
      show "yields (parse_value m (CJSON node0 []) ((leaving b (s1 @ v))\<lparr>hk := h\<rparr>)) (reread None c) b v"
        using value_readsD [OF vr _ s(1) f1 v(3) _ n(2), of 0 None] pl h by (simp add: node0_item)
    next
      fix h' assume h': "plentiful h'"
      let ?c = "(leaving b v)\<lparr>hk := h'\<rparr>"
      have fc: "feeds ?c v" using feeds_leaving [of b "x # ws @ s1" v] feeds by simp
      have sk: "buffer_skip_whitespace ?c = POk () ?c"
        using skip_feeds [of ?c "[]" z v'] fc v by (simp add: feeds_self)
      show "yields (pbind (buffer_skip_whitespace ?c) (\<lambda>_ b. pbind (next_is (CHR '','') b) (\<lambda>more b.
          if more then parse_elems m (items @ [reread None c]) b else POk (items @ [reread None c]) b)))
        (items @ map (reread None) (c # cs)) b (CHR '']'' # u)"
      proof (cases "cs = []")
        case True
        then have e: "v = CHR '']'' # u" using s(2) by (simp add: v_def render_elems.simps)
        show ?thesis
          using True h' next_is_feeds [OF fc [unfolded e]] e unfolding sk pbind_POk by (auto simp: yields_def)
      next
        case False
        have e: "v = CHR '','' # (if f then '' '' else []) @ s2 @ CHR '']'' # u"
          using False by (simp add: v_def elem_sep_def)
        have "yields (parse_elems m (items @ [reread None c]) ?c) ((items @ [reread None c]) @ map (reread None) cs) ?c (CHR '']'' # u)"
          using Cons.prems(2) fc e s(2) h' n(3) False
          by (intro Cons.IH [where s = s2 and x = "CHR '',''" and ws = "if f then '' '' else []"]) auto
        then show ?thesis using next_is_feeds [OF fc [unfolded e]] unfolding sk pbind_POk by (simp add: e)
      qed
    qed
  qed
qed simp

lemma yields_skip:
  assumes "feeds b (ws @ x # u)" "blank ws" "32 < byte x" "plentiful (hk b)"
  shows "yields (buffer_skip_whitespace b) () b (x # u)"
  using skip_feeds [OF assms(1-3)] assms(4) by (auto simp: yields_def intro!: exI [of _ "hk b"])

lemma yields_next_is:
  "feeds b (c # u) \<Longrightarrow> plentiful (hk b) \<Longrightarrow> yields (next_is x b) (c = x) b (c # u)"
  by (auto simp: yields_def next_is_feeds feeds_self intro!: exI [of _ "hk b"])

lemma yields_done: "plentiful h \<Longrightarrow> yields (POk x ((leaving b u)\<lparr>hk := h\<rparr>)) x b u"
  by (auto simp: yields_def)

lemma swap_item0:
  "swap_name (set_info (\<lambda>x. x\<lparr>jtype := t, valuestring := Some k\<rparr>) (item0 0 None)) = item0 t (Some k)"
  by (simp add: swap_name_def set_info_def item0_def node0_def)

definition member :: "CJSON \<Rightarrow> CJSON" where
  "member c = reread (Some (text_of (jstring (info c)))) c"

lemma quoted_Cons: "quoted k = CHR 0x22 # escape (text_of k) @ [CHR 0x22]"
  by (rule quoted_text)

lemma members_feed:
  assumes "cs \<noteq> []" "\<forall>c \<in> set cs. value_reads f c \<and> plain (depth b) c"
    and "render_members f d cs = Some ((if f then tabs d else []) @ s)"
    and "feeds b (x # ws @ s @ ws' @ CHR ''}'' # u)" "blank ws" "blank ws'" "plentiful (hk b)" "costs cs \<le> n"
  shows "yields (parse_members n items b) (items @ map member cs) b (CHR ''}'' # u)"
  using assms
proof (induction cs arbitrary: s x ws b n items)
  case (Cons c cs)
  obtain m where n: "n = Suc m" "cost c \<le> m" "costs cs \<le> m" using Cons.prems(8) by (cases n) auto
  define k where "k = jstring (info c)"
  obtain s1 s2 where s: "render f d c = Some s1" "render_members f d cs = Some s2"
      "s = quoted k @ key_sep f @ s1 @ member_sep f (cs \<noteq> []) @ s2"
    using Cons.prems(3) by (auto simp: render_members.simps k_def split: option.splits)
  define v where "v = member_sep f (cs \<noteq> []) @ s2 @ ws' @ CHR ''}'' # u"
  have pl: "plain (depth b) c" and vr: "value_reads f c" using Cons.prems(2) by auto
  obtain y s1' where s1: "s1 = y # s1'" "32 < byte y" using render_hd [OF pl s(1)] by (cases s1) auto
  have feeds: "feeds b (x # ws @ quoted k @ key_sep f @ s1 @ v)" using Cons.prems(4) by (simp add: s(3) v_def)
  note left = feeds_leaving [of b "x # ws" "quoted k @ key_sep f @ s1 @ v"]
    feeds_leaving [of b "x # ws @ quoted k" "key_sep f @ s1 @ v"]
    feeds_leaving [of b "x # ws @ quoted k @ key_sep f" "s1 @ v"]
    feeds_leaving [of b "x # ws @ quoted k @ key_sep f @ s1" v]
  have f0: "feeds (leaving b (quoted k @ key_sep f @ s1 @ v)) (quoted k @ key_sep f @ s1 @ v)"
    and f1: "feeds (leaving b (key_sep f @ s1 @ v)) (key_sep f @ s1 @ v)"
    and f2: "feeds (leaving b (s1 @ v)) (s1 @ v)" and f3: "feeds (leaving b v) v"
    using left feeds by simp_all
  obtain bl where ks: "key_sep f = CHR '':'' # bl" "blank bl" by (cases f) (auto simp: key_sep_def)
  have st: "stop v"
  proof (cases "cs = [] \<and> \<not> f")
    case True
    then have "v = ws' @ CHR ''}'' # u" using s(2) by (simp add: v_def member_sep_def render_members.simps)
    moreover have "\<not> number_char (hd (ws' @ CHR ''}'' # u))"
      using Cons.prems(6) by (cases ws') (auto simp: visible number_char_def is_digit_def)
    ultimately show ?thesis by (simp add: stop_def)
  next
    case False
    then show ?thesis by (auto simp: v_def stop_def member_sep_def visible)
  qed
  define item where "item = CJSON node0 []"
  define ki where "ki = set_info (\<lambda>x. x\<lparr>jtype := cJSON_String, valuestring := Some (text_of k)\<rparr>) item"
  have swap: "swap_name ki = item0 cJSON_String (Some (text_of k))"
    by (simp add: ki_def item_def node0_item swap_item0)
  define v2 where "v2 = (if cs = [] then CHR ''}'' # u else v)"
  have v2: "feeds (leaving b v2) v2" "\<exists>z v'. v2 = z # v' \<and> 32 < byte z \<and> (z = CHR '','' \<longleftrightarrow> cs \<noteq> [])"
    using feeds_leaving [of b "x # ws @ quoted k @ key_sep f @ s1 @ member_sep f False @ ws'" "CHR ''}'' # u"] f3 feeds s(2)
    by (auto simp: v2_def v_def member_sep_def visible render_members.simps)
  have t1: "yields (parse_string item ((leaving b (quoted k @ key_sep f @ s1 @ v))\<lparr>hk := h\<rparr>)) ki b (key_sep f @ s1 @ v)"
    if "plentiful h" for h
    using string_feeds [of "(leaving b (quoted k @ key_sep f @ s1 @ v))\<lparr>hk := h\<rparr>" k "key_sep f @ s1 @ v" item] f0 that
    by (simp add: ki_def)
  have t2: "yields (buffer_skip_whitespace ((leaving b (key_sep f @ s1 @ v))\<lparr>hk := h\<rparr>)) () b (key_sep f @ s1 @ v)"
    if "plentiful h" for h
    using yields_skip [of "(leaving b (key_sep f @ s1 @ v))\<lparr>hk := h\<rparr>" "[]" "CHR '':''" "bl @ s1 @ v"] f1 that
    by (simp add: ks visible)
  have t3: "yields (next_is (CHR '':'') ((leaving b (key_sep f @ s1 @ v))\<lparr>hk := h\<rparr>)) True b (key_sep f @ s1 @ v)"
    if "plentiful h" for h
    using yields_next_is [of "(leaving b (key_sep f @ s1 @ v))\<lparr>hk := h\<rparr>" "CHR '':''" "bl @ s1 @ v" "CHR '':''"] f1 that
    by (simp add: ks)
  have t4: "yields (buffer_skip_whitespace (advance 1 ((leaving b (key_sep f @ s1 @ v))\<lparr>hk := h\<rparr>))) () b (s1 @ v)"
    if "plentiful h" for h
  proof -
    have f: "feeds ((leaving b (key_sep f @ s1 @ v))\<lparr>hk := h\<rparr>) (CHR '':'' # bl @ s1 @ v)" using f1 by (simp add: ks)
    show ?thesis
      unfolding feeds_step(1) [OF f] using yields_skip [OF _ ks(2) s1(2), of _ "s1' @ v"] feeds_step(2) [OF f] that s1(1)
      by (metis append_Cons leaving_hk(1) leaving_twice parse_buffer.select_convs(5) parse_buffer.surjective
          parse_buffer.update_convs(5) yields_from)
  qed
  have t5: "yields (parse_value m (item0 cJSON_String (Some (text_of k))) ((leaving b (s1 @ v))\<lparr>hk := h\<rparr>)) (member c) b v"
    if "plentiful h" for h
    using value_readsD [OF vr _ s(1) _ st _ n(2), of "(leaving b (s1 @ v))\<lparr>hk := h\<rparr>"] pl f2 that
    by (simp add: member_def k_def)
  have t6: "yields (buffer_skip_whitespace ((leaving b v)\<lparr>hk := h\<rparr>)) () b v2" if "plentiful h" for h
  proof (cases "cs = []")
    case True
    then have "v = (member_sep f False @ ws') @ CHR ''}'' # u" using s(2) by (simp add: v_def render_members.simps)
    then show ?thesis
      using yields_skip [of "(leaving b v)\<lparr>hk := h\<rparr>" "member_sep f False @ ws'" "CHR ''}''" u] True f3 Cons.prems(6) that
      by (simp add: v2_def visible member_sep_def)
  next
    case False
    then show ?thesis
      using yields_skip [of "(leaving b v)\<lparr>hk := h\<rparr>" "[]"] v2(2) f3 that by (auto simp: v2_def)
  qed
  have t7: "yields (next_is (CHR '','') ((leaving b v2)\<lparr>hk := h\<rparr>)) (cs \<noteq> []) b v2" if "plentiful h" for h
  proof -
    obtain z v' where z: "v2 = z # v'" "z = CHR '','' \<longleftrightarrow> cs \<noteq> []" using v2(2) by blast
    have "yields (next_is (CHR '','') ((leaving b v2)\<lparr>hk := h\<rparr>)) (z = CHR '','') b v2"
      using yields_next_is [of "(leaving b v2)\<lparr>hk := h\<rparr>" z v' "CHR '',''"] v2(1) z(1) that by simp
    then show ?thesis using z(2) by simp
  qed
  have t8: "yields (if cs \<noteq> [] then parse_members m (items @ [member c]) ((leaving b v2)\<lparr>hk := h\<rparr>)
      else POk (items @ [member c]) ((leaving b v2)\<lparr>hk := h\<rparr>)) (items @ map member (c # cs)) b (CHR ''}'' # u)"
    if h: "plentiful h" for h
  proof (cases "cs = []")
    case True
    then show ?thesis using yields_done [OF h, of "items @ [member c]" b "CHR ''}'' # u"] by (simp add: v2_def)
  next
    case False
    then obtain s2' where s2: "s2 = (if f then tabs d else []) @ s2'"
      using s(2) by (cases cs) (auto simp: render_members.simps split: option.splits)
    have e: "v = CHR '','' # ((if f then [CHR 0x0A] else []) @ (if f then tabs d else [])) @ s2' @ ws' @ CHR ''}'' # u"
      using False by (simp add: v_def member_sep_def s2)
    have "yields (parse_members m (items @ [member c]) ((leaving b v)\<lparr>hk := h\<rparr>))
        ((items @ [member c]) @ map member cs) ((leaving b v)\<lparr>hk := h\<rparr>) (CHR ''}'' # u)"
      using Cons.prems(2,6) f3 s(2) s2 h n(3) False e
      by (intro Cons.IH [where s = s2' and x = "CHR '',''" and
            ws = "(if f then [CHR 0x0A] else []) @ (if f then tabs d else [])"]) auto
    then show ?thesis using False by (simp add: v2_def)
  qed
  show ?case
    unfolding n(1) parse_members.simps
  proof (rule yields_bind(2) [OF new_item_yields [OF Cons.prems(7) feeds]], fold item_def)
    fix h assume h: "plentiful h"
    let ?b = "(leaving b (x # ws @ quoted k @ key_sep f @ s1 @ v))\<lparr>hk := h\<rparr>"
    have fb: "feeds ?b (x # ws @ quoted k @ key_sep f @ s1 @ v)" using feeds by (simp add: feeds_self)
    have acc: "\<not> \<not> can_access ?b 1" using feeds_access [OF fb, of 1] by (simp add: quoted_Cons)
    have adv: "advance 1 ?b = (leaving b (ws @ quoted k @ key_sep f @ s1 @ v))\<lparr>hk := h\<rparr>"
      using feeds_step(1) [OF fb] by simp
    have fa: "feeds (advance 1 ?b) (ws @ quoted k @ key_sep f @ s1 @ v)"
      using feeds_step [OF fb] by simp
    have sk: "yields (buffer_skip_whitespace (advance 1 ?b)) () b (quoted k @ key_sep f @ s1 @ v)"
      using yields_skip [of "advance 1 ?b" ws "CHR 0x22" "escape (text_of k) @ [CHR 0x22] @ key_sep f @ s1 @ v"]
        fa Cons.prems(5) h visible(5) adv by (simp add: quoted_Cons)
    show "yields (if \<not> can_access ?b 1 then PFail (delete_all (items @ [item]) ?b) else
       pbind (buffer_skip_whitespace (advance 1 ?b)) (\<lambda>_ b.
       pbind (pfailing (parse_string item b) (delete_all (items @ [item]))) (\<lambda>it b.
       pbind (buffer_skip_whitespace b) (\<lambda>_ b.
       let it = swap_name it in
       pbind (next_is (CHR '':'') b) (\<lambda>y b.
       if \<not> y then PFail (delete_all (items @ [it]) b) else
       pbind (buffer_skip_whitespace (advance 1 b)) (\<lambda>_ b.
       pbind (pfailing (parse_value m it b) (delete_all (items @ [it]))) (\<lambda>it b.
       pbind (buffer_skip_whitespace b) (\<lambda>_ b.
       pbind (next_is (CHR '','') b) (\<lambda>more b.
       if more then parse_members m (items @ [it]) b else POk (items @ [it]) b)))))))))
      (items @ map member (c # cs)) b (CHR ''}'' # u)"
      unfolding if_not_P [OF acc]
      apply (rule yields_bind(1) [OF sk])
      apply (rule yields_bind(2) [OF t1], assumption)
      apply (rule yields_bind(1) [OF t2], assumption)
      apply (unfold Let_def swap)
      apply (rule yields_bind(1) [OF t3], assumption)
      apply (simp only: not_True_eq_False if_False)
      apply (rule yields_bind(1) [OF t4], assumption)
      apply (rule yields_bind(2) [OF t5], assumption)
      apply (rule yields_bind(1) [OF t6], assumption)
      apply (rule yields_bind(1) [OF t7], assumption)
      apply (rule t8, assumption)
      done
  qed
qed simp

text \<open>Arrays and objects.\<close>

lemma close_leaving:
  assumes "feeds b (x # u)"
  shows "close_buffer ((leaving (b\<lparr>depth := depth b + 1\<rparr>) (x # u))\<lparr>hk := h\<rparr>) = (leaving b u)\<lparr>hk := h\<rparr>"
  using assms by (auto simp: feeds_def close_buffer_def leaving_def)

lemma item0_children: "set_children t items (item0 ty key) = CJSON (node0\<lparr>jstring := key, jtype := t\<rparr>) items"
  by (simp add: set_children_def item0_def)

lemma feeds_before:
  assumes "feeds b (p @ u)" "p \<noteq> []"
  shows "feeds (step_back ((leaving b u)\<lparr>hk := h\<rparr>)) (last p # u)"
    "yields m x (step_back ((leaving b u)\<lparr>hk := h\<rparr>)) w \<longleftrightarrow> yields m x b w"
    "depth (step_back ((leaving b u)\<lparr>hk := h\<rparr>)) = depth b" "hk (step_back ((leaving b u)\<lparr>hk := h\<rparr>)) = h"
proof -
  have e: "step_back ((leaving b u)\<lparr>hk := h\<rparr>) = (step_back (leaving b u))\<lparr>hk := h\<rparr>" by (simp add: step_back_def)
  show "feeds (step_back ((leaving b u)\<lparr>hk := h\<rparr>)) (last p # u)"
    unfolding e using feeds_step_back(1) [OF assms] by simp
  show "yields m x (step_back ((leaving b u)\<lparr>hk := h\<rparr>)) w \<longleftrightarrow> yields m x b w"
    unfolding e using feeds_step_back(2) [OF assms] by (simp add: yields_def)
  show "depth (step_back ((leaving b u)\<lparr>hk := h\<rparr>)) = depth b" "hk (step_back ((leaving b u)\<lparr>hk := h\<rparr>)) = h"
    by (simp_all add: step_back_def)
qed

lemma yields_close:
  assumes "plentiful h" "feeds b (x # u)"
  shows "yields (POk y (close_buffer ((leaving (b\<lparr>depth := depth b + 1\<rparr>) (x # u))\<lparr>hk := h\<rparr>))) y b u"
  unfolding close_leaving [OF assms(2)] using assms(1) by (rule yields_done)

text \<open>The end of \<open>parse_array\<close> and \<open>parse_object\<close>: items, then the closing bracket.\<close>

lemma closing_feeds:
  assumes "yields m items b1 (z # u)" "feeds b1 (p @ z # u)" "b1 = b\<lparr>depth := depth b + 1\<rparr>" "feeds b (p @ z # u)"
  shows "yields (pbind m (\<lambda>items b. pbind (next_is z b) (\<lambda>y b.
      if y then POk (f items) (close_buffer b) else PFail (g items b)))) (f items) b u"
proof -
  obtain h where h: "plentiful h" "m = POk items ((leaving b1 (z # u))\<lparr>hk := h\<rparr>)"
    using assms(1) by (auto simp: yields_def)
  have "next_is z ((leaving b1 (z # u))\<lparr>hk := h\<rparr>) = POk True ((leaving b1 (z # u))\<lparr>hk := h\<rparr>)"
    using feeds_leaving [OF assms(2)] by (simp add: next_is_feeds)
  moreover have "yields (POk (f items) (close_buffer ((leaving b1 (z # u))\<lparr>hk := h\<rparr>))) (f items) b u"
    using yields_close [OF h(1) feeds_leaving [OF assms(4)], of "f items"]
    by (simp add: assms(3))
  ultimately show ?thesis by (simp add: h(2))
qed

lemma array_feeds:
  assumes "depth b < CJSON_NESTING_LIMIT" "\<forall>c \<in> set cs. value_reads f c \<and> plain (depth b + 1) c"
    and "render_elems f d cs = Some s" "feeds b (CHR ''['' # s @ CHR '']'' # u)" "plentiful (hk b)"
    and "Suc (costs cs) \<le> n"
  shows "yields (parse_array n (item0 ty key) b)
    (CJSON (node0\<lparr>jstring := key, jtype := cJSON_Array\<rparr>) (map (reread None) cs)) b u"
proof -
  obtain m where n: "n = Suc m" "costs cs \<le> m" using assms(6) by (cases n) auto
  define b1 where "b1 = b\<lparr>depth := depth b + 1\<rparr>"
  have b1: "feeds b1 (CHR ''['' # s @ CHR '']'' # u)" "plentiful (hk b1)" using assms(4,5) by (simp_all add: b1_def)
  define w where "w = s @ CHR '']'' # u"
  obtain z w' where w: "w = z # w'" "32 < byte z" "z = CHR '']'' \<longleftrightarrow> cs = []"
  proof (cases cs)
    case Nil
    then show ?thesis using assms(3) that [of "CHR '']''" u] by (simp add: w_def render_elems.simps visible)
  next
    case (Cons c cs')
    then obtain s1 where "render f d c = Some s1" "\<exists>r. s = s1 @ r"
      using assms(3) by (auto simp: render_elems.simps split: option.splits)
    then show ?thesis using render_hd [of "depth b + 1" c f d s1] assms(2) Cons that
      by (cases s1) (auto simp: w_def)
  qed
  have adv: "advance 1 b1 = leaving b1 w" "feeds (leaving b1 w) w"
    using feeds_step [OF b1(1)] by (simp_all add: w_def)
  have sk: "buffer_skip_whitespace (advance 1 b1) = POk () (leaving b1 w)"
    using skip_feeds [of "leaving b1 w" "[]" z w'] adv w by simp
  have nx: "next_is (CHR '']'') (leaving b1 w) = POk (cs = []) (leaving b1 w)"
    using next_is_feeds [of "leaving b1 w" z w' "CHR '']''"] adv w by simp
  have acc: "can_access (leaving b1 w) 0" using feeds_access [OF adv(2)] w(1) by simp
  let ?R = "CJSON (node0\<lparr>jstring := key, jtype := cJSON_Array\<rparr>)"
  have "yields (if cs = [] then POk (?R []) (close_buffer (leaving b1 w))
      else pbind (parse_elems m [] (step_back (leaving b1 w))) (\<lambda>items b.
        pbind (next_is (CHR '']'') b) (\<lambda>y b.
        if y then POk (?R items) (close_buffer b) else PFail (delete_all items b)))) (?R (map (reread None) cs)) b u"
  proof (cases "cs = []")
    case True
    then have e: "w = CHR '']'' # u" using assms(3) by (simp add: w_def render_elems.simps)
    have h: "leaving b1 w = (leaving ((leaving b w)\<lparr>depth := depth (leaving b w) + 1\<rparr>) w)\<lparr>hk := hk b\<rparr>"
      by (cases b) (simp add: b1_def leaving_def)
    have "yields (POk (?R []) (close_buffer (leaving b1 w))) (?R []) (leaving b w) u"
      unfolding h unfolding e using feeds_leaving [of b "[CHR ''['']" w] assms(4,5) e
      by (intro yields_close) (simp_all add: w_def)
    then show ?thesis using True by simp
  next
    case False
    have e: "(leaving b1 w)\<lparr>hk := hk b1\<rparr> = leaving b1 w" by (cases b1) (simp add: leaving_def)
    have "feeds b1 ([CHR ''[''] @ w)" "[CHR ''[''] \<noteq> []" using b1(1) by (simp_all add: w_def)
    note sb = feeds_before [OF this, where h = "hk b1", unfolded e]
    have "yields (parse_elems m [] (step_back (leaving b1 w))) ([] @ map (reread None) cs)
        (step_back (leaving b1 w)) (CHR '']'' # u)"
      using sb(1,3,4) b1(2) n(2) assms(2)
      by (intro elems_feed [OF False _ assms(3), where x = "CHR ''[''" and ws = "[]"]) (simp_all add: w_def b1_def)
    then have "yields (parse_elems m [] (step_back (leaving b1 w))) (map (reread None) cs) b1 (CHR '']'' # u)"
      unfolding sb(2) by simp
    then show ?thesis
      using False closing_feeds [of _ _ b1 "CHR '']''" u "CHR ''['' # s" b] b1(1) assms(4) b1_def by simp
  qed
  moreover have "parse_array (Suc m) (item0 ty key) b = (if cs = [] then POk (?R []) (close_buffer (leaving b1 w))
      else pbind (parse_elems m [] (step_back (leaving b1 w))) (\<lambda>items b.
        pbind (next_is (CHR '']'') b) (\<lambda>y b.
        if y then POk (?R items) (close_buffer b) else PFail (delete_all items b))))"
    using assms(1) feeds_rd0 [OF b1(1)]
    unfolding parse_array.simps Let_def b1_def [symmetric] item0_children
    by (simp add: sk nx acc del: One_nat_def)
  ultimately show ?thesis unfolding n(1) by simp
qed

lemma object_feeds:
  assumes "depth b < CJSON_NESTING_LIMIT" "\<forall>c \<in> set cs. value_reads f c \<and> plain (depth b + 1) c"
    and "render_members f d cs = Some s" "blank nl" "blank ws'"
    and "feeds b (CHR ''{'' # nl @ s @ ws' @ CHR ''}'' # u)" "plentiful (hk b)" "Suc (costs cs) \<le> n"
  shows "yields (parse_object n (item0 ty key) b)
    (CJSON (node0\<lparr>jstring := key, jtype := cJSON_Object\<rparr>) (map member cs)) b u"
proof -
  obtain m where n: "n = Suc m" "costs cs \<le> m" using assms(8) by (cases n) auto
  define b1 where "b1 = b\<lparr>depth := depth b + 1\<rparr>"
  have b1: "feeds b1 (CHR ''{'' # nl @ s @ ws' @ CHR ''}'' # u)" "plentiful (hk b1)"
    using assms(6,7) by (simp_all add: b1_def)
  let ?R = "CJSON (node0\<lparr>jstring := key, jtype := cJSON_Object\<rparr>)"
  define s' where "s' = drop (length (if f then tabs d else [])) s"
  define p where "p = nl @ (if cs = [] then ws' else if f then tabs d else [])"
  define w where "w = (if cs = [] then CHR ''}'' # u else s' @ ws' @ CHR ''}'' # u)"
  have s': "cs \<noteq> [] \<Longrightarrow> s = (if f then tabs d else []) @ s'"
    using assms(3) by (cases cs) (auto simp: s'_def render_members.simps split: option.splits)
  have pw: "nl @ s @ ws' @ CHR ''}'' # u = p @ w" "blank p"
    using s' assms(3-5) by (auto simp: p_def w_def render_members.simps)
  obtain z w' where w: "w = z # w'" "32 < byte z" "z = CHR ''}'' \<longleftrightarrow> cs = []"
  proof (cases cs)
    case Nil
    then show ?thesis using that [of "CHR ''}''" u] by (simp add: w_def visible)
  next
    case (Cons c cs')
    then have "\<exists>r. s' = CHR 0x22 # r"
      using assms(3) s' by (auto simp: render_members.simps quoted_Cons split: option.splits)
    then show ?thesis using Cons that by (auto simp: w_def visible)
  qed
  have fb: "feeds b1 (CHR ''{'' # p @ w)" "feeds b (CHR ''{'' # p @ w)" using b1(1) assms(6) pw(1) by simp_all
  have adv: "advance 1 b1 = leaving b1 (p @ w)" "feeds (leaving b1 (p @ w)) (p @ w)" "feeds (leaving b1 w) w"
    using feeds_step [OF fb(1)] feeds_leaving [of b1 "CHR ''{'' # p" w] fb(1) by simp_all
  have sk: "buffer_skip_whitespace (advance 1 b1) = POk () (leaving b1 w)"
    using skip_feeds [of "leaving b1 (p @ w)" p z w'] adv pw(2) w by simp
  have nx: "next_is (CHR ''}'') (leaving b1 w) = POk (cs = []) (leaving b1 w)"
    using next_is_feeds [of "leaving b1 w" z w' "CHR ''}''"] adv w by simp
  have acc: "can_access (leaving b1 w) 0" using feeds_access [OF adv(3)] w(1) by simp
  have "yields (if cs = [] then POk (?R []) (close_buffer (leaving b1 w))
      else pbind (parse_members m [] (step_back (leaving b1 w))) (\<lambda>items b.
        pbind (next_is (CHR ''}'') b) (\<lambda>y b.
        if y then POk (?R items) (close_buffer b) else PFail (delete_all items b)))) (?R (map member cs)) b u"
  proof (cases "cs = []")
    case True
    then have e: "w = CHR ''}'' # u" by (simp add: w_def)
    have h: "leaving b1 w = (leaving ((leaving b w)\<lparr>depth := depth (leaving b w) + 1\<rparr>) w)\<lparr>hk := hk b\<rparr>"
      by (cases b) (simp add: b1_def leaving_def)
    have "yields (POk (?R []) (close_buffer (leaving b1 w))) (?R []) (leaving b w) u"
      unfolding h unfolding e using feeds_leaving [of b "CHR ''{'' # p" w] fb(2) assms(7) e
      by (intro yields_close) simp_all
    then show ?thesis using True by simp
  next
    case False
    have e: "(leaving b1 w)\<lparr>hk := hk b1\<rparr> = leaving b1 w" by (cases b1) (simp add: leaving_def)
    have "feeds b1 ((CHR ''{'' # p) @ w)" "CHR ''{'' # p \<noteq> []" using fb(1) by simp_all
    note sb = feeds_before [OF this, where h = "hk b1", unfolded e]
    have "yields (parse_members m [] (step_back (leaving b1 w))) ([] @ map member cs)
        (step_back (leaving b1 w)) (CHR ''}'' # u)"
      using sb(1,3,4) b1(2) n(2) assms(2,3,5) s' False
      by (intro members_feed [OF False, where f = f and d = d and s = s' and x = "last (CHR ''{'' # p)" and ws = "[]" and ws' = ws'])
        (simp_all add: w_def b1_def)
    then have "yields (parse_members m [] (step_back (leaving b1 w))) (map member cs) b1 (CHR ''}'' # u)"
      unfolding sb(2) by simp
    then show ?thesis
      using False closing_feeds [of _ _ b1 "CHR ''}''" u "CHR ''{'' # p @ s' @ ws'" b] fb b1_def by (simp add: w_def)
  qed
  moreover have "parse_object (Suc m) (item0 ty key) b = (if cs = [] then POk (?R []) (close_buffer (leaving b1 w))
      else pbind (parse_members m [] (step_back (leaving b1 w))) (\<lambda>items b.
        pbind (next_is (CHR ''}'') b) (\<lambda>y b.
        if y then POk (?R items) (close_buffer b) else PFail (delete_all items b))))"
    using assms(1) next_is_feeds [OF fb(1)]
    unfolding parse_object.simps Let_def b1_def [symmetric] item0_children
    by (simp add: sk nx acc del: One_nat_def)
  ultimately show ?thesis unfolding n(1) by simp
qed

lemma value_dispatch:
  assumes "feeds b (c # v)" "c \<notin> {CHR ''n'', CHR ''f'', CHR ''t''}"
  shows "parse_value (Suc m) it b =
    (if c = CHR 0x22 then parse_string it b
     else if c = CHR ''-'' \<or> is_digit c then parse_number it b
     else if c = CHR ''['' then parse_array m it b
     else if c = CHR ''{'' then parse_object m it b else PFail b)"
  using assms(2) literal_feeds [OF assms(1), of "''null''"] literal_feeds [OF assms(1), of "''false''"]
    literal_feeds [OF assms(1), of "''true''"]
  by (simp add: parse_value.simps next_is_feeds [OF assms(1)] next_sat_feeds [OF assms(1)])

lemma yields_word:
  assumes "feeds b (w @ u)" "plentiful (hk b)" "m = POk x (advance (length w) b)"
  shows "yields m x b u"
  unfolding assms(3) feeds_leaving_eq [OF assms(1), symmetric]
  using assms(2) by (cases b) (auto simp: yields_def leaving_def intro!: exI [of _ "hk b"])

lemma word_feeds:
  assumes "feeds b (w @ u)" "plentiful (hk b)"
    and "(w, f) \<in> {(''null'', \<lambda>x. x\<lparr>jtype := cJSON_NULL\<rparr>), (''false'', \<lambda>x. x\<lparr>jtype := cJSON_False\<rparr>),
      (''true'', \<lambda>x. x\<lparr>jtype := cJSON_True, valueint := 1\<rparr>)}"
  shows "yields (parse_value (Suc m) it b) (set_info f it) b u"
  using assms(3) literal_feeds [OF assms(1), of "''null''"] literal_feeds [OF assms(1), of "''false''"]
    literal_feeds [OF assms(1), of "''true''"]
  by (intro yields_word [OF assms(1,2)]) (auto simp: parse_value.simps eval_nat_numeral)

lemma value_feeds: "value_reads f t"
proof (induction t)
  case (CJSON n ch)
  show ?case unfolding value_reads_def
  proof (intro allI impI)
    fix k d s b u key ty
    assume pl: "plain (depth b) (CJSON n ch)" and r: "render f d (CJSON n ch) = Some s" and fe: "feeds b (s @ u)"
      and st: "stop u" and al: "plentiful (hk b)" and co: "cost (CJSON n ch) \<le> k"
    obtain m where k: "k = Suc m" using co by (cases k) (auto split: if_splits)
    define t where "t = jtype n AND 0xFF"
    have kids: "\<forall>c \<in> set ch. value_reads f c" using CJSON.IH by blast
    consider (word) "t \<in> {cJSON_NULL, cJSON_False, cJSON_True}" | (num) "t = cJSON_Number" "readable n"
      | (str) "t = cJSON_String" | (arr) "t = cJSON_Array" | (obj) "t = cJSON_Object"
      using pl by (auto simp: t_def Let_def)
    then show "yields (parse_value k (item0 ty key) b) (reread key (CJSON n ch)) b u"
    proof cases
      case word
      obtain g where g: "(s, g) \<in> {(''null'', \<lambda>x. x\<lparr>jtype := cJSON_NULL\<rparr>), (''false'', \<lambda>x. x\<lparr>jtype := cJSON_False\<rparr>),
          (''true'', \<lambda>x. x\<lparr>jtype := cJSON_True, valueint := 1\<rparr>)}"
          "set_info g (item0 ty key) = reread key (CJSON n ch)"
        using word r by (auto simp: t_def [symmetric] render.simps Let_def set_info_def item0_def json_types)
      show ?thesis using word_feeds [OF fe al g(1), of m "item0 ty key"] by (simp add: k g(2))
    next
      case num
      then have ra: "reads_as s (valuedouble n) (valueint n)"
        using r by (auto simp: t_def [symmetric] render.simps readable_def json_types split: option.splits)
      obtain c s' where c: "s = c # s'" "c = CHR ''-'' \<or> is_digit c" using ra by (cases s) (auto simp: reads_as_def)
      then have "c \<noteq> CHR 0x22" "c \<notin> {CHR ''n'', CHR ''f'', CHR ''t''}" by (auto simp: is_digit_def)
      then have "parse_value k (item0 ty key) b = parse_number (item0 ty key) b"
        using value_dispatch [of b c "s' @ u" m "item0 ty key"] fe c by (simp add: k)
      then show ?thesis
        using number_feeds [OF fe ra st al, of "item0 ty key"] num
        by (simp add: t_def [symmetric] set_info_def item0_def node0_def Let_def json_types)
    next
      case str
      then have s: "s = quoted (valuestring n)" using r by (simp add: t_def [symmetric] render.simps json_types)
      then have "parse_value k (item0 ty key) b = parse_string (item0 ty key) b"
        using value_dispatch [of b "CHR 0x22" "escape (text_of (valuestring n)) @ [CHR 0x22] @ u" m "item0 ty key"] fe
        by (simp add: k quoted_Cons)
      then show ?thesis
        using string_feeds [OF fe [unfolded s] al, of "item0 ty key"] str
        by (simp add: t_def [symmetric] set_info_def item0_def Let_def json_types)
    next
      case arr
      then obtain e where e: "render_elems f (d + 1) ch = Some e" "s = ''['' @ e @ '']''"
        using r by (auto simp: t_def [symmetric] render.simps json_types)
      have km: "Suc (costs ch) \<le> m" using co arr by (simp add: t_def [symmetric] k)
      have "parse_value k (item0 ty key) b = parse_array m (item0 ty key) b"
        using value_dispatch [of b "CHR ''[''" "e @ '']'' @ u" m "item0 ty key"] fe e by (simp add: k is_digit_def)
      moreover have "yields (parse_array m (item0 ty key) b)
          (CJSON (node0\<lparr>jstring := key, jtype := cJSON_Array\<rparr>) (map (reread None) ch)) b u"
        using pl arr kids e fe al km
        by (intro array_feeds [where f = f and d = "d + 1" and s = e]) (auto simp: t_def [symmetric] Let_def json_types)
      ultimately show ?thesis using arr by (simp add: t_def [symmetric] Let_def json_types)
    next
      case obj
      then obtain e where e: "render_members f (d + 1) ch = Some e"
          "s = ''{'' @ (if f then [CHR 0x0A] else []) @ e @ (if f then tabs d else []) @ ''}''"
        using r by (auto simp: t_def [symmetric] render.simps json_types)
      have km: "Suc (costs ch) \<le> m" using co obj by (simp add: t_def [symmetric] k)
      have "parse_value k (item0 ty key) b = parse_object m (item0 ty key) b"
        using value_dispatch [of b "CHR ''{''" _ m "item0 ty key"] fe e by (simp add: k is_digit_def)
      moreover have "yields (parse_object m (item0 ty key) b)
          (CJSON (node0\<lparr>jstring := key, jtype := cJSON_Object\<rparr>) (map member ch)) b u"
        using pl obj kids e fe al km
        by (intro object_feeds [where f = f and d = "d + 1" and s = e and nl = "if f then [CHR 0x0A] else []" and
              ws' = "if f then tabs d else []"]) (auto simp: t_def [symmetric] Let_def json_types)
      ultimately show ?thesis using obj by (simp add: t_def [symmetric] Let_def json_types member_def [abs_def])
    qed
  qed
qed

section \<open>The whole text\<close>

lemma costs_elems:
  "\<forall>c \<in> set cs. plain k c \<and> (\<forall>d s. render f d c = Some s \<longrightarrow> cost c \<le> 2 * length s) \<Longrightarrow>
    render_elems f d cs = Some s \<Longrightarrow> costs cs \<le> 2 * length s + (if cs = [] then 0 else 1)"
proof (induction cs arbitrary: s)
  case (Cons c cs)
  obtain s1 s2 where s: "render f d c = Some s1" "render_elems f d cs = Some s2"
      "s = s1 @ (if cs \<noteq> [] then elem_sep f else []) @ s2"
    using Cons.prems(2) by (auto simp: render_elems.simps split: option.splits)
  have "cost c \<le> 2 * length s1" "s1 \<noteq> []" using Cons.prems(1) s(1) render_hd [of k c f d s1] by auto
  then show ?case using Cons.IH [OF _ s(2)] Cons.prems(1) s(3)
    by (cases s1) (auto simp: elem_sep_def)
qed simp

lemma costs_members:
  "\<forall>c \<in> set cs. plain k c \<and> (\<forall>d s. render f d c = Some s \<longrightarrow> cost c \<le> 2 * length s) \<Longrightarrow>
    render_members f d cs = Some s \<Longrightarrow> costs cs \<le> 2 * length s + (if cs = [] then 0 else 1)"
proof (induction cs arbitrary: s)
  case (Cons c cs)
  obtain s1 s2 where s: "render f d c = Some s1" "render_members f d cs = Some s2"
      "s = (if f then tabs d else []) @ quoted (jstring (info c)) @ key_sep f @ s1 @ member_sep f (cs \<noteq> []) @ s2"
    using Cons.prems(2) by (auto simp: render_members.simps split: option.splits)
  have "cost c \<le> 2 * length s1" using Cons.prems(1) s(1) by auto
  then show ?case using Cons.IH [OF _ s(2)] Cons.prems(1) s(3)
    by (auto simp: quoted_Cons split: if_splits)
qed simp

lemma cost_le: "plain k t \<Longrightarrow> render f d t = Some s \<Longrightarrow> cost t \<le> 2 * length s"
proof (induction t arbitrary: k d s)
  case (CJSON n ch)
  define t where "t = jtype n AND 0xFF"
  show ?case
  proof (cases "t \<in> {cJSON_Array, cJSON_Object}")
    case False
    then show ?thesis using render_hd [OF CJSON.prems] by (cases s) (auto simp: t_def)
  next
    case True
    have kids: "\<forall>c \<in> set ch. plain (k + 1) c \<and> (\<forall>d s. render f d c = Some s \<longrightarrow> cost c \<le> 2 * length s)"
      using CJSON True by (auto simp: t_def Let_def json_types)
    from True show ?thesis
      using CJSON.prems(2) costs_elems [OF kids] costs_members [OF kids]
      by (auto simp: t_def [symmetric] render.simps json_types Let_def) (force split: if_splits)+
  qed
qed

lemma parse_render:
  assumes t: "plain 0 t" and r: "render f 0 t = Some s" and n: "no_nul s" and h: "plentiful h"
  shows "\<exists>h'. cJSON_Parse (Some (s @ NUL # junk)) h =
    Returned \<lparr>p_item = Some (reread None t), p_error = None, p_end = length s, p_hooks = h'\<rparr>"
proof -
  let ?c = "s @ NUL # junk"
  define b where "b = \<lparr>content = ?c, blen = length s + 1, offset = 0, depth = 0, hk = h\<rparr>"
  have f: "feeds b (s @ [NUL])" unfolding feeds_def b_def by (intro exI [of _ "[]"] exI [of _ junk]) simp
  obtain h1 where h1: "plentiful h1" "new_item b = POk (item0 0 None) (b\<lparr>hk := h1\<rparr>)"
  proof -
    have "plentiful (hk b)" using h by (simp add: b_def)
    then show ?thesis using new_item_yields [OF _ f] that by (auto simp: yields_def feeds_self [OF f] node0_item)
  qed
  obtain x s' where s: "s = x # s'" "32 < byte x" "byte x < 128" using render_hd [OF t r] by (cases s) auto
  have "x \<noteq> CHR 0xEF" using s(3) by auto
  then have bom: "skip_utf8_bom (b\<lparr>hk := h1\<rparr>) = POk True (b\<lparr>hk := h1\<rparr>)"
    by (simp add: skip_utf8_bom_def b_def s(1) numeral_3_eq_3)
  have ws: "buffer_skip_whitespace (b\<lparr>hk := h1\<rparr>) = POk () (b\<lparr>hk := h1\<rparr>)"
    using skip_feeds [of "b\<lparr>hk := h1\<rparr>" "[]" x "s' @ [NUL]"] f s by (simp add: feeds_self)
  have d0: "depth b = 0" by (simp add: b_def)
  have fuel: "cost t \<le> parse_fuel (length s + 1)" using cost_le [OF t r] by (simp add: parse_fuel_def)
  have "yields (parse_value (parse_fuel (length s + 1)) (item0 0 None) (b\<lparr>hk := h1\<rparr>)) (reread None t) (b\<lparr>hk := h1\<rparr>) [NUL]"
    using t f h1(1) d0 by (intro value_readsD [OF value_feeds _ r _ _ _ fuel])
      (simp_all add: stop_def number_char_def is_digit_def)
  then obtain h2 where v: "parse_value (parse_fuel (length s + 1)) (item0 0 None) (b\<lparr>hk := h1\<rparr>) =
      POk (reread None t) ((leaving b [NUL])\<lparr>hk := h2\<rparr>)"
    by (auto simp: yields_def)
  have "cstr ?c = s" using n by simp
  then show ?thesis
    using h1(2) bom ws v
    by (simp add: cJSON_Parse_def cJSON_ParseWithOpts_def cJSON_ParseWithLengthOpts_def flip: b_def)
      (simp add: check_end_def parse_done_def b_def leaving_def)
qed

text \<open>
  C5: printing and parsing are inverse. Whatever a successful \<open>print\<close> returns for a tree,
  formatted or not, \<open>cJSON_Parse\<close> reads it back, given memory, and builds the same tree: the
  same values, strings byte for byte, names, children and order. The tree is free of raw
  items, is not nested deeper than the parser allows, and its numbers are ones their text
  determines (every \<^verbatim>\<open>int\<close> is); only flags and fields that JSON does not have are cleared.
\<close>

theorem print_parse_roundtrip:
  assumes "valid_json t" "plain 0 t" "print_json (Some t) fmt h = Text (Some out) h'" "\<forall>k. avail h2 k"
  shows "\<exists>res. cJSON_Parse (Some out) h2 = Returned res \<and> p_item res = Some (reread None t) \<and> p_error res = None"
proof -
  have "print_outcome fmt t h (Text (Some out) h')" using print_text [OF assms(1), of fmt h] assms(3) by simp
  then obtain s where s: "render fmt 0 t = Some s" "take (length s + 1) out = s @ [NUL]"
    by (auto simp: print_outcome_def split: option.splits)
  then have out: "out = s @ NUL # drop (length s + 1) out"
    by (metis append_Cons append_Nil append_assoc append_take_drop_id)
  show ?thesis
    using parse_render [OF assms(2) s(1) no_nul_render [OF assms(1) s(1)], of h2 "drop (length s + 1) out"] assms(4) out
    by (auto simp: plentiful_def)
qed

definition sample_tree :: CJSON where
  "sample_tree = CJSON (node0\<lparr>jtype := cJSON_Array\<rparr>)
     [CJSON (node0\<lparr>jtype := cJSON_String, valuestring := Some (''a'' @ [CHR 0x0A, CHR 0x01, NUL])\<rparr>) [],
      CJSON (node0\<lparr>jtype := cJSON_Number, valueint := 7, valuedouble := dbl_of_int 7\<rparr>) []]"

lemma sample_tree_valid: "valid_json sample_tree"
  by (simp add: sample_tree_def valid_json.simps node0_def dzero_def c_ints valid_dbl_int)

lemma sample_tree_plain: "plain 0 sample_tree"
  using readable_int [of 7 "node0\<lparr>jtype := cJSON_Number, valueint := 7, valuedouble := dbl_of_int 7\<rparr>"]
  by (simp add: sample_tree_def Let_def json_types c_ints CJSON_NESTING_LIMIT_def)

lemma sample_tree_text: "\<exists>s. render f 0 sample_tree = Some s \<and> length s < 100"
proof -
  have "number_text (dbl_of_int 7) 7 = Some (show_int 7)" "length (show_int 7) \<le> 11"
    by (simp_all add: number_text_int length_show_int c_ints)
  moreover have "length (quoted (Some (''a'' @ [CHR 0x0A, CHR 0x01, NUL]))) < 20" by code_simp
  ultimately show ?thesis
    by (simp add: sample_tree_def render.simps render_elems.simps json_types node0_def elem_sep_def Let_def)
qed

lemma sample_tree_prints: "\<exists>out h. print_json (Some sample_tree) f example_hooks = Text (Some out) h"
proof -
  have "print_fits f sample_tree example_hooks"
    using sample_tree_text [of f] by (auto simp: print_fits_def INT_MAX_def example_hooks_def)
  moreover have "print_outcome f sample_tree example_hooks (print_json (Some sample_tree) f example_hooks)"
    by (rule print_text [OF sample_tree_valid])
  ultimately show ?thesis by (auto simp: print_outcome_def split: print_res.splits option.splits)
qed

theorem print_parse_roundtrip_witness:
  "\<exists>out h' res. print_json (Some sample_tree) True example_hooks = Text (Some out) h' \<and>
     cJSON_Parse (Some out) example_hooks = Returned res \<and> p_item res = Some (reread None sample_tree) \<and>
     map (valuestring \<circ> info) (child (reread None sample_tree)) = [Some (''a'' @ [CHR 0x0A, CHR 0x01]), None]"
proof -
  have av: "\<forall>k. avail example_hooks k" by (simp add: example_hooks_def)
  obtain out h' where out: "print_json (Some sample_tree) True example_hooks = Text (Some out) h'"
    using sample_tree_prints by blast
  have "map (valuestring \<circ> info) (child (reread None sample_tree)) = [Some (''a'' @ [CHR 0x0A, CHR 0x01]), None]"
    by (simp add: sample_tree_def Let_def json_types node0_def text_of_def cstr_def)
  moreover obtain res where "cJSON_Parse (Some out) example_hooks = Returned res"
      "p_item res = Some (reread None sample_tree)"
    using print_parse_roundtrip [OF sample_tree_valid sample_tree_plain out av] by auto
  ultimately show ?thesis using out by (intro exI conjI)
qed

end
