(* ===== verification/JMinify.thy ===== *)
theory JMinify
  imports JRoundtrip
begin

text \<open>
  \<open>cJSON_Minify\<close> (\<^verbatim>\<open>cJSON.c\<close>), which rewrites a text in its own block: \<open>json\<close> reads ahead of
  \<open>into\<close>, both are offsets into the block, and an access outside it is \<open>None\<close>. \<open>minify\<close> says
  what comes out; on a formatted text it gives the unformatted one.
\<close>

section \<open>The code\<close>

definition store_at :: "string \<Rightarrow> nat \<Rightarrow> char \<Rightarrow> string option" where
  "store_at b k c = (if k < length b then Some (b[k := c]) else None)"

lemma byte_at_in: "rd b k = Some c \<Longrightarrow> k < length b"
  by (simp add: rd_def split: if_splits)

lemma store_at_length: "store_at b k c = Some b' \<Longrightarrow> length b' = length b"
  by (auto simp: store_at_def split: if_splits)

text \<open>The loops of \<open>skip_oneline_comment\<close> and \<open>skip_multiline_comment\<close>.\<close>

function oneline_loop :: "string \<Rightarrow> nat \<Rightarrow> nat option" where
  "oneline_loop b json =
     (case rd b json of None \<Rightarrow> None
      | Some c \<Rightarrow>
          if c = NUL then Some json
          else if c = CHR 0x0A then Some (json + 1)
          else oneline_loop b (json + 1))"
  by pat_completeness auto
termination by (relation "measure (\<lambda>(b, i). length b - i)") (auto intro: diff_less_mono2 dest: byte_at_in)

definition skip_oneline_comment :: "string \<Rightarrow> nat \<Rightarrow> nat option" where
  "skip_oneline_comment b json = oneline_loop b (json + 2)"

function multiline_loop :: "string \<Rightarrow> nat \<Rightarrow> nat option" where
  "multiline_loop b json =
     (case rd b json of None \<Rightarrow> None
      | Some c \<Rightarrow>
          if c = NUL then Some json
          else if c = CHR ''*'' then
            (case rd b (json + 1) of None \<Rightarrow> None
             | Some d \<Rightarrow> if d = CHR ''/'' then Some (json + 2) else multiline_loop b (json + 1))
          else multiline_loop b (json + 1))"
  by pat_completeness auto
termination by (relation "measure (\<lambda>(b, i). length b - i)") (auto intro: diff_less_mono2 dest: byte_at_in)

definition skip_multiline_comment :: "string \<Rightarrow> nat \<Rightarrow> nat option" where
  "skip_multiline_comment b json = multiline_loop b (json + 2)"

text \<open>The loop of \<open>minify_string\<close>; the character is read again after the store, as in the code.\<close>

function string_loop :: "string \<Rightarrow> nat \<Rightarrow> nat \<Rightarrow> (string \<times> nat \<times> nat) option" where
  "string_loop b json into =
     (case rd b json of None \<Rightarrow> None
      | Some c \<Rightarrow>
          if c = NUL then Some (b, json, into)
          else (case store_at b into c of None \<Rightarrow> None
            | Some b \<Rightarrow> (case rd b json of None \<Rightarrow> None
            | Some c \<Rightarrow>
                if c = CHR 0x22 then
                  (case store_at b into (CHR 0x22) of None \<Rightarrow> None | Some b \<Rightarrow> Some (b, json + 1, into + 1))
                else if c = CHR 0x5C then
                  (case rd b (json + 1) of None \<Rightarrow> None
                   | Some d \<Rightarrow>
                       if d = CHR 0x22 then
                         (case store_at b (into + 1) d of None \<Rightarrow> None
                          | Some b \<Rightarrow> string_loop b (json + 2) (into + 2))
                       else string_loop b (json + 1) (into + 1))
                else string_loop b (json + 1) (into + 1))))"
  by pat_completeness auto
termination
  by (relation "measure (\<lambda>(b, i, k). length b - i)") (auto intro: diff_less_mono2 dest!: byte_at_in store_at_length)

definition minify_string :: "string \<Rightarrow> nat \<Rightarrow> nat \<Rightarrow> (string \<times> nat \<times> nat) option" where
  "minify_string b json into =
     (case rd b json of None \<Rightarrow> None
      | Some c \<Rightarrow> (case store_at b into c of None \<Rightarrow> None | Some b \<Rightarrow> string_loop b (json + 1) (into + 1)))"

declare oneline_loop.simps [simp del] multiline_loop.simps [simp del] string_loop.simps [simp del]

definition is_blank :: "char \<Rightarrow> bool" where
  "is_blank c \<longleftrightarrow> c \<in> {CHR 0x20, CHR 0x09, CHR 0x0D, CHR 0x0A}"

partial_function (option) minify_loop :: "string \<Rightarrow> nat \<Rightarrow> nat \<Rightarrow> string option" where
  "minify_loop b json into =
     (case rd b json of None \<Rightarrow> None
      | Some c \<Rightarrow>
          if c = NUL then store_at b into NUL
          else if is_blank c then minify_loop b (json + 1) into
          else if c = CHR ''/'' then
            (case rd b (json + 1) of None \<Rightarrow> None
             | Some d \<Rightarrow>
                 if d = CHR ''/'' then
                   (case skip_oneline_comment b json of None \<Rightarrow> None | Some json \<Rightarrow> minify_loop b json into)
                 else if d = CHR ''*'' then
                   (case skip_multiline_comment b json of None \<Rightarrow> None | Some json \<Rightarrow> minify_loop b json into)
                 else minify_loop b (json + 1) into)
          else if c = CHR 0x22 then
            (case minify_string b json into of None \<Rightarrow> None
             | Some (b, json, into) \<Rightarrow> minify_loop b json into)
          else (case store_at b into c of None \<Rightarrow> None | Some b \<Rightarrow> minify_loop b (json + 1) (into + 1)))"

text \<open>A \<open>NULL\<close> argument stays one.\<close>

definition cJSON_Minify :: "string option \<Rightarrow> string option option" where
  "cJSON_Minify json =
     (case json of None \<Rightarrow> Some None | Some b \<Rightarrow> map_option Some (minify_loop b 0 0))"

section \<open>What comes out\<close>

fun line_rest :: "string \<Rightarrow> string" where
  "line_rest [] = []"
| "line_rest (c # s) = (if c = CHR 0x0A then s else line_rest s)"

fun block_rest :: "string \<Rightarrow> string" where
  "block_rest [] = []"
| "block_rest [c] = []"
| "block_rest (c # d # s) = (if c = CHR ''*'' \<and> d = CHR ''/'' then s else block_rest (d # s))"

text \<open>A string literal behind its opening quote: what is copied and what is left.\<close>

fun literal_end :: "string \<Rightarrow> string \<times> string" where
  "literal_end [] = ([], [])"
| "literal_end [c] = ([c], [])"
| "literal_end (c # d # s) =
     (if c = CHR 0x22 then ([c], d # s)
      else if c = CHR 0x5C \<and> d = CHR 0x22 then (case literal_end s of (q, r) \<Rightarrow> (c # d # q, r))
      else (case literal_end (d # s) of (q, r) \<Rightarrow> (c # q, r)))"

lemma rest_lengths:
  "length (line_rest s) \<le> length s" "length (block_rest s) \<le> length s"
  "length (snd (literal_end s)) \<le> length s" "length (fst (literal_end s)) + length (snd (literal_end s)) = length s"
proof -
  show "length (line_rest s) \<le> length s" by (induction s) auto
  show "length (block_rest s) \<le> length s" by (induction s rule: block_rest.induct) auto
  show "length (fst (literal_end s)) + length (snd (literal_end s)) = length s"
    by (induction s rule: literal_end.induct) (auto split: prod.split)
  then show "length (snd (literal_end s)) \<le> length s" by linarith
qed

function minify :: "string \<Rightarrow> string" where
  "minify [] = []"
| "minify (c # s) =
     (if is_blank c then minify s
      else if c = CHR ''/'' then
        (case s of
           d # t \<Rightarrow> if d = CHR ''/'' then minify (line_rest t) else if d = CHR ''*'' then minify (block_rest t) else minify s
         | [] \<Rightarrow> [])
      else if c = CHR 0x22 then c # fst (literal_end s) @ minify (snd (literal_end s))
      else c # minify s)"
  by pat_completeness auto
termination
  by (relation "measure length") (auto simp: rest_lengths less_Suc_eq_le le_SucI)

declare minify.simps [simp del]

lemma minify_Nil [simp]: "minify [] = []"
  by (rule minify.simps)

lemma minify_cases:
  obtains "is_blank c" "minify (c # s) = minify s"
  | t where "c = CHR ''/''" "s = CHR ''/'' # t" "minify (c # s) = minify (line_rest t)"
  | t where "c = CHR ''/''" "s = CHR ''*'' # t" "minify (c # s) = minify (block_rest t)"
  | "c = CHR ''/''" "\<forall>t. s \<noteq> CHR ''/'' # t \<and> s \<noteq> CHR ''*'' # t" "minify (c # s) = minify s"
  | "c = CHR 0x22" "minify (c # s) = c # fst (literal_end s) @ minify (snd (literal_end s))"
  | "\<not> is_blank c" "c \<noteq> CHR ''/''" "c \<noteq> CHR 0x22" "minify (c # s) = c # minify s"
  using minify.simps(2) [of c s] by (cases s) (auto simp: is_blank_def split: if_splits)

lemma length_minify: "length (minify s) \<le> length s"
proof (induction s rule: measure_induct_rule [of length])
  case (less s)
  show ?case
  proof (cases s)
    case (Cons c u)
    show ?thesis
    proof (rule minify_cases [of c u])
      fix t assume "u = CHR ''/'' # t" "minify (c # u) = minify (line_rest t)"
      then show ?thesis using less [of "line_rest t"] rest_lengths(1) [of t] Cons by simp
    next
      fix t assume "u = CHR ''*'' # t" "minify (c # u) = minify (block_rest t)"
      then show ?thesis using less [of "block_rest t"] rest_lengths(2) [of t] Cons by simp
    next
      assume "minify (c # u) = c # fst (literal_end u) @ minify (snd (literal_end u))"
      then show ?thesis using less [of "snd (literal_end u)"] rest_lengths(3,4) [of u] Cons by simp
    qed (use less [of u] Cons in simp_all)
  qed simp
qed

section \<open>In place\<close>

lemma byte_at_at [simp]: "rd (p @ x # q) (length p) = Some x" "rd (p @ x # y # q) (Suc (length p)) = Some y"
proof -
  show r: "rd (p @ x # q) (length p) = Some x" for p x q by (simp add: rd_def)
  show "rd (p @ x # y # q) (Suc (length p)) = Some y" using r [of "p @ [x]" y q] by simp
qed

text \<open>The block while it is rewritten: what is done, the gap, what is left to read.\<close>

definition shift :: "string \<Rightarrow> char \<Rightarrow> string" where
  "shift g c = tl (g @ [c])"

lemma length_shift [simp]: "length (shift g c) = length g"
  by (simp add: shift_def)

lemma byte_at_gap: "rd (p @ g @ c # t) (length p + length g) = Some c"
  using byte_at_at(1) [of "p @ g" c t] by simp

lemma byte_at_gap2: "rd (p @ g @ c # d # t) (Suc (length p + length g)) = Some d"
  using byte_at_at(2) [of "p @ g" c d t] by simp

lemma store_at_same: "store_at (p @ g @ c # t) (length p) c = Some ((p @ [c]) @ shift g c @ t)"
  by (cases g) (simp_all add: store_at_def shift_def)

lemma oneline_in: "no_nul s \<Longrightarrow> oneline_loop (p @ s @ NUL # junk) (length p) = Some (length p + length s - length (line_rest s))"
proof (induction s arbitrary: p)
  case Nil
  then show ?case by (simp add: oneline_loop.simps [of _ "length p"])
next
  case (Cons c s)
  have "length (line_rest s) \<le> length s" by (rule rest_lengths)
  then show ?case using Cons.prems Cons.IH [of "p @ [c]"]
    by (auto simp: oneline_loop.simps [of _ "length p"])
qed

lemma multiline_in: "no_nul s \<Longrightarrow> multiline_loop (p @ s @ NUL # junk) (length p) = Some (length p + length s - length (block_rest s))"
proof (induction s arbitrary: p rule: block_rest.induct)
  case 1
  then show ?case by (simp add: multiline_loop.simps [of _ "length p"])
next
  case (2 c)
  then show ?case
    using byte_at_at(1) [of "p @ [c]" NUL junk]
    by (simp add: multiline_loop.simps [of _ "length p"] multiline_loop.simps [of _ "Suc (length p)"])
next
  case (3 c d s)
  have "length (block_rest (d # s)) \<le> length (d # s)" by (rule rest_lengths)
  then show ?case using "3.prems" "3.IH" [of "p @ [c]"]
    by (auto simp: multiline_loop.simps [of _ "length p"])
qed

lemma byte_at_shift: "rd ((p @ [c]) @ shift g c @ r) (length p + length g) = Some c"
proof (cases g)
  case (Cons x g')
  then show ?thesis using byte_at_at(1) [of "p @ c # g'" c r] by (simp add: shift_def)
qed (simp add: shift_def)

lemma byte_at_next: "rd ((p @ [c]) @ shift g c @ d # r) (Suc (length p + length g)) = Some d"
  using byte_at_gap [of "p @ [c]" "shift g c" d r] by simp

lemma store_at_again: "store_at ((p @ [c]) @ r) (length p) c = Some ((p @ [c]) @ r)"
  by (simp add: store_at_def)

text \<open>One step of the loop of \<open>minify_string\<close>.\<close>

lemma string_step:
  assumes "c \<noteq> NUL"
  shows "string_loop (p @ g @ c # d # r) (length p + length g) (length p) =
    (if c = CHR 0x22 then Some ((p @ [c]) @ shift g c @ d # r, length p + length g + 1, length p + 1)
     else if c = CHR 0x5C \<and> d = CHR 0x22 then
       string_loop ((p @ [c, d]) @ shift (shift g c) d @ r) (length p + length g + 2) (length p + 2)
     else string_loop ((p @ [c]) @ shift g c @ d # r) (length p + length g + 1) (length p + 1))"
proof -
  have s: "store_at ((p @ [c]) @ shift g c @ d # r) (Suc (length p)) d = Some ((p @ [c, d]) @ shift (shift g c) d @ r)" for c d
    using store_at_same [of "p @ [c]" "shift g c" d r] by simp
  show ?thesis
    unfolding string_loop.simps [of "p @ g @ c # d # r"] byte_at_gap store_at_same option.case
    using assms by (simp add: byte_at_shift [simplified] byte_at_next [simplified] store_at_again [simplified] s [simplified])
qed

lemma string_in:
  "no_nul s \<Longrightarrow> \<exists>g'. length g' = length g \<and>
    string_loop (p @ g @ s @ NUL # junk) (length p + length g) (length p) =
      Some ((p @ fst (literal_end s)) @ g' @ snd (literal_end s) @ NUL # junk,
        length p + length g + length (fst (literal_end s)), length p + length (fst (literal_end s)))"
proof (induction s arbitrary: p g rule: literal_end.induct)
  case 1
  then show ?case by (intro exI [of _ g]) (simp add: string_loop.simps [of "p @ g @ NUL # junk"] byte_at_gap)
next
  case (2 c)
  then show ?case
    using string_step [of c p g NUL junk] byte_at_next [of p c g NUL junk]
    by (intro exI [of _ "shift g c"])
      (simp add: string_loop.simps [of "p @ c # shift g c @ NUL # junk"])
next
  case (3 c d s)
  show ?case
  proof (cases "c = CHR 0x22 \<or> \<not> (c = CHR 0x5C \<and> d = CHR 0x22)")
    case True
    then show ?thesis
      using "3.prems" string_step [of c p g d "s @ NUL # junk"] "3.IH"(2) [of "shift g c" "p @ [c]"]
      by (auto simp: case_prod_unfold)
  next
    case False
    then show ?thesis
      using "3.prems" string_step [of c p g d "s @ NUL # junk"] "3.IH"(1) [of "shift (shift g c) d" "p @ [c, d]"]
      by (auto simp: case_prod_unfold)
  qed
qed

lemma rest_splits: "\<exists>q. s = q @ line_rest s" "\<exists>q. s = q @ block_rest s" "fst (literal_end s) @ snd (literal_end s) = s"
proof -
  show "\<exists>q. s = q @ line_rest s"
    by (induction s) (auto intro: exI [of _ "[_]"] exI [of _ "_ # _"])
  show "\<exists>q. s = q @ block_rest s"
    by (induction s rule: block_rest.induct) (auto, (metis append_Cons)+)
  show "fst (literal_end s) @ snd (literal_end s) = s"
    by (induction s rule: literal_end.induct) (auto split: prod.split)
qed

lemma skip_in:
  assumes "no_nul t"
  shows "skip_oneline_comment (p @ g @ c # d # t @ NUL # junk) (length p + length g) =
      Some (length p + length g + 2 + length t - length (line_rest t))"
    "skip_multiline_comment (p @ g @ c # d # t @ NUL # junk) (length p + length g) =
      Some (length p + length g + 2 + length t - length (block_rest t))"
  using oneline_in [OF assms, of "p @ g @ [c, d]" junk] multiline_in [OF assms, of "p @ g @ [c, d]" junk]
  by (simp_all add: skip_oneline_comment_def skip_multiline_comment_def)

definition minified :: "string \<Rightarrow> string \<Rightarrow> string \<Rightarrow> string \<Rightarrow> bool" where
  "minified p g s junk \<longleftrightarrow> (\<exists>g'. length g' = length g + length s - length (minify s) \<and>
     minify_loop (p @ g @ s @ NUL # junk) (length p + length g) (length p) = Some (p @ minify s @ NUL # g' @ junk))"

lemma minify_step:
  assumes "no_nul (c # s)"
  shows "minify_loop (p @ g @ (c # s) @ NUL # junk) (length p + length g) (length p) =
    (if is_blank c then minify_loop (p @ (g @ [c]) @ s @ NUL # junk) (length p + length (g @ [c])) (length p)
     else if c = CHR ''/'' then
       (case s of
          d # t \<Rightarrow>
            if d = CHR ''/'' then minify_loop (p @ g @ c # d # t @ NUL # junk) (length p + length g + 2 + length t - length (line_rest t)) (length p)
            else if d = CHR ''*'' then minify_loop (p @ g @ c # d # t @ NUL # junk) (length p + length g + 2 + length t - length (block_rest t)) (length p)
            else minify_loop (p @ (g @ [c]) @ s @ NUL # junk) (length p + length (g @ [c])) (length p)
        | [] \<Rightarrow> minify_loop (p @ (g @ [c]) @ s @ NUL # junk) (length p + length (g @ [c])) (length p))
     else if c = CHR 0x22 then
       (case string_loop ((p @ [c]) @ shift g c @ s @ NUL # junk) (length (p @ [c]) + length (shift g c)) (length (p @ [c])) of
          None \<Rightarrow> None | Some (b, json, into) \<Rightarrow> minify_loop b json into)
     else minify_loop ((p @ [c]) @ shift g c @ s @ NUL # junk) (length (p @ [c]) + length (shift g c)) (length (p @ [c])))"
  using assms
  by (cases s)
    (simp_all add: minify_loop.simps [of "p @ g @ c # _"] byte_at_gap byte_at_gap2 skip_in store_at_same minify_string_def)

lemma minified_skip:
  assumes "minified p (g @ q) r junk" "minify s = minify r" "s = q @ r"
    and "minify_loop (p @ g @ s @ NUL # junk) (length p + length g) (length p) =
      minify_loop (p @ (g @ q) @ r @ NUL # junk) (length p + length (g @ q)) (length p)"
  shows "minified p g s junk"
  using assms unfolding minified_def by (simp add: add.assoc [symmetric])

lemma minified_copy:
  assumes "minified (p @ q) g' r junk" "minify s = q @ minify r" "length s = length q + length r" "length g' = length g"
    and "minify_loop (p @ g @ s @ NUL # junk) (length p + length g) (length p) =
      minify_loop ((p @ q) @ g' @ r @ NUL # junk) (length (p @ q) + length g') (length (p @ q))"
  shows "minified p g s junk"
  using assms unfolding minified_def by auto

lemma minified_comment:
  assumes "minified p (g @ c # d # q) r junk" "t = q @ r" "minify (c # d # t) = minify r"
    and "minify_loop (p @ g @ (c # d # t) @ NUL # junk) (length p + length g) (length p) =
      minify_loop (p @ g @ c # d # t @ NUL # junk) (length p + length g + 2 + length t - length r) (length p)"
  shows "minified p g (c # d # t) junk"
  using assms by (intro minified_skip [of p g "c # d # q" r]) simp_all

lemma minify_in: "no_nul s \<Longrightarrow> minified p g s junk"
proof (induction s arbitrary: p g rule: measure_induct_rule [of length])
  case (less s)
  show ?case
  proof (cases s)
    case Nil
    have "minify_loop (p @ g @ NUL # junk) (length p + length g) (length p) = Some (p @ NUL # shift g NUL @ junk)"
      by (simp add: minify_loop.simps [of "p @ g @ _"] byte_at_gap store_at_same)
    then show ?thesis using Nil by (auto simp: minified_def intro!: exI [of _ "shift g NUL"])
  next
    case (Cons c u)
    have n: "no_nul u" "c \<noteq> NUL" using less.prems Cons by simp_all
    note st = minify_step [of c u p g junk]
    show ?thesis
    proof (rule minify_cases [of c u])
      assume c: "is_blank c" "minify (c # u) = minify u"
      show ?thesis
        using less.IH [of u p "g @ [c]"] n c st
        by (intro minified_skip [of p g "[c]" u]) (simp_all add: Cons)
    next
      fix t assume c: "c = CHR ''/''" "u = CHR ''/'' # t" "minify (c # u) = minify (line_rest t)"
      obtain q where q: "t = q @ line_rest t" using rest_splits(1) by blast
      then have "no_nul (line_rest t)" using n c(2) by (metis no_nul_simps(2,3))
      moreover have "length (line_rest t) < length s" using Cons c rest_lengths(1) [of t] by simp
      ultimately show ?thesis
        using less.IH [of "line_rest t" p "g @ c # CHR ''/'' # q"] st n c q
        by (auto simp: Cons is_blank_def intro!: minified_comment [where q = q and r = "line_rest t"])
    next
      fix t assume c: "c = CHR ''/''" "u = CHR ''*'' # t" "minify (c # u) = minify (block_rest t)"
      obtain q where q: "t = q @ block_rest t" using rest_splits(2) by blast
      then have "no_nul (block_rest t)" using n c(2) by (metis no_nul_simps(2,3))
      moreover have "length (block_rest t) < length s" using Cons c rest_lengths(2) [of t] by simp
      ultimately show ?thesis
        using less.IH [of "block_rest t" p "g @ c # CHR ''*'' # q"] st n c q
        by (auto simp: Cons is_blank_def intro!: minified_comment [where q = q and r = "block_rest t"])
    next
      assume c: "c = CHR ''/''" "\<forall>t. u \<noteq> CHR ''/'' # t \<and> u \<noteq> CHR ''*'' # t" "minify (c # u) = minify u"
      show ?thesis
        using less.IH [of u p "g @ [c]"] n c st
        by (intro minified_skip [of p g "[c]" u]) (auto simp: Cons is_blank_def split: list.splits if_splits)
    next
      assume c: "c = CHR 0x22" "minify (c # u) = c # fst (literal_end u) @ minify (snd (literal_end u))"
      obtain g' where g: "length g' = length (shift g c)"
        "string_loop ((p @ [c]) @ shift g c @ u @ NUL # junk) (length (p @ [c]) + length (shift g c)) (length (p @ [c])) =
          Some (((p @ [c]) @ fst (literal_end u)) @ g' @ snd (literal_end u) @ NUL # junk,
            length (p @ [c]) + length (shift g c) + length (fst (literal_end u)), length (p @ [c]) + length (fst (literal_end u)))"
        using string_in [OF n(1), of "shift g c" "p @ [c]" junk] by blast
      have l: "length (fst (literal_end u)) + length (snd (literal_end u)) = length u" by (rule rest_lengths)
      have "no_nul (snd (literal_end u))" using n(1) rest_splits(3) [of u] by (metis no_nul_simps(3))
      then have "minified (p @ c # fst (literal_end u)) g' (snd (literal_end u)) junk"
        using less.IH [of "snd (literal_end u)"] Cons l by simp
      then show ?thesis
        using st n c l g by (intro minified_copy [of p "c # fst (literal_end u)" g' "snd (literal_end u)"])
          (simp_all add: Cons is_blank_def add_ac)
    next
      assume c: "\<not> is_blank c" "c \<noteq> CHR ''/''" "c \<noteq> CHR 0x22" "minify (c # u) = c # minify u"
      show ?thesis
        using less.IH [of u "p @ [c]" "shift g c"] n c st
        by (intro minified_copy [of p "[c]" "shift g c" u]) (simp_all add: Cons)
    qed
  qed
qed

lemma minify_block:
  assumes "no_nul s"
  shows "\<exists>g. cJSON_Minify (Some (s @ NUL # junk)) = Some (Some (minify s @ NUL # g @ junk)) \<and>
    length (minify s @ NUL # g @ junk) = length (s @ NUL # junk)"
proof -
  obtain g where "length g = length s - length (minify s)" "minify_loop (s @ NUL # junk) 0 0 = Some (minify s @ NUL # g @ junk)"
    using minify_in [OF assms, of "[]" "[]" junk] by (auto simp: minified_def)
  then show ?thesis using length_minify [of s] by (auto simp: cJSON_Minify_def)
qed

section \<open>Formatted text\<close>

definition inert :: "char \<Rightarrow> bool" where
  "inert c \<longleftrightarrow> \<not> is_blank c \<and> c \<noteq> CHR ''/'' \<and> c \<noteq> CHR 0x22"

lemma minify_char: "inert c \<Longrightarrow> minify (c # s) = c # minify s" "is_blank c \<Longrightarrow> minify (c # s) = minify s"
  by (simp_all add: inert_def minify.simps(2))

lemma minify_inert: "\<forall>c \<in> set u. inert c \<Longrightarrow> minify (u @ r) = u @ minify r"
  by (induction u) (auto simp: minify_char)

lemma minify_blank: "\<forall>c \<in> set u. is_blank c \<Longrightarrow> minify (u @ r) = minify r"
  by (induction u) (auto simp: minify_char)

lemma inert_digit: "is_digit c \<Longrightarrow> inert c"
  by (auto simp: inert_def is_blank_def is_digit_def)

lemma inert_chars [simp]: "inert CHR ''.''" "inert CHR ''-''" "inert CHR ''+''" "inert CHR ''0''" "inert CHR ''e''"
  "inert CHR ''n''" "inert CHR ''u''" "inert CHR ''l''" "inert CHR ''f''" "inert CHR ''a''" "inert CHR ''s''"
  "inert CHR ''t''" "inert CHR ''r''" "inert CHR ''[''" "inert CHR '']''" "inert CHR ''{''" "inert CHR ''}''"
  "inert CHR '',''" "inert CHR '':''"
  by (simp_all add: inert_def is_blank_def)

lemma inert_show [simp]: "c \<in> set (show_nat n) \<Longrightarrow> inert c" "c \<in> set (show_int i) \<Longrightarrow> inert c" "c \<in> set (show_exp i) \<Longrightarrow> inert c"
  using inert_digit [OF show_nat_digits] by (auto simp: show_int_def show_exp_def split: if_splits)

lemma set_strip0: "c \<in> set (strip0 s) \<Longrightarrow> c \<in> set s"
  unfolding strip0_def by (metis set_dropWhileD set_rev)

lemma inert_point: "(\<forall>c \<in> set ip \<union> set fp. inert c) \<Longrightarrow> c \<in> set (with_point ip fp) \<Longrightarrow> inert c"
  by (auto simp: with_point_def dest: set_strip0 split: if_splits)

lemma inert_fmt_g: "c \<in> set (fmt_g P v) \<Longrightarrow> inert c"
proof -
  define sg where "sg = (case v of Fin s m e \<Rightarrow> if s then ''-'' else [] | _ \<Rightarrow> [])"
  have sg: "c \<in> set sg \<Longrightarrow> inert c" by (cases v) (auto simp: sg_def split: if_splits)
  show "c \<in> set (fmt_g P v) \<Longrightarrow> inert c"
    unfolding fmt_g_def Let_def case_prod_unfold sg_def [symmetric]
    by (auto split: if_splits intro: sg elim!: inert_point [rotated] dest: in_set_takeD in_set_dropD)
qed

lemma inert_number: "number_text d i = Some s \<Longrightarrow> c \<in> set s \<Longrightarrow> inert c"
  by (auto simp: number_text_def sprintf26_def Let_def case_prod_unfold split: if_splits dest: inert_fmt_g)

section \<open>String literals\<close>

lemma literal_char:
  "x \<noteq> [] \<Longrightarrow> c \<noteq> CHR 0x22 \<Longrightarrow> c \<noteq> CHR 0x5C \<or> hd x \<noteq> CHR 0x22 \<Longrightarrow>
    literal_end (c # x) = (c # fst (literal_end x), snd (literal_end x))"
  by (cases x) (auto split: prod.split)

lemma literal_plain:
  "x \<noteq> [] \<Longrightarrow> \<forall>c \<in> set u. c \<noteq> CHR 0x22 \<and> c \<noteq> CHR 0x5C \<Longrightarrow>
    literal_end (u @ x) = (u @ fst (literal_end x), snd (literal_end x))"
  by (induction u) (auto simp: literal_char simp del: literal_end.simps)

lemma literal_esc_char:
  assumes "x \<noteq> []" "c = CHR 0x5C \<Longrightarrow> hd x \<noteq> CHR 0x22"
  shows "literal_end (esc_char c @ x) = (esc_char c @ fst (literal_end x), snd (literal_end x))"
  using esc_char_cases [of c]
proof (elim disjE exE conjE)
  assume "esc_char c = [c]" "c \<noteq> CHR 0x22" "c \<noteq> CHR 0x5C"
  then show ?thesis using assms(1) by (simp add: literal_char)
next
  fix e assume e: "esc_char c = [CHR 0x5C, e]" "simple_escape e = Some c"
  show ?thesis
  proof (cases "e = CHR 0x22")
    case True
    then show ?thesis using e by (simp add: case_prod_unfold)
  next
    case False
    have "literal_end (e # x) = (e # fst (literal_end x), snd (literal_end x))"
      using assms False e(2) by (intro literal_char) (auto simp: simple_escape_def)
    then show ?thesis using False e(1) by (simp add: literal_char del: literal_end.simps)
  qed
next
  assume e: "esc_char c = [CHR 0x5C, CHR ''u''] @ hex4_text (byte c)" "byte c < 32"
  obtain x1 x2 x3 x4 where h: "hex4_text (byte c) = [x1, x2, x3, x4]"
      "\<forall>x \<in> {x1, x2, x3, x4}. x \<noteq> CHR 0x22 \<and> x \<noteq> CHR 0x5C"
    unfolding hex4_text_def using hex_char_plain by auto
  have "literal_end ((CHR ''u'' # hex4_text (byte c)) @ x) =
      ((CHR ''u'' # hex4_text (byte c)) @ fst (literal_end x), snd (literal_end x))"
    using assms(1) h by (intro literal_plain) auto
  then show ?thesis using e(1) by (simp add: literal_char del: literal_end.simps)
qed

lemma hd_escape: "s \<noteq> [] \<Longrightarrow> escape s @ x \<noteq> [] \<and> hd (escape s @ x) \<noteq> CHR 0x22"
  using esc_char_cases [of "hd s"] by (cases s) (auto simp: escape_def)

lemma literal_escape:
  "s = [] \<or> last s \<noteq> CHR 0x5C \<Longrightarrow> literal_end (escape s @ CHR 0x22 # r) = (escape s @ [CHR 0x22], r)"
proof (induction s)
  case Nil
  then show ?case by (cases r) (simp_all add: escape_def)
next
  case (Cons c s)
  have x: "escape s @ CHR 0x22 # r \<noteq> []" "c = CHR 0x5C \<Longrightarrow> hd (escape s @ CHR 0x22 # r) \<noteq> CHR 0x22"
    using Cons.prems hd_escape [of s "CHR 0x22 # r"] by (auto split: if_splits)
  have "literal_end (escape s @ CHR 0x22 # r) = (escape s @ [CHR 0x22], r)"
    using Cons.prems by (intro Cons.IH) auto
  then show ?case using literal_esc_char [OF x] by (simp add: escape_def)
qed

text \<open>A text whose literal \<open>cJSON_Minify\<close> understands: it does not end with a backslash.\<close>

definition closes :: "string option \<Rightarrow> bool" where
  "closes s \<longleftrightarrow> text_of s = [] \<or> last (text_of s) \<noteq> CHR 0x5C"

lemma minify_quoted: "closes s \<Longrightarrow> minify (quoted s @ r) = quoted s @ minify r"
  using literal_escape [of "text_of s" r]
  by (simp add: quoted_Cons closes_def minify.simps(2) is_blank_def)

fun tidy :: "CJSON \<Rightarrow> bool" where
  "tidy (CJSON n ch) \<longleftrightarrow>
     (let t = jtype n AND 0xFF in
      t \<noteq> cJSON_Raw \<and> (t = cJSON_String \<longrightarrow> closes (valuestring n)) \<and>
      (t = cJSON_Array \<or> t = cJSON_Object \<longrightarrow> (\<forall>c \<in> set ch. tidy c)) \<and>
      (t = cJSON_Object \<longrightarrow> (\<forall>c \<in> set ch. closes (jstring (info c)))))"

text \<open>Formatted text \<open>s\<close> that is minified to \<open>u\<close>, whatever follows it.\<close>

definition shrinks :: "string \<Rightarrow> string \<Rightarrow> bool" where
  "shrinks s u \<longleftrightarrow> (\<forall>r. minify (s @ r) = u @ minify r)"

lemma shrinks_append: "shrinks s u \<Longrightarrow> shrinks s' u' \<Longrightarrow> shrinks (s @ s') (u @ u')"
  by (simp add: shrinks_def)

lemma shrinks_inert: "\<forall>c \<in> set u. inert c \<Longrightarrow> shrinks u u"
  by (simp add: shrinks_def minify_inert)

lemma shrinks_blank: "\<forall>c \<in> set u. is_blank c \<Longrightarrow> shrinks u []"
  by (simp add: shrinks_def minify_blank)

lemma shrinks_parts:
  "shrinks (tabs k) []" "shrinks (elem_sep True) (elem_sep False)" "shrinks (key_sep True) (key_sep False)"
  "shrinks (member_sep True m) (member_sep False m)" "shrinks [CHR 0x0A] []"
  "closes s \<Longrightarrow> shrinks (quoted s) (quoted s)"
  by (auto simp: shrinks_def tabs_def elem_sep_def key_sep_def member_sep_def is_blank_def minify_quoted
      minify_char minify_blank)

definition same_text :: "CJSON \<Rightarrow> bool" where
  "same_text c \<longleftrightarrow> (\<forall>d s. render True d c = Some s \<longrightarrow> (\<forall>k. \<exists>u. render False k c = Some u \<and> shrinks s u))"

lemma shrinks_elems:
  "\<forall>c \<in> set cs. same_text c \<Longrightarrow> render_elems True d cs = Some s \<Longrightarrow>
    \<exists>u. render_elems False k cs = Some u \<and> shrinks s u"
proof (induction cs arbitrary: s)
  case Nil
  then show ?case by (auto simp: render_elems.simps shrinks_def)
next
  case (Cons c cs)
  obtain a b where a: "render True d c = Some a" "render_elems True d cs = Some b"
      "s = a @ (if cs \<noteq> [] then elem_sep True else []) @ b"
    using Cons.prems(2) by (auto simp: render_elems.simps split: option.splits)
  obtain a' where "render False k c = Some a'" "shrinks a a'" using Cons.prems(1) a(1) unfolding same_text_def by fastforce
  moreover obtain b' where "render_elems False k cs = Some b'" "shrinks b b'" using Cons a(2) by auto
  ultimately show ?case using a(3)
    by (auto simp: render_elems.simps intro!: shrinks_append shrinks_parts)
qed

lemma shrinks_members:
  "\<forall>c \<in> set cs. same_text c \<and> closes (jstring (info c)) \<Longrightarrow> render_members True d cs = Some s \<Longrightarrow>
    \<exists>u. render_members False k cs = Some u \<and> shrinks s u"
proof (induction cs arbitrary: s)
  case Nil
  then show ?case by (auto simp: render_members.simps shrinks_def)
next
  case (Cons c cs)
  obtain a b where a: "render True d c = Some a" "render_members True d cs = Some b"
      "s = tabs d @ quoted (jstring (info c)) @ key_sep True @ a @ member_sep True (cs \<noteq> []) @ b"
    using Cons.prems(2) by (auto simp: render_members.simps split: option.splits)
  obtain a' where a': "render False k c = Some a'" "shrinks a a'" using Cons.prems(1) a(1) unfolding same_text_def by fastforce
  obtain b' where b': "render_members False k cs = Some b'" "shrinks b b'" using Cons a(2) by auto
  have "shrinks s ([] @ quoted (jstring (info c)) @ key_sep False @ a' @ member_sep False (cs \<noteq> []) @ b')"
    unfolding a(3) using a' b' Cons.prems(1) by (intro shrinks_append shrinks_parts) auto
  then show ?case using a' b' by (simp add: render_members.simps)
qed

lemma tidy_shrinks: "tidy t \<Longrightarrow> same_text t"
proof (induction t)
  case (CJSON n ch)
  define t where "t = jtype n AND 0xFF"
  have kids: "\<forall>c \<in> set ch. same_text c" if "t = cJSON_Array \<or> t = cJSON_Object"
    using CJSON that by (auto simp: t_def Let_def)
  show ?case
    unfolding same_text_def
  proof (intro allI impI)
    fix d s k assume r: "render True d (CJSON n ch) = Some s"
    consider "t \<in> {cJSON_NULL, cJSON_False, cJSON_True, cJSON_Number}" | "t = cJSON_String" | "t = cJSON_Array" | "t = cJSON_Object"
      using r CJSON.prems by (auto simp: render.simps t_def [symmetric] Let_def split: if_splits)
    then show "\<exists>u. render False k (CJSON n ch) = Some u \<and> shrinks s u"
    proof cases
      case 1
      then show ?thesis using r inert_number
        by (intro exI [of _ s]) (auto simp: render.simps t_def [symmetric] Let_def json_types intro!: shrinks_inert)
    next
      case 2
      then show ?thesis using r CJSON.prems
        by (auto simp: render.simps t_def [symmetric] Let_def json_types intro: shrinks_parts)
    next
      case 3
      then obtain a where "render_elems True (d + 1) ch = Some a" "s = ''['' @ a @ '']''"
        using r by (auto simp: render.simps t_def [symmetric] Let_def json_types)
      moreover from this obtain u where "render_elems False (k + 1) ch = Some u" "shrinks a u"
        using kids 3 shrinks_elems by blast
      moreover from this have "shrinks (''['' @ a @ '']'') (''['' @ u @ '']'')"
        by (intro shrinks_append shrinks_inert) auto
      ultimately show ?thesis using 3 by (simp add: render.simps t_def [symmetric] Let_def json_types)
    next
      case 4
      then obtain a where "render_members True (d + 1) ch = Some a" "s = ''{'' @ [CHR 0x0A] @ a @ tabs d @ ''}''"
        using r by (auto simp: render.simps t_def [symmetric] Let_def json_types)
      moreover from this obtain u where "render_members False (k + 1) ch = Some u" "shrinks a u"
        using kids 4 shrinks_members [of ch "d + 1" a "k + 1"] CJSON.prems by (auto simp: t_def [symmetric] Let_def)
      moreover from this have "shrinks (''{'' @ [CHR 0x0A] @ a @ tabs d @ ''}'') (''{'' @ [] @ u @ [] @ ''}'')"
        by (intro shrinks_append shrinks_inert shrinks_parts) auto
      ultimately show ?thesis using 4 by (simp add: render.simps t_def [symmetric] Let_def json_types)
    qed
  qed
qed

section \<open>Properties\<close>

text \<open>
  C37: \<open>cJSON_Minify\<close> works in place: on a block that holds a NUL-terminated text it comes to
  its end, reads and writes nothing behind the NUL, and leaves exactly the minified text in
  front, whatever blanks, comments and unfinished literals there are.
\<close>

theorem minify_in_place:
  assumes "no_nul s"
  shows "\<exists>g. cJSON_Minify (Some (s @ NUL # junk)) = Some (Some (minify s @ NUL # g @ junk)) \<and>
    length (minify s @ NUL # g @ junk) = length (s @ NUL # junk)"
  using assms by (rule minify_block)

theorem minify_in_place_witness:
  "\<exists>g. cJSON_Minify (Some (''[1, /* two */ 2] // end'' @ NUL # ''junk'')) = Some (Some (''[1,2]'' @ NUL # g @ ''junk'')) \<and>
    length (''[1,2]'' @ NUL # g @ ''junk'') = length (''[1, /* two */ 2] // end'' @ NUL # ''junk'')"
proof -
  have "minify ''[1, /* two */ 2] // end'' = ''[1,2]''" by code_simp
  then show ?thesis using minify_in_place [of "''[1, /* two */ 2] // end''" "''junk''"] by simp
qed

text \<open>
  C7: minifying is the inverse of formatting: the formatted text of a tree is minified, in
  its own block, to the text \<open>cJSON_PrintUnformatted\<close> gives for the tree. The tree has no raw
  item and no text or name that ends with a backslash.
\<close>

theorem minify_undoes_formatting:
  assumes v: "valid_json t" "tidy t" and f: "cJSON_Print (Some t) h = Text (Some out) h'"
    and p: "cJSON_PrintUnformatted (Some t) k = Text (Some flat) k'"
  shows "\<exists>res. cJSON_Minify (Some out) = Some (Some res) \<and> cstr res = cstr flat \<and> length res = length out"
proof -
  have "print_outcome True t h (Text (Some out) h')" "print_outcome False t k (Text (Some flat) k')"
    using print_text [OF v(1), of True h] print_text [OF v(1), of False k] f p
    by (simp_all add: cJSON_Print_def cJSON_PrintUnformatted_def)
  then obtain s u where s: "render True 0 t = Some s" "take (length s + 1) out = s @ [NUL]"
    and u: "render False 0 t = Some u" "take (length u + 1) flat = u @ [NUL]"
    by (auto simp: print_outcome_def split: option.splits)
  have "minify s = u"
    using tidy_shrinks [OF v(2)] s(1) u(1) unfolding same_text_def shrinks_def by (metis append_Nil2 minify_Nil option.inject)
  moreover have "no_nul s" "no_nul u" using no_nul_render [OF v(1)] s(1) u(1) by blast+
  moreover have "out = s @ NUL # drop (length s + 1) out" "flat = u @ NUL # drop (length u + 1) flat"
    using s(2) u(2) by (metis append_Cons append_Nil append_assoc append_take_drop_id)+
  moreover obtain g where "cJSON_Minify (Some (s @ NUL # drop (length s + 1) out)) =
      Some (Some (minify s @ NUL # g @ drop (length s + 1) out))"
    "length (minify s @ NUL # g @ drop (length s + 1) out) = length (s @ NUL # drop (length s + 1) out)"
    using minify_block [OF \<open>no_nul s\<close>] by blast
  ultimately show ?thesis by (metis cstr_no_nul)
qed

lemma sample_tree_tidy: "tidy sample_tree"
  by (simp add: sample_tree_def json_types node0_def closes_def text_of_def cstr_def)

theorem minify_undoes_formatting_witness:
  "\<exists>out h flat k res. cJSON_Print (Some sample_tree) example_hooks = Text (Some out) h \<and>
     cJSON_PrintUnformatted (Some sample_tree) example_hooks = Text (Some flat) k \<and>
     cJSON_Minify (Some out) = Some (Some res) \<and> cstr res = cstr flat"
proof -
  obtain out h where out: "cJSON_Print (Some sample_tree) example_hooks = Text (Some out) h"
    using sample_tree_prints unfolding cJSON_Print_def by blast
  obtain flat k where flat: "cJSON_PrintUnformatted (Some sample_tree) example_hooks = Text (Some flat) k"
    using sample_tree_prints unfolding cJSON_PrintUnformatted_def by blast
  show ?thesis
    using minify_undoes_formatting [OF sample_tree_valid sample_tree_tidy out flat] out flat by blast
qed

lemma minify_words: "\<forall>c \<in> set v. c \<noteq> CHR 0x22 \<and> c \<noteq> CHR ''/'' \<Longrightarrow> minify (v @ r) = filter (\<lambda>c. \<not> is_blank c) v @ minify r"
  by (induction v) (auto simp: minify_char inert_def)

lemma escape_visible: "\<forall>c \<in> set v. 31 < byte c \<and> c \<noteq> CHR 0x22 \<and> c \<noteq> CHR 0x5C \<Longrightarrow> escape v = v"
  by (induction v) (simp_all add: escape_def esc_char_def)

text \<open>
  C38: a text that ends with a backslash is mistaken: behind its escaped backslash the closing
  quote counts as escaped, so that the literal ends where the next one starts, and the blanks
  of that next text are removed as if they stood outside of a literal.
\<close>

theorem minify_changes_text:
  assumes "\<forall>c \<in> set v. 31 < byte c \<and> c \<noteq> CHR 0x22 \<and> c \<noteq> CHR 0x5C \<and> c \<noteq> CHR ''/''"
  shows "\<exists>g. cJSON_Minify (Some (''{'' @ quoted (Some [CHR 0x5C]) @ '': '' @ quoted (Some v) @ ''}'' @ [NUL])) =
    Some (Some (''{'' @ quoted (Some [CHR 0x5C]) @ '': '' @ quoted (Some (filter (\<lambda>c. \<not> is_blank c) v)) @ ''}'' @ NUL # g))"
proof -
  define w where "w = filter (\<lambda>c. \<not> is_blank c) v"
  have n: "c \<noteq> NUL" if "c \<in> set v" for c
    using assms that by fastforce
  then have "NUL \<notin> set v" "NUL \<notin> set w" unfolding w_def by auto
  then have "no_nul v" "no_nul w" unfolding no_nul_def .
  then have c: "cstr v = v" "cstr w = w" by (simp_all only: cstr_id)
  have q: "quoted (Some v) = CHR 0x22 # v @ [CHR 0x22]" "quoted (Some w) = CHR 0x22 # w @ [CHR 0x22]"
    using assms c escape_visible [of v] escape_visible [of w] by (simp_all add: quoted_def) (simp add: w_def)
  have b: "quoted (Some [CHR 0x5C]) = [CHR 0x22, CHR 0x5C, CHR 0x5C, CHR 0x22]" by code_simp
  let ?s = "''{'' @ quoted (Some [CHR 0x5C]) @ '': '' @ quoted (Some v) @ ''}''"
  have "no_nul ?s" by simp
  then obtain g where "cJSON_Minify (Some (?s @ [NUL])) = Some (Some (minify ?s @ NUL # g @ []))"
    using minify_block [of ?s "[]"] by blast
  moreover have "minify ?s = ''{'' @ quoted (Some [CHR 0x5C]) @ '': '' @ quoted (Some w) @ ''}''"
  proof -
    have "literal_end (CHR 0x5C # CHR 0x5C # CHR 0x22 # '': '' @ CHR 0x22 # v @ CHR 0x22 # ''}'') =
        (CHR 0x5C # CHR 0x5C # CHR 0x22 # '': '' @ [CHR 0x22], v @ CHR 0x22 # ''}'')"
      by (cases v) (simp_all add: case_prod_unfold)
    moreover have "minify (v @ CHR 0x22 # ''}'') = w @ CHR 0x22 # ''}''"
      using assms by (simp add: minify_words w_def minify.simps(2) is_blank_def)
    ultimately show ?thesis unfolding q b by (simp add: minify.simps(2) is_blank_def)
  qed
  ultimately show ?thesis by (intro exI [of _ g]) (simp add: w_def)
qed

theorem minify_changes_text_witness:
  "\<exists>g. cJSON_Minify (Some (''{'' @ quoted (Some [CHR 0x5C]) @ '': '' @ quoted (Some ''a b'') @ ''}'' @ [NUL])) =
    Some (Some (''{'' @ quoted (Some [CHR 0x5C]) @ '': '' @ quoted (Some ''ab'') @ ''}'' @ NUL # g))"
  using minify_changes_text [of "''a b''"] by (simp add: is_blank_def)

end
