(* ===== verification/JCopy.thy ===== *)
theory JCopy
  imports JTree
begin

text \<open>
  Copying trees (\<^verbatim>\<open>cJSON.c\<close>): \<open>cJSON_Duplicate\<close> with every allocation that may
  fail and its depth limit.
\<close>

section \<open>Duplication\<close>

text \<open>A text field: shared, copied, or \<open>None\<close> when there is no memory for the copy.\<close>

definition copy_text :: "bool \<Rightarrow> string option \<Rightarrow> hooks \<Rightarrow> string option option \<times> hooks" where
  "copy_text share s h =
     (if s = None \<or> share then (Some s, h)
      else case cJSON_strdup s h of (None, h) \<Rightarrow> (None, h) | (Some c, h) \<Rightarrow> (Some (Some c), h))"

definition copy_scalars :: "node \<Rightarrow> node \<Rightarrow> node" where
  "copy_scalars n new = new\<lparr>jtype := jtype n AND NOT cJSON_IsReference, valueint := valueint n,
     valuedouble := valuedouble n\<rparr>"

text \<open>The loop hands back whether it came to its end, and the copies linked so far.\<close>

fun cJSON_Duplicate_rec :: "CJSON \<Rightarrow> nat \<Rightarrow> bool \<Rightarrow> hooks \<Rightarrow> CJSON option \<times> hooks"
  and duplicate_loop :: "CJSON list \<Rightarrow> nat \<Rightarrow> CJSON list \<Rightarrow> hooks \<Rightarrow> bool \<times> CJSON list \<times> hooks" where
  "cJSON_Duplicate_rec (CJSON n ch) level recurse h =
     (case cJSON_New_Item h of
        (None, h) \<Rightarrow> (None, h)
      | (Some new, h) \<Rightarrow>
          let x = copy_scalars n (info new) in
          case copy_text False (valuestring n) h of
            (None, h) \<Rightarrow> (None, cJSON_Delete [CJSON x []] h)
          | (Some vs, h) \<Rightarrow>
              let x = x\<lparr>valuestring := vs\<rparr> in
              case copy_text (has_const_key n) (jstring n) h of
                (None, h) \<Rightarrow> (None, cJSON_Delete [CJSON x []] h)
              | (Some key, h) \<Rightarrow>
                  let x = x\<lparr>jstring := key\<rparr> in
                  if \<not> recurse then (Some (CJSON x []), h)
                  else case duplicate_loop ch level [] h of
                      (ok, copies, h) \<Rightarrow>
                        if ok then (Some (CJSON x copies), h)
                        else (None, cJSON_Delete [CJSON x copies] h))"
| "duplicate_loop [] level copies h = (True, copies, h)"
| "duplicate_loop (c # cs) level copies h =
     (if CJSON_CIRCULAR_LIMIT \<le> level then (False, copies, h)
      else case cJSON_Duplicate_rec c (level + 1) True h of
          (None, h) \<Rightarrow> (False, copies, h)
        | (Some new, h) \<Rightarrow> duplicate_loop cs level (copies @ [new]) h)"

definition cJSON_Duplicate :: "CJSON option \<Rightarrow> bool \<Rightarrow> hooks \<Rightarrow> CJSON option \<times> hooks" where
  "cJSON_Duplicate item recurse h =
     (case item of None \<Rightarrow> (None, h) | Some it \<Rightarrow> cJSON_Duplicate_rec it 0 recurse h)"

text \<open>What a copy is: texts end at their first NUL, nothing is a reference, constant names are shared.\<close>

definition copy_node :: "node \<Rightarrow> node" where
  "copy_node n = n\<lparr>jtype := jtype n AND NOT cJSON_IsReference, valuestring := map_option cstr (valuestring n),
     jstring := (if has_const_key n then jstring n else map_option cstr (jstring n))\<rparr>"

fun copy_tree :: "CJSON \<Rightarrow> CJSON" where
  "copy_tree (CJSON n ch) = CJSON (copy_node n) (map copy_tree ch)"

fun levels :: "CJSON \<Rightarrow> nat" where
  "levels (CJSON n ch) = foldr (\<lambda>c m. max (Suc (levels c)) m) ch 0"

definition copied :: "bool \<Rightarrow> CJSON \<Rightarrow> CJSON" where
  "copied recurse t = (if recurse then copy_tree t else CJSON (copy_node (info t)) [])"

lemma copy_flags [simp]:
  "(w AND NOT cJSON_IsReference) AND cJSON_IsReference = (0 :: int32)"
  "(w AND NOT cJSON_IsReference) AND cJSON_StringIsConst = w AND cJSON_StringIsConst"
  "(w AND NOT cJSON_IsReference) AND 0xFF = w AND 0xFF"
proof -
  have a: "NOT (0x100 :: int32) AND 0x100 = 0" "NOT (0x100 :: int32) AND 0x200 = 0x200"
    "NOT (0x100 :: int32) AND 0xFF = 0xFF" by simp_all
  show "(w AND NOT cJSON_IsReference) AND cJSON_IsReference = 0"
    unfolding and.assoc json_types a by simp
  show "(w AND NOT cJSON_IsReference) AND cJSON_StringIsConst = w AND cJSON_StringIsConst"
    "(w AND NOT cJSON_IsReference) AND 0xFF = w AND 0xFF"
    unfolding and.assoc json_types a by (rule refl)+
qed

lemma copy_owner [simp]: "\<not> is_reference (copy_scalars n m)" "has_const_key (copy_scalars n m) = has_const_key n"
  "valuestring (copy_scalars n m) = valuestring m" "jstring (copy_scalars n m) = jstring m"
  by (simp_all add: copy_scalars_def is_reference_def has_const_key_def)

lemma flags_update [simp]: "is_reference (x\<lparr>valuestring := v\<rparr>) = is_reference x" "is_reference (x\<lparr>jstring := v\<rparr>) = is_reference x"
  "has_const_key (x\<lparr>valuestring := v\<rparr>) = has_const_key x" "has_const_key (x\<lparr>jstring := v\<rparr>) = has_const_key x"
  by (simp_all add: is_reference_def has_const_key_def)

text \<open>One operation over the hooks: what it may change, and what it needs.\<close>

definition same_memory :: "hooks \<Rightarrow> hooks \<Rightarrow> int \<Rightarrow> bool" where
  "same_memory h h' k \<longleftrightarrow> avail h' = avail h \<and> live h' = live h + k \<and> calls h \<le> calls h'"

definition starved :: "hooks \<Rightarrow> hooks \<Rightarrow> bool" where
  "starved h h' \<longleftrightarrow> (\<exists>k. calls h \<le> k \<and> k < calls h' \<and> \<not> avail h k)"

lemma copy_text_cases:
  obtains h' where "copy_text share s h = (None, h')" "same_memory h h' 0" "starved h h'"
  | h' where "copy_text share s h = (Some (if share then s else map_option cstr s), h')"
      "same_memory h h' (if share \<or> s = None then 0 else 1)"
proof (cases "s = None \<or> share")
  case True
  then show thesis using that(2) [of h] by (auto simp: copy_text_def same_memory_def)
next
  case False
  then obtain t where s: "s = Some t" "\<not> share" by auto
  show thesis
  proof (cases "avail h (calls h)")
    case True
    then show thesis using s that(2) by (auto simp: copy_text_def cJSON_strdup_def allocate_def same_memory_def starved_def)
  next
    case False
    then show thesis using s that(1) by (auto simp: copy_text_def cJSON_strdup_def allocate_def same_memory_def starved_def)
  qed
qed

lemma new_item_cases:
  obtains h' where "cJSON_New_Item h = (None, h')" "same_memory h h' 0" "starved h h'"
  | h' where "cJSON_New_Item h = (Some (CJSON node0 []), h')" "same_memory h h' 1"
  by (cases "avail h (calls h)") (auto simp: cJSON_New_Item_def allocate_def same_memory_def starved_def)

lemma starved_later: "same_memory h h1 j \<Longrightarrow> same_memory h1 h2 k \<Longrightarrow> starved h1 h2 \<Longrightarrow> starved h h2"
  by (auto simp: starved_def same_memory_def) (meson order_trans)

lemma starved_before: "same_memory h1 h2 k \<Longrightarrow> starved h h1 \<Longrightarrow> starved h h2"
  by (auto simp: starved_def same_memory_def)

lemma same_memory_trans: "same_memory h h1 j \<Longrightarrow> same_memory h1 h2 k \<Longrightarrow> same_memory h h2 (j + k)"
  by (simp add: same_memory_def)

lemma levels_bound: "ch \<noteq> [] \<Longrightarrow> l + levels (CJSON n ch) \<le> m \<longleftrightarrow> (\<forall>c \<in> set ch. l + Suc (levels c) \<le> m)"
proof -
  have "l + foldr (\<lambda>c m. max (Suc (levels c)) m) ch 0 \<le> m \<longleftrightarrow> (\<forall>c \<in> set ch. l + Suc (levels c) \<le> m) \<and> l \<le> m"
    by (induction ch) auto
  then show "ch \<noteq> [] \<Longrightarrow> ?thesis" by (cases ch) auto
qed

lemma levels_zero: "levels (CJSON n ch) = 0 \<longleftrightarrow> ch = []"
  by (cases ch) auto

declare levels.simps [simp del]

definition too_deep :: "nat \<Rightarrow> CJSON \<Rightarrow> bool" where
  "too_deep l t \<longleftrightarrow> levels t \<noteq> 0 \<and> CJSON_CIRCULAR_LIMIT < l + levels t"

lemma too_deep_kids: "too_deep l (CJSON n ch) \<longleftrightarrow> (\<exists>c \<in> set ch. CJSON_CIRCULAR_LIMIT \<le> l \<or> too_deep (l + 1) c)"
proof (cases "ch = []")
  case False
  have "CJSON_CIRCULAR_LIMIT \<le> l \<or> too_deep (l + 1) c \<longleftrightarrow> \<not> l + Suc (levels c) \<le> CJSON_CIRCULAR_LIMIT" for c
    unfolding too_deep_def by linarith
  then have "(\<exists>c \<in> set ch. CJSON_CIRCULAR_LIMIT \<le> l \<or> too_deep (l + 1) c) \<longleftrightarrow>
      \<not> (\<forall>c \<in> set ch. l + Suc (levels c) \<le> CJSON_CIRCULAR_LIMIT)"
    by blast
  then show ?thesis using False levels_bound [OF False, of l n CJSON_CIRCULAR_LIMIT]
    by (metis levels_zero not_le too_deep_def)
qed (simp add: too_deep_def levels_zero)

definition rec_good :: "CJSON \<Rightarrow> nat \<Rightarrow> bool \<Rightarrow> hooks \<Rightarrow> CJSON option \<times> hooks \<Rightarrow> bool" where
  "rec_good t l r h res \<longleftrightarrow>
     same_memory h (snd res) (int (opt_blocks (fst res))) \<and>
     (case fst res of
        None \<Rightarrow> starved h (snd res) \<or> r \<and> too_deep l t
      | Some c \<Rightarrow> c = copied r t \<and> \<not> (r \<and> too_deep l t))"

definition loop_good :: "CJSON list \<Rightarrow> nat \<Rightarrow> CJSON list \<Rightarrow> hooks \<Rightarrow> bool \<times> CJSON list \<times> hooks \<Rightarrow> bool" where
  "loop_good cs l copies h res \<longleftrightarrow>
     (\<exists>new. fst (snd res) = copies @ new \<and> same_memory h (snd (snd res)) (int (blocks_list new)) \<and>
       (if fst res then new = map copy_tree cs \<and> (\<forall>c \<in> set cs. l < CJSON_CIRCULAR_LIMIT \<and> \<not> too_deep (l + 1) c)
        else starved h (snd (snd res)) \<or> (\<exists>c \<in> set cs. CJSON_CIRCULAR_LIMIT \<le> l \<or> too_deep (l + 1) c)))"

lemma loop_good_Cons:
  assumes "CJSON_CIRCULAR_LIMIT > l" and c: "rec_good c (l + 1) True h (cJSON_Duplicate_rec c (l + 1) True h)"
    and cs: "\<And>new h1. cJSON_Duplicate_rec c (l + 1) True h = (Some new, h1) \<Longrightarrow> loop_good cs l (copies @ [new]) h1 (duplicate_loop cs l (copies @ [new]) h1)"
  shows "loop_good (c # cs) l copies h (duplicate_loop (c # cs) l copies h)"
proof (cases "cJSON_Duplicate_rec c (l + 1) True h")
  case (Pair r h1)
  show ?thesis
  proof (cases r)
    case None
    then show ?thesis using Pair assms(1) c by (auto simp: loop_good_def rec_good_def opt_blocks_def)
  next
    case (Some new)
    obtain ok cs' h2 where d: "duplicate_loop cs l (copies @ [new]) h1 = (ok, cs', h2)" by (cases "duplicate_loop cs l (copies @ [new]) h1")
    obtain more where m: "cs' = copies @ [new] @ more" "same_memory h1 h2 (int (blocks_list more))"
      "if ok then more = map copy_tree cs \<and> (\<forall>c \<in> set cs. l < CJSON_CIRCULAR_LIMIT \<and> \<not> too_deep (l + 1) c)
        else starved h1 h2 \<or> (\<exists>c \<in> set cs. CJSON_CIRCULAR_LIMIT \<le> l \<or> too_deep (l + 1) c)"
      using cs [of new h1] d Pair Some by (auto simp: loop_good_def cong: if_cong)
    have "same_memory h h1 (int (blocks new)) \<and> new = copy_tree c \<and> \<not> too_deep (l + 1) c"
      using c Pair Some by (auto simp: rec_good_def opt_blocks_def copied_def)
    moreover from this have "same_memory h h2 (int (blocks_list (new # more)))"
      using same_memory_trans m(2) by fastforce
    ultimately show ?thesis using Pair Some d m assms(1)
      by (auto simp: loop_good_def same_memory_def starved_def intro!: exI [of _ "new # more"] split: if_splits)
  qed
qed

lemma duplicate_good:
  "rec_good t l r h (cJSON_Duplicate_rec t l r h)"
  "loop_good cs l copies h (duplicate_loop cs l copies h)"
proof (induction t l r h and cs l copies h rule: cJSON_Duplicate_rec_duplicate_loop.induct)
  case (1 n ch l r h)
  define x where "x = copy_scalars n node0"
  define vs where "vs = map_option cstr (valuestring n)"
  define key where "key = (if has_const_key n then jstring n else map_option cstr (jstring n))"
  have x: "\<not> is_reference x" "has_const_key x = has_const_key n" "valuestring x = None" "jstring x = None"
    by (simp_all add: x_def)
  have cn: "copy_node n = x\<lparr>valuestring := vs, jstring := key\<rparr>"
    by (simp add: x_def vs_def key_def copy_node_def copy_scalars_def node0_def)
  show ?case
  proof (rule new_item_cases [of h])
    fix h1 assume a: "cJSON_New_Item h = (None, h1)" "same_memory h h1 0" "starved h h1"
    then show ?thesis by (simp add: rec_good_def opt_blocks_def)
  next
    fix h1 assume a: "cJSON_New_Item h = (Some (CJSON node0 []), h1)" "same_memory h h1 1"
    show ?thesis
    proof (rule copy_text_cases [of False "valuestring n" h1])
      fix h2 assume b: "copy_text False (valuestring n) h1 = (None, h2)" "same_memory h1 h2 0" "starved h1 h2"
      then show ?thesis using a x
        by (auto simp: rec_good_def opt_blocks_def x_def [symmetric] same_memory_def starved_def node_blocks_def)
    next
      fix h2 assume "copy_text False (valuestring n) h1 = (Some (if False then valuestring n else map_option cstr (valuestring n)), h2)"
        "same_memory h1 h2 (if False \<or> valuestring n = None then 0 else 1)"
      then have b: "copy_text False (valuestring n) h1 = (Some vs, h2)"
        "same_memory h1 h2 (if vs = None then 0 else 1)" by (simp_all add: vs_def)
      note good = 1 [OF a(1) [symmetric] refl, simplified, folded x_def, OF refl b(1) [symmetric] refl refl]
      show ?thesis
      proof (rule copy_text_cases [of "has_const_key n" "jstring n" h2])
        fix h3 assume c: "copy_text (has_const_key n) (jstring n) h2 = (None, h3)" "same_memory h2 h3 0" "starved h2 h3"
        then show ?thesis using a b x
          by (auto simp: rec_good_def opt_blocks_def x_def [symmetric] same_memory_def starved_def node_blocks_def)
      next
        fix h3 assume "copy_text (has_const_key n) (jstring n) h2 = (Some (if has_const_key n then jstring n else map_option cstr (jstring n)), h3)"
          "same_memory h2 h3 (if has_const_key n \<or> jstring n = None then 0 else 1)"
        then have c: "copy_text (has_const_key n) (jstring n) h2 = (Some key, h3)"
          "same_memory h2 h3 (if has_const_key n \<or> key = None then 0 else 1)" by (auto simp: key_def)
        obtain ok copies h4 where d: "duplicate_loop ch l [] h3 = (ok, copies, h4)" by (cases "duplicate_loop ch l [] h3")
        note l = good [OF c(1) [symmetric] refl refl]
        have kept: "cJSON_Duplicate_rec (CJSON n ch) l r h =
            (if \<not> r then (Some (CJSON (copy_node n) []), h3)
             else if ok then (Some (CJSON (copy_node n) copies), h4)
             else (None, cJSON_Delete [CJSON (copy_node n) copies] h4))"
          using a(1) b(1) c(1) d by (simp add: x_def [symmetric] cn)
        have nb: "same_memory h h3 (int (node_blocks (copy_node n)))"
          using a(2) b(2) c(2) x by (auto simp: same_memory_def node_blocks_def cn)
        have nr: "\<not> is_reference (copy_node n)" using x(1) by (simp add: cn)
        show ?thesis
        proof (cases r)
          case False
          then show ?thesis using kept nb nr by (simp add: rec_good_def opt_blocks_def copied_def)
        next
          case True
          then have "loop_good ch l [] h3 (ok, copies, h4)" using l d by simp
          then have "same_memory h3 h4 (int (blocks_list copies))"
            "if ok then copies = map copy_tree ch \<and> \<not> too_deep l (CJSON n ch) else starved h3 h4 \<or> too_deep l (CJSON n ch)"
            by (auto simp: loop_good_def too_deep_kids not_le)
          then show ?thesis using kept nb nr True starved_later [OF nb, of h4]
            by (auto simp: rec_good_def opt_blocks_def copied_def same_memory_def starved_def
                simp del: cJSON_Duplicate_rec.simps split: if_splits)
        qed
      qed
    qed
  qed
next
  case (3 c cs l copies h)
  show ?case
  proof (cases "CJSON_CIRCULAR_LIMIT \<le> l")
    case True
    then show ?thesis by (auto simp: loop_good_def same_memory_def)
  next
    case False
    then show ?thesis
      using 3 by (intro loop_good_Cons) (auto intro: 3)
  qed
qed (auto simp: loop_good_def same_memory_def)

text \<open>
  C8: \<open>cJSON_Duplicate\<close> gives the whole tree or nothing. A copy has every value, name and
  child of the original in order, owns each of its blocks, and lies within the depth limit;
  without a copy no block is left behind, and an allocation had failed or the tree is deeper
  than the limit.
\<close>

theorem duplicate_copies:
  assumes "cJSON_Duplicate (Some t) recurse h = (res, h')"
  shows "live h' = live h + int (opt_blocks res) \<and>
    (case res of
       None \<Rightarrow> (\<exists>k. calls h \<le> k \<and> k < calls h' \<and> \<not> avail h k) \<or> recurse \<and> CJSON_CIRCULAR_LIMIT < levels t
     | Some c \<Rightarrow> c = (if recurse then copy_tree t else CJSON (copy_node (info t)) []) \<and>
         (recurse \<longrightarrow> levels t \<le> CJSON_CIRCULAR_LIMIT))"
proof -
  have "rec_good t 0 recurse h (res, h')"
    using duplicate_good(1) [of t 0 recurse h] assms by (simp add: cJSON_Duplicate_def)
  then show ?thesis
    by (auto simp: rec_good_def same_memory_def starved_def copied_def too_deep_def CJSON_CIRCULAR_LIMIT_def
        split: option.splits)
qed

definition example_pair :: CJSON where
  "example_pair = CJSON (node0\<lparr>jtype := cJSON_Object OR cJSON_IsReference\<rparr>)
     [CJSON (node0\<lparr>jtype := cJSON_String, valuestring := Some (''b'' @ [NUL, CHR ''x'']), jstring := Some ''a''\<rparr>) []]"

theorem duplicate_copies_witness:
  "\<exists>h'. cJSON_Duplicate (Some example_pair) True example_hooks = (Some (CJSON (node0\<lparr>jtype := cJSON_Object\<rparr>)
     [CJSON (node0\<lparr>jtype := cJSON_String, valuestring := Some ''b'', jstring := Some ''a''\<rparr>) []]), h') \<and>
     live h' = live example_hooks + 4"
proof -
  obtain res h' where d: "cJSON_Duplicate (Some example_pair) True example_hooks = (res, h')"
    by (cases "cJSON_Duplicate (Some example_pair) True example_hooks")
  have l: "levels example_pair = 1" by (simp add: example_pair_def levels.simps)
  have c: "copy_tree example_pair = CJSON (node0\<lparr>jtype := cJSON_Object\<rparr>)
     [CJSON (node0\<lparr>jtype := cJSON_String, valuestring := Some ''b'', jstring := Some ''a''\<rparr>) []]"
    by (simp add: example_pair_def copy_node_def json_types has_const_key_def cstr_def node0_def)
  have "blocks (copy_tree example_pair) = 4"
    unfolding c by (simp add: node_blocks_def is_reference_def has_const_key_def json_types node0_def)
  then show ?thesis
    using duplicate_copies [OF d] l c d
    by (cases res) (auto simp: example_hooks_def CJSON_CIRCULAR_LIMIT_def opt_blocks_def)
qed

end
