(* ===== verification/JCompare.thy ===== *)
theory JCompare
  imports JCopy
begin

text \<open>
  Comparing trees (\<^verbatim>\<open>cJSON.c\<close>): \<open>cJSON_Compare\<close>, with its lookup of members by name in both
  directions. It is symmetric, and a duplicate compares equal to its original when numbers,
  texts and names allow it.
\<close>

section \<open>Comparison\<close>

lemma get_object_item_size: "get_object_item (Some ob) k b = Some c \<Longrightarrow> size c < size ob"
proof -
  have "find_sensitive n cs = Some c \<Longrightarrow> size c < Suc (size_list size cs)" for n cs
    by (induction cs) (auto split: option.splits if_splits)
  moreover have "find_insensitive n cs = Some c \<Longrightarrow> size c < Suc (size_list size cs)" for n cs
    by (induction cs) (auto split: if_splits)
  ultimately show "get_object_item (Some ob) k b = Some c \<Longrightarrow> size c < size ob"
    by (cases ob) (auto simp: get_object_item_def less_Suc_eq split: option.splits if_splits)
qed

lemma kids_less [simp]: "size_list size (child it) < size it"
  by (cases it) simp

lemma size_pos [simp]: "0 < size (it :: CJSON)"
  by (cases it) simp

lemma kids_less2 [simp]:
  "size_list size (child a) + size_list size (child b) < size a + size b"
  "size_list size (child b) + size a < size a + size b"
  using kids_less [of a] kids_less [of b] by linarith+

text \<open>
  The comparison of two different items behind the tests of type and identity; \<open>compare_elems\<close>
  and \<open>compare_members\<close> are its loops, the second one over the members of one object with
  lookup in the other.
\<close>

function compare_items :: "CJSON \<Rightarrow> CJSON \<Rightarrow> bool \<Rightarrow> bool"
  and compare_elems :: "CJSON list \<Rightarrow> CJSON list \<Rightarrow> bool \<Rightarrow> bool"
  and compare_members :: "CJSON list \<Rightarrow> CJSON \<Rightarrow> bool \<Rightarrow> bool" where
  "compare_items a b case_sensitive \<longleftrightarrow>
     (let t = jtype (info a) AND 0xFF in
      if t \<noteq> jtype (info b) AND 0xFF then False
      else if t \<in> {cJSON_False, cJSON_True, cJSON_NULL} then True
      else if t = cJSON_Number then compare_double (valuedouble (info a)) (valuedouble (info b))
      else if t \<in> {cJSON_String, cJSON_Raw} then
        (case (valuestring (info a), valuestring (info b)) of
           (Some s, Some u) \<Rightarrow> cstr s = cstr u | _ \<Rightarrow> False)
      else if t = cJSON_Array then compare_elems (child a) (child b) case_sensitive
      else if t = cJSON_Object then
        compare_members (child a) b case_sensitive \<and> compare_members (child b) a case_sensitive
      else False)"
| "compare_elems (x # xs) (y # ys) case_sensitive \<longleftrightarrow>
     (if \<not> compare_items x y case_sensitive then False else compare_elems xs ys case_sensitive)"
| "compare_elems [] [] case_sensitive \<longleftrightarrow> True"
| "compare_elems [] (y # ys) case_sensitive \<longleftrightarrow> False"
| "compare_elems (x # xs) [] case_sensitive \<longleftrightarrow> False"
| "compare_members [] ob case_sensitive \<longleftrightarrow> True"
| "compare_members (c # cs) ob case_sensitive \<longleftrightarrow>
     (case get_object_item (Some ob) (jstring (info c)) case_sensitive of
        None \<Rightarrow> False
      | Some d \<Rightarrow> if \<not> compare_items c d case_sensitive then False else compare_members cs ob case_sensitive)"
  by pat_completeness auto

termination
  by (relation "measure (\<lambda>x. case x of
      Inl (a, b, _) \<Rightarrow> size a + size b
    | Inr (Inl (xs, ys, _)) \<Rightarrow> size_list size xs + size_list size ys
    | Inr (Inr (xs, ob, _)) \<Rightarrow> size_list size xs + size ob)")
    (auto dest: get_object_item_size)

declare compare_items.simps [simp del]

text \<open>
  \<open>cJSON_Compare\<close>; \<open>identical\<close> is the pointer test, whether the two items are one. Items of
  separate trees are not, nor are the items the loops compare.
\<close>

definition cJSON_Compare :: "CJSON option \<Rightarrow> CJSON option \<Rightarrow> bool \<Rightarrow> bool \<Rightarrow> bool" where
  "cJSON_Compare a b identical case_sensitive \<longleftrightarrow>
     (case (a, b) of
        (Some x, Some y) \<Rightarrow>
          let t = jtype (info x) AND 0xFF in
          if t \<noteq> jtype (info y) AND 0xFF then False
          else if t \<notin> {cJSON_False, cJSON_True, cJSON_NULL, cJSON_Number, cJSON_String, cJSON_Raw,
                       cJSON_Array, cJSON_Object} then False
          else if identical then True
          else compare_items x y case_sensitive
      | _ \<Rightarrow> False)"

lemma compare_separate: "cJSON_Compare (Some x) (Some y) False cs \<longleftrightarrow> compare_items x y cs"
  by (simp add: cJSON_Compare_def compare_items.simps [of x y] Let_def)

section \<open>Numbers\<close>

text \<open>Binary64 values as arithmetic makes them: the significand is normalised.\<close>

fun canonical :: "dbl \<Rightarrow> bool" where
  "canonical (Fin s m e) \<longleftrightarrow> m < 2 ^ 53 \<and> - 1074 \<le> e \<and> (2 ^ 52 \<le> m \<or> e = - 1074)"
| "canonical _ = True"

lemma scaled: "- int K \<le> e \<Longrightarrow>
    fst (dbl_frac (Fin False m e)) * 2 ^ K = int (m * 2 ^ nat (e + int K)) * int (snd (dbl_frac (Fin False m e)))"
proof (cases "0 \<le> e")
  case True
  then have "nat (e + int K) = nat e + K" by simp
  then show ?thesis using True by (simp add: power_add)
next
  case False
  assume e: "- int K \<le> e"
  then have "(2::int) ^ K = 2 ^ (nat (e + int K) + nat (- e))"
    using False by (intro arg_cong [of _ _ "\<lambda>k. 2 ^ k"]) linarith
  then show ?thesis using False by (simp add: power_add)
qed

lemma canonical_below:
  assumes "m < 2 ^ 53" "2 ^ 52 \<le> n \<or> j = 0" "m * 2 ^ i = n * 2 ^ j" "i \<le> j"
  shows "m = (n::nat) \<and> i = j"
proof -
  have "m * 2 ^ i = n * 2 ^ (j - i) * 2 ^ i"
    using assms(3,4) by (simp add: mult.assoc flip: power_add)
  then have m: "m = n * 2 ^ (j - i)" by simp
  show ?thesis
  proof (cases "i = j")
    case False
    then obtain k where k: "j - i = Suc k" using assms(4) by (metis diff_is_0_eq le_antisym not0_implies_Suc)
    have "2 ^ 52 \<le> n" using assms(2,4) False by auto
    then have "2 ^ 52 * (2 * 1) \<le> n * (2 * 2 ^ k)" by (intro mult_le_mono) simp_all
    then show ?thesis using m k assms(1) by simp
  qed (use m in simp)
qed

lemma canonical_unique:
  assumes c: "canonical (Fin False m e)" "canonical (Fin False n f)"
    and l: "frac_le (dbl_frac (Fin False m e)) (dbl_frac (Fin False n f))"
      "frac_le (dbl_frac (Fin False n f)) (dbl_frac (Fin False m e))"
  shows "m = n \<and> e = f"
proof -
  define K :: nat where "K = 1074"
  define a b where "a = fst (dbl_frac (Fin False m e))" and "b = int (snd (dbl_frac (Fin False m e)))"
  define a' b' where "a' = fst (dbl_frac (Fin False n f))" and "b' = int (snd (dbl_frac (Fin False n f)))"
  define x y where "x = int (m * 2 ^ nat (e + int K))" and "y = int (n * 2 ^ nat (f + int K))"
  have "0 < b" "0 < b'" "a * b' = a' * b"
    using l by (simp_all add: a_def b_def a'_def b'_def frac_le_def del: dbl_frac.simps)
  moreover have "a * 2 ^ K = x * b" "a' * 2 ^ K = y * b'"
    using scaled [of K] c unfolding a_def b_def a'_def b'_def x_def y_def by (auto simp: K_def simp del: dbl_frac.simps)
  ultimately have "x * (b * b') = y * (b * b')" by (metis mult.assoc mult.commute)
  then have "x = y" using \<open>0 < b\<close> \<open>0 < b'\<close> by simp
  then have xy: "m * 2 ^ nat (e + int K) = n * 2 ^ nat (f + int K)" unfolding x_def y_def by (simp only: of_nat_eq_iff)
  have "m = n \<and> nat (e + int K) = nat (f + int K)"
  proof (cases "nat (e + int K) \<le> nat (f + int K)")
    case True
    then show ?thesis using canonical_below [OF _ _ xy] c by (auto simp: K_def)
  next
    case False
    then show ?thesis using canonical_below [OF _ _ xy [symmetric]] c by (auto simp: K_def)
  qed
  then show ?thesis using c by (auto simp: K_def)
qed

lemma dbl_abs_same:
  assumes "canonical x" "canonical y" "dbl_le (dbl_abs x) (dbl_abs y)" "dbl_le (dbl_abs y) (dbl_abs x)"
  shows "dbl_abs x = dbl_abs y"
proof (cases x; cases y)
  fix s m e t n f
  assume xy: "x = Fin s m e" "y = Fin t n f"
  then have "canonical (Fin False m e)" "canonical (Fin False n f)" using assms by simp_all
  from canonical_unique [OF this] show ?thesis using assms(3,4) by (simp add: xy del: dbl_frac.simps)
qed (use assms in auto)

lemma dbl_abs_linear: "\<not> is_nan x \<Longrightarrow> \<not> is_nan y \<Longrightarrow> dbl_le (dbl_abs x) (dbl_abs y) \<or> dbl_le (dbl_abs y) (dbl_abs x)"
  using frac_le_total by (cases x; cases y) (auto simp del: dbl_frac.simps)

lemma dbl_abs_of_frac: "dbl_abs (dbl_of_frac s n d) = dbl_abs (dbl_of_frac t n d)"
  by (simp add: dbl_of_frac_def Let_def case_prod_unfold)

lemma dbl_abs_sub: "dbl_abs (dbl_sub x y) = dbl_abs (dbl_sub y x)"
proof (cases x; cases y)
  fix s m e t n f
  assume xy: "x = Fin s m e" "y = Fin t n f"
  obtain a b c d where "dbl_frac x = (a, b)" "dbl_frac y = (c, d)" by (metis surj_pair)
  moreover have "nat \<bar>a * int d - c * int b\<bar> = nat \<bar>c * int b - a * int d\<bar>" by simp
  ultimately show ?thesis using dbl_abs_of_frac
    by (simp add: xy round_frac_def mult.commute [of b d] del: dbl_frac.simps)
qed simp_all

lemma compare_double_sym:
  assumes "canonical x" "canonical y"
  shows "compare_double x y = compare_double y x"
proof -
  consider "is_nan x \<or> is_nan y" | "dbl_abs x = dbl_abs y"
    | "\<not> is_nan x" "\<not> is_nan y" "dbl_lt (dbl_abs x) (dbl_abs y) \<noteq> dbl_lt (dbl_abs y) (dbl_abs x)"
    using dbl_abs_same [OF assms] dbl_abs_linear [of x y] by (auto simp: dbl_lt_def)
  then show ?thesis
  proof cases
    case 1
    then show ?thesis by (cases x; cases y) (auto simp: compare_double_def)
  next
    case 3
    then show ?thesis by (simp add: compare_double_def dbl_abs_sub [of x y])
  qed (simp_all add: compare_double_def dbl_abs_sub [of x y])
qed

lemma compare_double_refl: "\<not> is_nan x \<Longrightarrow> \<not> is_inf x \<Longrightarrow> compare_double x x"
proof (cases x)
  case (Fin s m e)
  have z: "dbl_sub x x = Fin False 0 (- 1074)"
    by (simp add: Fin round_frac_def dbl_of_frac_def Let_def case_prod_unfold)
  have "dbl_le (Fin False 0 (- 1074)) (dbl_times_eps (Fin False m e))"
  proof -
    obtain a b where ab: "dbl_frac (Fin False m e) = (a, b)" by (cases "dbl_frac (Fin False m e)")
    then have "0 \<le> a" by (auto split: if_splits)
    then have "round_frac a (b * 2 ^ 52) = Inf False \<or> (\<exists>k f. round_frac a (b * 2 ^ 52) = Fin False k f)"
      by (simp add: round_frac_def dbl_of_frac_def Let_def case_prod_unfold)
    then show ?thesis using ab by (auto simp: frac_le_def simp del: dbl_frac.simps) simp
  qed
  then show ?thesis using z by (simp add: compare_double_def Fin del: dbl_times_eps.simps dbl_le.simps dbl_sub.simps)
qed simp_all

section \<open>Symmetry\<close>

fun canonical_tree :: "CJSON \<Rightarrow> bool" where
  "canonical_tree (CJSON n ch) \<longleftrightarrow> canonical (valuedouble n) \<and> (\<forall>c \<in> set ch. canonical_tree c)"

lemma canonical_info: "canonical_tree t \<Longrightarrow> canonical (valuedouble (info t))"
  and canonical_child: "canonical_tree t \<Longrightarrow> c \<in> set (child t) \<Longrightarrow> canonical_tree c"
  by (cases t; simp)+

lemma compare_items_sym:
  "canonical_tree a \<Longrightarrow> canonical_tree b \<Longrightarrow> compare_items a b cs = compare_items b a cs"
  "(\<forall>x \<in> set xs \<union> set ys. canonical_tree x) \<Longrightarrow> compare_elems xs ys cs = compare_elems ys xs cs"
  "True"
proof (induction a b cs and xs ys cs and xs b cs rule: compare_items_compare_elems_compare_members.induct)
  case (1 a b cs)
  have "compare_double (valuedouble (info a)) (valuedouble (info b)) = compare_double (valuedouble (info b)) (valuedouble (info a))"
    using 1 by (intro compare_double_sym canonical_info)
  moreover have "compare_elems (child a) (child b) cs = compare_elems (child b) (child a) cs"
    if "jtype (info a) AND 0xFF = cJSON_Array" "jtype (info b) AND 0xFF = cJSON_Array"
    using 1(1) [OF refl] that 1(4,5) canonical_child by (auto simp: json_types)
  ultimately show ?case
    by (auto simp: compare_items.simps [of a b] compare_items.simps [of b a] Let_def split: option.split)
qed auto

section \<open>Copies\<close>

definition name_of :: "CJSON \<Rightarrow> string" where
  "name_of c = the (jstring (info c))"

text \<open>What a tree needs so that a copy of it is equal to it.\<close>

fun comparable :: "bool \<Rightarrow> CJSON \<Rightarrow> bool" where
  "comparable b (CJSON n ch) \<longleftrightarrow>
     (let t = jtype n AND 0xFF in
      t \<in> {cJSON_False, cJSON_True, cJSON_NULL} \<or>
      t = cJSON_Number \<and> \<not> is_nan (valuedouble n) \<and> \<not> is_inf (valuedouble n) \<or>
      t \<in> {cJSON_String, cJSON_Raw} \<and> valuestring n \<noteq> None \<or>
      t = cJSON_Array \<and> (\<forall>c \<in> set ch. comparable b c) \<or>
      t = cJSON_Object \<and> (\<forall>c \<in> set ch. comparable b c) \<and> all_named ch \<and>
        sorted_wrt (\<lambda>c d. \<not> same_name b (name_of c) (name_of d)) ch)"

lemma compare_members_all:
  "compare_members cs ob b \<longleftrightarrow>
    (\<forall>c \<in> set cs. \<exists>d. get_object_item (Some ob) (jstring (info c)) b = Some d \<and> compare_items c d b)"
  by (induction cs) (auto split: option.split)

lemma compare_elems_all2: "compare_elems xs ys b \<longleftrightarrow> list_all2 (\<lambda>x y. compare_items x y b) xs ys"
  by (induction xs arbitrary: ys) (case_tac ys; auto)+

text \<open>Two lists of members with the same names, in order.\<close>

definition twins :: "CJSON list \<Rightarrow> CJSON list \<Rightarrow> bool" where
  "twins xs ys \<longleftrightarrow> all_named xs \<and> all_named ys \<and> list_all2 (\<lambda>x y. cstr (name_of x) = cstr (name_of y)) xs ys"

lemma named: "all_named cs \<Longrightarrow> c \<in> set cs \<Longrightarrow> jstring (info c) = Some (name_of c)"
  by (auto simp: all_named_def name_of_def)

lemma twins_found:
  "twins xs ys \<Longrightarrow> sorted_wrt (\<lambda>c d. \<not> same_name b (name_of c) (name_of d)) xs \<Longrightarrow> (c, d) \<in> set (zip xs ys) \<Longrightarrow>
    find_name b (name_of c) ys = Some d"
proof (induction xs arbitrary: ys)
  case (Cons x xs)
  obtain y ys' where ys: "ys = y # ys'" "twins xs ys'" "cstr (name_of x) = cstr (name_of y)" "all_named ys"
    using Cons.prems(1) by (cases ys) (auto simp: twins_def all_named_def)
  then have y: "jstring (info y) = Some (name_of y)" by (intro named) auto
  have "same_name b (name_of x) (name_of y)" using ys(3) by (simp add: same_name_def)
  moreover have "\<not> same_name b (name_of c) (name_of y)" if "(c, d) \<in> set (zip xs ys')"
  proof -
    have "c \<in> set xs" using that by (rule set_zip_leftD)
    then have "\<not> same_name b (name_of x) (name_of c)" using Cons.prems(2) by simp
    then show ?thesis using ys(3) by (auto simp: same_name_def)
  qed
  ultimately show ?case using Cons.IH [OF ys(2)] Cons.prems(2,3) ys(1) y by auto
qed simp

lemma twins_compare:
  assumes "twins xs (child ob)" "sorted_wrt (\<lambda>c d. \<not> same_name b (name_of c) (name_of d)) xs"
    and "list_all2 (\<lambda>x y. compare_items x y b) xs (child ob)"
  shows "compare_members xs ob b"
  unfolding compare_members_all
proof
  fix c assume "c \<in> set xs"
  then obtain d where d: "(c, d) \<in> set (zip xs (child ob))"
    using assms(3) by (metis in_set_impl_in_set_zip1 list_all2_lengthD)
  have "jstring (info c) = Some (name_of c)" using assms(1) \<open>c \<in> set xs\<close> by (auto simp: twins_def intro: named)
  moreover have "get_object_item (Some ob) (Some (name_of c)) b = Some d"
    using twins_found [OF assms(1,2) d] assms(1) by (simp add: get_object_item_eq twins_def)
  ultimately show "\<exists>d. get_object_item (Some ob) (jstring (info c)) b = Some d \<and> compare_items c d b"
    using assms(3) d by (auto simp: list_all2_iff)
qed

lemma cstr_cstr [simp]: "cstr (cstr s) = cstr s"
  by (simp add: cstr_def)

lemma copy_name: "jstring (info c) \<noteq> None \<Longrightarrow>
    jstring (info (copy_tree c)) \<noteq> None \<and> cstr (name_of (copy_tree c)) = cstr (name_of c)"
  by (cases c) (auto simp: copy_node_def name_of_def)

lemma twins_copy: "all_named cs \<Longrightarrow> twins cs (map copy_tree cs) \<and> twins (map copy_tree cs) cs"
  using copy_name by (auto simp: twins_def all_named_def list_all2_conv_all_nth)

lemma distinct_copy:
  "all_named cs \<Longrightarrow> sorted_wrt (\<lambda>c d. \<not> same_name b (name_of c) (name_of d)) cs \<Longrightarrow>
    sorted_wrt (\<lambda>c d. \<not> same_name b (name_of c) (name_of d)) (map copy_tree cs)"
  using copy_name by (auto simp: sorted_wrt_map same_name_def all_named_def intro: sorted_wrt_mono_rel [rotated])

lemma compare_copy: "comparable b t \<Longrightarrow> compare_items t (copy_tree t) b \<and> compare_items (copy_tree t) t b"
proof (induction t)
  case (CJSON n ch)
  define t where "t = jtype n AND 0xFF"
  have ty: "jtype (copy_node n) AND 0xFF = t" "valuedouble (copy_node n) = valuedouble n"
    "valuestring (copy_node n) = map_option cstr (valuestring n)"
    by (simp_all add: copy_node_def t_def)
  have kids: "list_all2 (\<lambda>x y. compare_items x y b) ch (map copy_tree ch) \<and>
      list_all2 (\<lambda>x y. compare_items x y b) (map copy_tree ch) ch" if "t = cJSON_Array \<or> t = cJSON_Object"
    using CJSON that by (auto simp: t_def Let_def json_types list_all2_conv_all_nth)
  have members: "compare_members ch (CJSON (copy_node n) (map copy_tree ch)) b \<and>
      compare_members (map copy_tree ch) (CJSON n ch) b" if "t = cJSON_Object"
    using CJSON.prems that kids twins_copy [of ch] distinct_copy [of ch b]
    by (auto simp: t_def Let_def json_types intro!: twins_compare)
  consider "t \<in> {cJSON_False, cJSON_True, cJSON_NULL}" | "t = cJSON_Number" "compare_double (valuedouble n) (valuedouble n)"
    | s where "t \<in> {cJSON_String, cJSON_Raw}" "valuestring n = Some s" | "t = cJSON_Array" | "t = cJSON_Object"
    using CJSON.prems by (auto simp: t_def [symmetric] Let_def intro: compare_double_refl)
  then show ?case
    by cases (use kids members in \<open>auto simp: compare_items.simps Let_def ty json_types t_def [symmetric] compare_elems_all2\<close>)
qed

section \<open>Properties\<close>

text \<open>
  C36: \<open>cJSON_Compare\<close> is symmetric on trees with binary64 numbers: the order of its arguments
  never matters, although the loop over an object looks the members of one in the other.
\<close>

theorem compare_symmetric:
  assumes "\<forall>x. a = Some x \<longrightarrow> canonical_tree x" "\<forall>x. b = Some x \<longrightarrow> canonical_tree x"
  shows "cJSON_Compare a b i cs = cJSON_Compare b a i cs"
proof (cases a; cases b)
  fix x y assume ab: "a = Some x" "b = Some y"
  then have "compare_items x y cs = compare_items y x cs" using assms by (intro compare_items_sym(1)) auto
  moreover have "(jtype (info x) AND 0xFF = jtype (info y) AND 0xFF) = (jtype (info y) AND 0xFF = jtype (info x) AND 0xFF)"
    by (rule eq_commute)
  ultimately show ?thesis
    by (cases "jtype (info x) AND 0xFF = jtype (info y) AND 0xFF") (simp_all add: ab cJSON_Compare_def Let_def)
qed (simp_all add: cJSON_Compare_def)

theorem compare_symmetric_witness:
  "cJSON_Compare (Some (CJSON (node0\<lparr>jtype := cJSON_Number, valuedouble := Fin True (2 ^ 52) 0\<rparr>) []))
     (Some (CJSON (node0\<lparr>jtype := cJSON_Number, valuedouble := Fin False (2 ^ 52) 0\<rparr>) [])) False True =
   cJSON_Compare (Some (CJSON (node0\<lparr>jtype := cJSON_Number, valuedouble := Fin False (2 ^ 52) 0\<rparr>) []))
     (Some (CJSON (node0\<lparr>jtype := cJSON_Number, valuedouble := Fin True (2 ^ 52) 0\<rparr>) [])) False True"
  by (rule compare_symmetric) simp_all

text \<open>
  C35: a duplicate is equal to its original, and the original to it, for a tree of valid
  types whose numbers are finite, whose texts are there and whose members have names that
  differ (in the asked sense of case).
\<close>

theorem duplicate_compares_equal:
  assumes "comparable b t" "cJSON_Duplicate (Some t) True h = (Some u, h')"
  shows "cJSON_Compare (Some t) (Some u) False b \<and> cJSON_Compare (Some u) (Some t) False b"
proof -
  have "u = copy_tree t"
    using duplicate_good(1) [of t 0 True h] assms(2) by (simp add: cJSON_Duplicate_def rec_good_def copied_def)
  then show ?thesis using compare_copy [OF assms(1)] by (simp add: compare_separate)
qed

theorem duplicate_compares_equal_witness:
  "cJSON_Compare (Some example_pair) (fst (cJSON_Duplicate (Some example_pair) True example_hooks)) False True"
proof -
  have "comparable True example_pair"
    by (simp add: example_pair_def json_types all_named_def node0_def)
  moreover have "fst (cJSON_Duplicate (Some example_pair) True example_hooks) \<noteq> None"
    by (simp add: cJSON_Duplicate_def example_pair_def cJSON_New_Item_def allocate_def example_hooks_def
        copy_text_def cJSON_strdup_def CJSON_CIRCULAR_LIMIT_def has_const_key_def json_types node0_def Let_def)
  ultimately show ?thesis
    using duplicate_compares_equal [of True example_pair example_hooks]
    by (cases "cJSON_Duplicate (Some example_pair) True example_hooks") auto
qed

end
