(* ===== verification/Spec2Isabelle.thy ===== *)
theory Spec2Isabelle
  imports RingMonitor TcpDeadlock App Log JLinksTree JMinify JCompare
begin

text \<open>
  A verification library for SG-Muni-Gen1, the bin-lift counter that runs on a vehicle
  gateway (\<^verbatim>\<open>src/src\<close>): it watches digital inputs, counts bin lifts, keeps the count in a
  file, and serves it to TCP clients, which acknowledge every lift.

  \<^bold>\<open>The program.\<close> \<open>main\<close> opens the log, reads the serial number, the configuration (JSON) and
  the count, starts the GPIO polling task and the server, and waits. The polling task calls
  \<open>gpio_change_callback\<close> on a change of the inputs; for a lift it counts, stores the count,
  broadcasts a JSON message and files it under every client. The server has three threads:
  an epoll loop that accepts, reads and closes, a worker loop that hands messages to
  \<open>on_message\<close>, and a send loop, joined by two blocking queues. \<open>on_message\<close> parses the request
  and pushes a task into one of three more queues, each served by a thread; a fourth thread
  resends what has not been acknowledged.

  \<^bold>\<open>Theories.\<close> Each opens with what it holds; definitions keep the names of the code.
  \<^item> \<open>Prelude\<close>, \<open>Decimal\<close>, \<open>CDouble\<close>: C integers, strings and decimal text, binary64 as
    sign, significand and exponent in integer arithmetic.
  \<^item> \<open>RingBuffer\<close> (\<^verbatim>\<open>sg-ringbuffer.c\<close>): the array queue and its blocking calls; the locale
    \<open>bounded_queue\<close> is its contract, interpreted as \<open>rbq\<close> on the code's model. \<open>RingMonitor\<close>:
    the same calls as a step relation of any number of threads with mutex and condition
    variables.
  \<^item> \<open>TcpServer\<close> (\<^verbatim>\<open>sg-tcp.c\<close>): client table, epoll loop, worker and send loop, interface.
    \<open>TcpDeadlock\<close>: broadcast, send loop and \<open>SgTcpServer_stop\<close> as a step relation over the
    lock of the table and the \<open>stopped\<close> flag.
  \<^item> \<open>Gpio\<close> (\<^verbatim>\<open>sg-gpio.c\<close>), \<open>GpioMonitor\<close> (\<^verbatim>\<open>sg-gpio-monitor.c\<close>): shared memory, message
    queue and the polling loop. The constants of the vendor's headers are parameters.
  \<^item> \<open>Storage\<close> (the files of \<^verbatim>\<open>main.c\<close>): stdio over a file system in which any call may fail;
    the locale \<open>counter_store\<close> is what the count file promises, interpreted as \<open>count_file\<close>.
    \<open>Log\<close> (\<^verbatim>\<open>sg-log.c\<close>): the rotating log on the same file system.
  \<^item> \<open>ClientProto\<close>, \<open>Pending\<close>, \<open>BinLift\<close>, \<open>Comm\<close> (\<^verbatim>\<open>sg-comm.c\<close>): the request parser over the
    bytes of the receive buffer, the linked list of unacknowledged messages, entries and texts,
    on an explicit heap, the JSON message, and the threads and the callback over all of these. \<open>App\<close>
    (\<^verbatim>\<open>main.c\<close>, \<open>start_sg_server\<close>, \<open>stop_sg_server\<close>): configuration, boot, shutdown.
  \<^item> \<^verbatim>\<open>cJSON.c\<close>: \<open>CJson\<close> (items, hooks, deletion, accessors), \<open>JString\<close> and \<open>JParse\<close> (the
    parser), \<open>JParseSafe\<close> (its contract), \<open>JPrint\<close> (the printer over its growing buffer),
    \<open>JNumber\<close>, \<open>JPrintSafe\<close> and \<open>JPrintApi\<close> (its contract and entry points), \<open>JRoundtrip\<close>
    (parsing what was printed), \<open>JTree\<close> (constructors, adding, lookup), \<open>JLinks\<close> and
    \<open>JLinksTree\<close> (child lists on \<open>next\<close>, \<open>prev\<close> and \<open>child\<close> pointers), \<open>JCopy\<close>, \<open>JCompare\<close>,
    \<open>JMinify\<close>.

  \<^bold>\<open>Conventions.\<close> A C \<^verbatim>\<open>int\<close> is a 32-bit word where it wraps and an \<open>int\<close> in range elsewhere. A
  \<open>char *\<close> is the bytes of its block; \<open>cstr\<close> is what a reader sees of them. A result \<open>None\<close>
  (or \<open>PFault\<close>, \<open>PrintCrash\<close>, \<open>Crash\<close>) is behaviour C leaves undefined: an access outside a
  block, a use of \<open>NULL\<close> or of a freed block, a format without its argument. An allocation
  that the code does not check is an argument, and its failure leads there. Memory in cJSON is \<open>hooks\<close>: the \<open>k\<close>-th allocation
  succeeds when \<open>avail k\<close>, and \<open>live\<close> counts the blocks, so that a statement for all hooks
  covers every pattern of failures. What system calls return is an argument or a field.

  \<^bold>\<open>What the lemmas show.\<close>
  \<^item> The circular array implements a bounded list, alone and under concurrency; a wake-up
    is lost only through a timed wait that ends late; deadlines are exact.
  \<^item> A lift is counted, stored, sent and waits for every client; over lifts, clears and
    restarts file and memory agree; an acknowledgement stops the resending; the pending list
    on pointers implements a list, leaks neither entries nor texts, and drains within seventeen
    passes of the resend thread. The input thread reports every edge, once.
  \<^item> The parser ends on any bytes, stays inside its input and leaks nothing; the printer
    writes exactly \<open>render\<close> of the tree, or fails for a stated reason; what it writes is parsed
    back as the same tree; minifying undoes formatting; a duplicate is the whole tree or
    nothing and compares equal; the pointer operations on children implement the operations
    on lists and free exactly what they should.
  \<^item> Every outcome of the configuration and of the boot: the one configuration file that does
    harm is one that does not parse, and the boot fails by an exit or through one of the stated
    unchecked allocations. The log keeps the last lines; a failed storage call leaves one of
    the stated contents.
  \<^item> Where the code does not do what it means to, a theorem says so: the broadcast deadlock, the
    broadcast that outlives the send thread, the wake-up lost to a late timeout, the exit event,
    the phantom change, negative counts, the configuration that does not parse, the unchecked
    allocations, the lost reference, the failed rotation, the lost blanks.

  \<^bold>\<open>Bounds and fuel.\<close> The parser takes fuel, three times the input and three more; \<open>JParseSafe\<close>
  shows that it is never used up, and \<open>JRoundtrip\<close> that a text of \<open>n\<close> bytes needs at most \<open>2 n\<close>.
  The walks of \<open>JLinks\<close> and the loop of \<open>cJSON_Minify\<close> are partial functions; their theorems
  give a result, so that they end. All other loops are total. The depth of a tree is bounded
  by 1000 when parsed and by 10000 when duplicated, as in the code. A loop that waits takes the
  list of what its waits return.

  \<^bold>\<open>Not modelled.\<close> Makefiles; the socket options and addresses of the set-up calls; the
  thread library itself; the formats of the log beyond the expanded message, and the log
  lines of the other components, which change nothing they rely on; the version string and
  the error pointer of cJSON, its wrappers of \<^verbatim>\<open>malloc\<close> and \<^verbatim>\<open>free\<close>. Memory shared between
  trees (items added by reference) appears where the code marks it, in \<open>blocks\<close> and
  \<open>cJSON_Delete\<close>, and cyclic trees do not occur; a key given to a replacement is a text of its own and not
  the name of the replacement itself. Seconds of the clock are unbounded.
\<close>

end
